(* ===== verification/SB_Prelude.thy ===== *)
theory SB_Prelude
  imports Main "HOL-Library.Word"
begin

text \<open>
  What every theory of the development shares: the names of the model's basic types, the
  JavaScript collections the code keeps its state in, and the lemmas about them.

  A JavaScript \<open>Map\<close> iterates in insertion order and \<open>set\<close> of a key it already holds keeps the
  key's place; the code relies on both (the oldest entry is the first one). It is modelled by an
  association list with distinct keys and the operations \<open>om_get\<close>, \<open>om_set\<close>, \<open>om_del\<close>. A
  JavaScript \<open>Set\<close> is a list without repetitions, with \<open>js_add\<close> and \<open>js_remove\<close>. The laws the
  rest of the development uses are the assumptions of the locale \<open>insertion_map\<close>, which is
  interpreted on these operations.
\<close>

section \<open>Names of the basic types\<close>

type_synonym client_id = string
type_synonym request_id = string
type_synonym term_id = string
type_synonym config_name = string
type_synonym bytes = "8 word list"

text \<open>Milliseconds, on the wall clock or on the monotonic clock.\<close>

type_synonym millis = int

named_theorems om_simps \<open>characteristic equations of the ordered map\<close>

section \<open>Insertion-ordered maps\<close>

type_synonym ('k, 'v) omap = "('k \<times> 'v) list"

definition om_get :: "('k, 'v) omap \<Rightarrow> 'k \<Rightarrow> 'v option" where
  "om_get m k = map_of m k"

definition om_has :: "('k, 'v) omap \<Rightarrow> 'k \<Rightarrow> bool" where
  "om_has m k \<longleftrightarrow> om_get m k \<noteq> None"

fun om_set :: "'k \<Rightarrow> 'v \<Rightarrow> ('k, 'v) omap \<Rightarrow> ('k, 'v) omap" where
  "om_set k v [] = [(k, v)]"
| "om_set k v ((k', v') # m) = (if k' = k then (k, v) # m else (k', v') # om_set k v m)"

definition om_del :: "'k \<Rightarrow> ('k, 'v) omap \<Rightarrow> ('k, 'v) omap" where
  "om_del k m = filter (\<lambda>(k', v). k' \<noteq> k) m"

definition om_keys :: "('k, 'v) omap \<Rightarrow> 'k list" where
  "om_keys m = map fst m"

definition om_inv :: "('k, 'v) omap \<Rightarrow> bool" where
  "om_inv m \<longleftrightarrow> distinct (om_keys m)"

lemma om_get_Nil [simp, om_simps]: "om_get [] k = None"
  by (simp add: om_get_def)

lemma om_get_Cons [simp]: "om_get ((k', v) # m) k = (if k' = k then Some v else om_get m k)"
  by (simp add: om_get_def)

lemma om_get_set [simp, om_simps]: "om_get (om_set k v m) = (om_get m)(k \<mapsto> v)"
  by (induction k v m rule: om_set.induct) (auto simp: fun_eq_iff)

lemma om_get_del [simp, om_simps]: "om_get (om_del k m) = (om_get m)(k := None)"
  by (induction m) (auto simp: om_del_def fun_eq_iff)

lemma om_keys_Nil [simp]: "om_keys [] = []"
  by (simp add: om_keys_def)

lemma om_keys_Cons [simp]: "om_keys (p # m) = fst p # om_keys m"
  by (simp add: om_keys_def)

lemma om_keys_set [simp, om_simps]:
  "om_keys (om_set k v m) = (if k \<in> set (om_keys m) then om_keys m else om_keys m @ [k])"
  by (induction k v m rule: om_set.induct) auto

lemma om_keys_del [simp, om_simps]: "om_keys (om_del k m) = filter (\<lambda>k'. k' \<noteq> k) (om_keys m)"
  by (induction m) (auto simp: om_del_def)

lemma om_dom [om_simps]: "dom (om_get m) = set (om_keys m)"
proof -
  have "om_get m = map_of m" by (simp add: fun_eq_iff om_get_def)
  then show ?thesis by (simp add: om_keys_def dom_map_of_conv_image_fst)
qed

lemma om_get_None_iff: "om_get m k = None \<longleftrightarrow> k \<notin> set (om_keys m)"
  by (metis domIff om_dom)

lemma om_get_Some_key: "om_get m k = Some v \<Longrightarrow> k \<in> set (om_keys m)"
  by (metis om_get_None_iff option.distinct(1))

lemma om_has_iff [simp]: "om_has m k \<longleftrightarrow> k \<in> set (om_keys m)"
  by (simp add: om_has_def om_get_None_iff)

lemma om_get_in_set: "om_get m k = Some v \<Longrightarrow> (k, v) \<in> set m"
  by (simp add: map_of_SomeD om_get_def)

lemma om_get_iff_in_set: "om_inv m \<Longrightarrow> om_get m k = Some v \<longleftrightarrow> (k, v) \<in> set m"
  by (simp add: om_get_def om_inv_def om_keys_def)

lemma om_set_append: "k \<notin> set (om_keys m) \<Longrightarrow> om_set k v m = m @ [(k, v)]"
  by (induction k v m rule: om_set.induct) auto

lemma om_inv_Nil [simp]: "om_inv []"
  by (simp add: om_inv_def)

lemma om_inv_set [simp, intro]: "om_inv m \<Longrightarrow> om_inv (om_set k v m)"
  by (simp add: om_inv_def)

lemma om_inv_del [simp, intro]: "om_inv m \<Longrightarrow> om_inv (om_del k m)"
  by (simp add: om_inv_def)

lemma om_length_keys: "length (om_keys m) = length m"
  by (simp add: om_keys_def)

lemma length_om_set: "length (om_set k v m) = (if k \<in> set (om_keys m) then length m else Suc (length m))"
  by (metis length_append_singleton om_keys_set om_length_keys)

text \<open>
  The interface: what the code relies on when it keeps something in a \<open>Map\<close>. The clients' facts
  about bounded maps (the oldest entry gives way to the newest) are proved from it.
\<close>

locale insertion_map =
  fixes empty_map :: "'m"
    and get :: "'m \<Rightarrow> 'k \<Rightarrow> 'v option"
    and put :: "'k \<Rightarrow> 'v \<Rightarrow> 'm \<Rightarrow> 'm"
    and del :: "'k \<Rightarrow> 'm \<Rightarrow> 'm"
    and keys :: "'m \<Rightarrow> 'k list"
    and invar :: "'m \<Rightarrow> bool"
  assumes get_empty: "get empty_map = Map.empty"
    and get_put: "get (put k v m) = (get m)(k \<mapsto> v)"
    and get_del: "get (del k m) = (get m)(k := None)"
    and keys_put: "keys (put k v m) = (if k \<in> set (keys m) then keys m else keys m @ [k])"
    and keys_del: "keys (del k m) = filter (\<lambda>k'. k' \<noteq> k) (keys m)"
    and dom_get: "dom (get m) = set (keys m)"
    and invar_empty: "invar empty_map"
    and invar_put: "invar m \<Longrightarrow> invar (put k v m)"
    and invar_del: "invar m \<Longrightarrow> invar (del k m)"
    and invar_distinct: "invar m \<Longrightarrow> distinct (keys m)"
begin

text \<open>Storing an entry and dropping the oldest one beyond \<open>n\<close> entries.\<close>

definition put_bounded :: "nat \<Rightarrow> 'k \<Rightarrow> 'v \<Rightarrow> 'm \<Rightarrow> 'm" where
  "put_bounded n k v m =
     (let m' = put k v m in
      if length (keys m') > n then (case keys m' of [] \<Rightarrow> m' | oldest # _ \<Rightarrow> del oldest m')
      else m')"

lemma length_filter_distinct:
  "distinct xs \<Longrightarrow> x \<in> set xs \<Longrightarrow> Suc (length (filter (\<lambda>y. y \<noteq> x) xs)) = length xs"
proof (induction xs)
  case (Cons a xs)
  show ?case
  proof (cases "a = x")
    case True
    with Cons.prems have "filter (\<lambda>y. y \<noteq> x) xs = xs"
      by (auto simp: filter_id_conv)
    with True show ?thesis by simp
  next
    case False
    with Cons show ?thesis by auto
  qed
qed simp

lemma put_bounded_invar: "invar m \<Longrightarrow> invar (put_bounded n k v m)"
  by (auto simp: put_bounded_def Let_def invar_put invar_del split: list.split)

lemma put_bounded_size:
  assumes "invar m" and "length (keys m) \<le> n"
  shows "length (keys (put_bounded n k v m)) \<le> n"
proof (cases "length (keys (put k v m)) > n")
  case False
  then show ?thesis by (simp add: put_bounded_def Let_def)
next
  case True
  then obtain a as where a: "keys (put k v m) = a # as"
    by (cases "keys (put k v m)") auto
  have d: "distinct (keys (put k v m))"
    using assms(1) by (simp add: invar_put invar_distinct)
  have "length (keys (put k v m)) \<le> Suc n"
    using assms(2) by (simp add: keys_put)
  moreover have "Suc (length (keys (del a (put k v m)))) = length (keys (put k v m))"
    using length_filter_distinct [OF d, of a] a by (simp add: keys_del)
  ultimately show ?thesis using True a by (simp add: put_bounded_def Let_def)
qed

text \<open>Nothing but the oldest key and the stored one is touched.\<close>

lemma put_bounded_get:
  "k' \<noteq> k \<Longrightarrow> get (put_bounded n k v m) k' = get m k' \<or> get (put_bounded n k v m) k' = None"
  by (auto simp: put_bounded_def Let_def get_put get_del split: list.split)

lemma put_bounded_keys: "set (keys (put_bounded n k v m)) \<subseteq> insert k (set (keys m))"
proof -
  have p: "set (keys (put k v m)) = insert k (set (keys m))" by (auto simp: keys_put)
  moreover have "set (keys (del x m')) \<subseteq> set (keys m')" for x m' by (auto simp: keys_del)
  ultimately have "set (keys (del x (put k v m))) \<subseteq> insert k (set (keys m))" for x by blast
  moreover have "put_bounded n k v m = put k v m \<or> (\<exists>x. put_bounded n k v m = del x (put k v m))"
    by (cases "keys (put k v m)") (auto simp: put_bounded_def Let_def)
  ultimately show ?thesis using p by (metis order_refl)
qed

text \<open>Nothing is dropped while there is room.\<close>

lemma put_bounded_room:
  "invar m \<Longrightarrow> card (insert k (set (keys m))) \<le> n \<Longrightarrow> put_bounded n k v m = put k v m"
proof -
  assume a: "invar m" "card (insert k (set (keys m))) \<le> n"
  have "length (keys (put k v m)) = card (set (keys (put k v m)))"
    by (rule distinct_card [symmetric], rule invar_distinct, rule invar_put, rule a(1))
  also have "set (keys (put k v m)) = insert k (set (keys m))" by (auto simp: keys_put)
  finally show ?thesis using a(2) by (simp add: put_bounded_def Let_def)
qed

lemma put_bounded_get_new:
  assumes "0 < n" and "invar m"
  shows "k \<notin> set (keys m) \<Longrightarrow> get (put_bounded n k v m) k = Some v"
  using assms by (cases "keys m") (auto simp: put_bounded_def Let_def get_put get_del keys_put)

end

interpretation js_map: insertion_map "[]" om_get om_set om_del om_keys om_inv
  by unfold_locales (auto simp: om_simps om_inv_def fun_eq_iff)

section \<open>Sets\<close>

definition js_add :: "'a \<Rightarrow> 'a list \<Rightarrow> 'a list" where
  "js_add x xs = (if x \<in> set xs then xs else xs @ [x])"

definition js_remove :: "'a \<Rightarrow> 'a list \<Rightarrow> 'a list" where
  "js_remove x xs = filter (\<lambda>y. y \<noteq> x) xs"

lemma set_js_add [simp]: "set (js_add x xs) = insert x (set xs)"
  by (auto simp: js_add_def)

lemma set_js_remove [simp]: "set (js_remove x xs) = set xs - {x}"
  by (auto simp: js_remove_def)

lemma distinct_js_add [simp, intro]: "distinct xs \<Longrightarrow> distinct (js_add x xs)"
  by (simp add: js_add_def)

lemma distinct_js_remove [simp, intro]: "distinct xs \<Longrightarrow> distinct (js_remove x xs)"
  by (simp add: js_remove_def)

lemma length_js_remove: "length (js_remove x xs) \<le> length xs"
  by (simp add: js_remove_def)

text \<open>\<open>[...new Set(xs)]\<close>: the first occurrence of every element, in order.\<close>

fun js_dedup :: "'a list \<Rightarrow> 'a list" where
  "js_dedup [] = []"
| "js_dedup (x # xs) = x # filter (\<lambda>y. y \<noteq> x) (js_dedup xs)"

lemma set_js_dedup [simp]: "set (js_dedup xs) = set xs"
  by (induction xs) auto

lemma distinct_js_dedup [simp]: "distinct (js_dedup xs)"
  by (induction xs) auto

lemma js_dedup_id: "distinct xs \<Longrightarrow> js_dedup xs = xs"
  by (induction xs) (auto simp: filter_id_conv)

section \<open>Results that may be errors\<close>

text \<open>A call that may throw is a value of a sum: the error on the left. \<open>check\<close> is the sequence of two
  calls, the second run only when the first returned.\<close>

definition check :: "'e + 'a \<Rightarrow> ('a \<Rightarrow> 'e + 'b) \<Rightarrow> 'e + 'b" where
  "check x f = (case x of Inl e \<Rightarrow> Inl e | Inr a \<Rightarrow> f a)"

lemma check_simps [simp]: "check (Inl e) f = Inl e" "check (Inr a) f = f a"
  by (simp_all add: check_def)

lemma check_Inr: "check x f = Inr b \<longleftrightarrow> (\<exists>a. x = Inr a \<and> f a = Inr b)"
  by (cases x) simp_all

lemma check_Inl: "check x f = Inl e \<longleftrightarrow> x = Inl e \<or> (\<exists>a. x = Inr a \<and> f a = Inl e)"
  by (cases x) simp_all

end
