(* ===== verification/JS_Values.thy ===== *)
theory JS_Values
  imports Complex_Main "HOL-Library.Word"
begin

text \<open>
  JavaScript values, as far as the validators of the program look at them: values an application
  passes to \<open>setup()\<close> and values that arrive on the bus.

  A string is its UTF-16 code units. A number is a rational, or one of the three values that are not
  finite; the finite doubles are among the rationals, and the validators only compare them and ask
  whether they are integers. (Zero has one sign here.) An object is its own enumerable properties in
  their order, without identity: what is read of it is read by name. An object of a class of the
  platform, such as a \<open>URL\<close>, carries its tag. Values whose identity matters -
  cycles and shared references - are the graphs of theory \<open>Limits\<close>.
\<close>

section \<open>Strings\<close>

type_synonym js_string = "16 word list"

text \<open>A string literal of the source.\<close>

definition js :: "string \<Rightarrow> js_string" where
  "js s = map (\<lambda>c. word_of_nat (of_char c)) s"

lemma js_simps [simp]:
  "js [] = []" "js (c # s) = word_of_nat (of_char c) # js s"
  by (simp_all add: js_def)

lemma length_js [simp]: "length (js s) = length s"
  by (simp add: js_def)

lemma js_append [simp]: "js (s @ s') = js s @ js s'"
  by (simp add: js_def)

lemma of_char_lt: "(of_char c :: nat) < 256"
  using nat_of_char_less_256 by simp

lemma js_inj: "js s = js s' \<longleftrightarrow> s = s'"
proof -
  have small: "unat (word_of_nat (of_char c) :: 16 word) = of_char c" for c :: char
  proof -
    have "(of_char c :: nat) < 65536" using of_char_lt [of c] by linarith
    then show ?thesis by (simp add: unat_of_nat take_bit_eq_mod)
  qed
  have "inj (\<lambda>c :: char. word_of_nat (of_char c) :: 16 word)"
    by (rule injI) (metis small of_char_eq_iff)
  then show ?thesis by (simp add: js_def inj_map_eq_map)
qed

text \<open>The decimal digits of \<open>String(n)\<close> for a natural number.\<close>

fun nat_digits :: "nat \<Rightarrow> string" where
  "nat_digits n = (if n < 10 then [char_of (48 + n)] else nat_digits (n div 10) @ [char_of (48 + n mod 10)])"

declare nat_digits.simps [simp del]

section \<open>Values\<close>

datatype js_number = NaN | Pos_Infinity | Neg_Infinity | Finite rat

datatype js_value =
    JUndefined
  | JNull
  | JBool bool
  | JNumber js_number
  | JString js_string
  | JObject "(string \<times> js_value) list"
  | JHost string "(string \<times> js_value) list"
  | JArray "js_value list"
  | JFunction

text \<open>\<open>typeof\<close>, and what an error says of a value's type.\<close>

fun type_name :: "js_value \<Rightarrow> string" where
  "type_name JUndefined = ''undefined''"
| "type_name JNull = ''null''"
| "type_name (JBool b) = ''boolean''"
| "type_name (JNumber n) = ''number''"
| "type_name (JString s) = ''string''"
| "type_name (JObject ps) = ''object''"
| "type_name (JHost tag ps) = ''object''"
| "type_name (JArray vs) = ''object''"
| "type_name JFunction = ''function''"

text \<open>Reading a property by name.\<close>

definition prop_of :: "(string \<times> js_value) list \<Rightarrow> string \<Rightarrow> js_value" where
  "prop_of ps k = (case map_of ps k of Some v \<Rightarrow> v | None \<Rightarrow> JUndefined)"

lemma prop_of_simps [simp]:
  "prop_of [] k = JUndefined" "prop_of ((k', v) # ps) k = (if k = k' then v else prop_of ps k)"
  by (simp_all add: prop_of_def)

section \<open>Numbers\<close>

text \<open>\<open>Number.isInteger\<close>, \<open>Number.isFinite\<close>, and the value of an integer.\<close>

fun is_finite :: "js_number \<Rightarrow> bool" where
  "is_finite (Finite q) = True"
| "is_finite _ = False"

fun is_integer :: "js_number \<Rightarrow> bool" where
  "is_integer (Finite q) = (of_int \<lfloor>q\<rfloor> = q)"
| "is_integer _ = False"

fun int_value :: "js_number \<Rightarrow> int" where
  "int_value (Finite q) = \<lfloor>q\<rfloor>"
| "int_value _ = 0"

definition js_int :: "int \<Rightarrow> js_value" where
  "js_int i = JNumber (Finite (of_int i))"

lemma is_integer_of_int [simp]: "is_integer (Finite (of_int i))"
  by simp

lemma int_value_of_int [simp]: "int_value (Finite (of_int i)) = i"
  by simp

lemma is_integer_iff: "is_integer n \<longleftrightarrow> (\<exists>i. n = Finite (of_int i))"
  by (cases n) (auto intro: exI [of _ "\<lfloor>_\<rfloor>"] dest: sym)

end
