(* ===== verification/Errors.thy ===== *)
theory Errors
  imports SB_Prelude JS_Values
begin

text \<open>
  The one error type of the library (\<open>core/errors.ts\<close>, \<open>core/error-codes.ts\<close>): its codes, the
  codes the library retries by itself, the reduction to a plain object that crosses the bus
  (\<open>toJSON\<close>) and the rebuilding of an error from it (\<open>deserializeError\<close>). The remediation
  sentences are named by the table entry they come from rather than copied.
\<close>

section \<open>Codes\<close>

datatype error_code =
    INVALID_ARGUMENT | UNKNOWN_CONFIGURATION | CONFIGURATION_CONFLICT | CONFIGURATION_RELEASED
  | WEB_SERIAL_UNAVAILABLE | WEB_LOCKS_UNAVAILABLE | TRANSPORT_UNAVAILABLE | BROKER_UNAVAILABLE
  | PERMISSION_REQUIRED | PERMISSION_DENIED | USER_GESTURE_REQUIRED | DEVICE_MISMATCH
  | OPEN_FAILED | OPEN_TIMEOUT | DEVICE_DISCONNECTED | RECONNECT_EXHAUSTED | READ_FAILED
  | NOT_CONNECTED | WRITE_FAILED | WRITE_TIMEOUT | WRITE_QUEUE_FULL | OWNER_LOST_DURING_WRITE
  | PROTOCOL_VERSION_MISMATCH | STORAGE_UNAVAILABLE | STORAGE_CORRUPT
  | LISTENER_THREW | INTERNAL_INVARIANT | UNKNOWN

text \<open>\<open>SerialBrokerErrorCode\<close>: every code with the string that stands for it.\<close>

definition code_table :: "(string \<times> error_code) list" where
  "code_table =
    [(''INVALID_ARGUMENT'', INVALID_ARGUMENT), (''UNKNOWN_CONFIGURATION'', UNKNOWN_CONFIGURATION),
     (''CONFIGURATION_CONFLICT'', CONFIGURATION_CONFLICT),
     (''CONFIGURATION_RELEASED'', CONFIGURATION_RELEASED),
     (''WEB_SERIAL_UNAVAILABLE'', WEB_SERIAL_UNAVAILABLE),
     (''WEB_LOCKS_UNAVAILABLE'', WEB_LOCKS_UNAVAILABLE),
     (''TRANSPORT_UNAVAILABLE'', TRANSPORT_UNAVAILABLE), (''BROKER_UNAVAILABLE'', BROKER_UNAVAILABLE),
     (''PERMISSION_REQUIRED'', PERMISSION_REQUIRED), (''PERMISSION_DENIED'', PERMISSION_DENIED),
     (''USER_GESTURE_REQUIRED'', USER_GESTURE_REQUIRED), (''DEVICE_MISMATCH'', DEVICE_MISMATCH),
     (''OPEN_FAILED'', OPEN_FAILED), (''OPEN_TIMEOUT'', OPEN_TIMEOUT),
     (''DEVICE_DISCONNECTED'', DEVICE_DISCONNECTED), (''RECONNECT_EXHAUSTED'', RECONNECT_EXHAUSTED),
     (''READ_FAILED'', READ_FAILED), (''NOT_CONNECTED'', NOT_CONNECTED),
     (''WRITE_FAILED'', WRITE_FAILED), (''WRITE_TIMEOUT'', WRITE_TIMEOUT),
     (''WRITE_QUEUE_FULL'', WRITE_QUEUE_FULL), (''OWNER_LOST_DURING_WRITE'', OWNER_LOST_DURING_WRITE),
     (''PROTOCOL_VERSION_MISMATCH'', PROTOCOL_VERSION_MISMATCH),
     (''STORAGE_UNAVAILABLE'', STORAGE_UNAVAILABLE), (''STORAGE_CORRUPT'', STORAGE_CORRUPT),
     (''LISTENER_THREW'', LISTENER_THREW), (''INTERNAL_INVARIANT'', INTERNAL_INVARIANT),
     (''UNKNOWN'', UNKNOWN)]"

definition code_of_string :: "string \<Rightarrow> error_code option" where
  "code_of_string s = map_of code_table s"

definition string_of_code :: "error_code \<Rightarrow> string" where
  "string_of_code c = the (map_of (map (\<lambda>(s, c). (c, s)) code_table) c)"

lemma code_of_string_of_code [simp]: "code_of_string (string_of_code c) = Some c"
  by (cases c) (simp_all add: code_of_string_def string_of_code_def code_table_def)

text \<open>\<open>RETRYABLE_CODES\<close>.\<close>

definition retryable_codes :: "error_code set" where
  "retryable_codes = {DEVICE_DISCONNECTED, OPEN_FAILED, OPEN_TIMEOUT, READ_FAILED}"

section \<open>The error\<close>

text \<open>A field of \<open>context\<close>: the values the library puts there.\<close>

datatype ctx_value =
    CBool bool | CInt int | CText string | CTexts "string list" | CValue js_value | CAbsent

type_synonym err_context = "(string, ctx_value) omap"

text \<open>The remediation: the table's sentence for a code, or one given explicitly.\<close>

datatype remedy = Table_Remedy error_code | Given_Remedy string

text \<open>What was thrown, as far as \<open>serializeCause\<close> can tell: an \<open>Error\<close> (a \<open>DOMException\<close> or
  not) with its name and message, or anything else with its description.\<close>

datatype cause =
    Error_Cause (cause_name: string) (cause_message: string) (cause_dom: bool)
  | Other_Cause (cause_text: string)

record sb_error =
  err_code :: error_code
  err_message :: string
  err_config :: "config_name option"
  err_ctx :: err_context
  err_remediation :: remedy
  err_retryable :: bool
  err_timestamp :: millis
  err_cause :: "cause option"

record error_options =
  opt_config :: "config_name option"
  opt_context :: err_context
  opt_remediation :: "remedy option"
  opt_retryable :: "bool option"
  opt_timestamp :: "millis option"
  opt_cause :: "cause option"

definition no_options :: error_options where
  "no_options = \<lparr>opt_config = None, opt_context = [], opt_remediation = None,
     opt_retryable = None, opt_timestamp = None, opt_cause = None\<rparr>"

text \<open>The constructor of \<open>SerialBrokerError\<close>.\<close>

definition mk_error :: "error_code \<Rightarrow> string \<Rightarrow> error_options \<Rightarrow> sb_error" where
  "mk_error c msg opts =
     \<lparr>err_code = c, err_message = msg, err_config = opt_config opts, err_ctx = opt_context opts,
      err_remediation = (case opt_remediation opts of Some r \<Rightarrow> r | None \<Rightarrow> Table_Remedy c),
      err_retryable = (case opt_retryable opts of Some b \<Rightarrow> b | None \<Rightarrow> c \<in> retryable_codes),
      err_timestamp = (case opt_timestamp opts of Some t \<Rightarrow> t | None \<Rightarrow> 0),
      err_cause = opt_cause opts\<rparr>"

lemma mk_error_fields [simp]:
  "err_code (mk_error c msg opts) = c"
  "err_message (mk_error c msg opts) = msg"
  "err_config (mk_error c msg opts) = opt_config opts"
  "err_ctx (mk_error c msg opts) = opt_context opts"
  "err_cause (mk_error c msg opts) = opt_cause opts"
  by (simp_all add: mk_error_def)

text \<open>What an application reads as \<open>error.context.started\<close>.\<close>

definition reported_started :: "sb_error \<Rightarrow> bool option" where
  "reported_started e = (case om_get (err_ctx e) ''started'' of Some (CBool b) \<Rightarrow> Some b | _ \<Rightarrow> None)"

section \<open>Crossing the bus\<close>

record serialized_cause =
  sc_name :: string
  sc_message :: string
  sc_dom_name :: "string option"

record serialized_error =
  se_code :: string
  se_message :: string
  se_config :: "config_name option"
  se_context :: err_context
  se_remediation :: remedy
  se_retryable :: bool
  se_timestamp :: millis
  se_cause :: "serialized_cause option"

fun serialize_cause :: "cause \<Rightarrow> serialized_cause" where
  "serialize_cause (Error_Cause n m is_dom) =
     \<lparr>sc_name = n, sc_message = m, sc_dom_name = (if is_dom then Some n else None)\<rparr>"
| "serialize_cause (Other_Cause t) = \<lparr>sc_name = ''NonError'', sc_message = t, sc_dom_name = None\<rparr>"

definition to_json :: "sb_error \<Rightarrow> serialized_error" where
  "to_json e =
     \<lparr>se_code = string_of_code (err_code e), se_message = err_message e, se_config = err_config e,
      se_context = err_ctx e, se_remediation = err_remediation e, se_retryable = err_retryable e,
      se_timestamp = err_timestamp e, se_cause = map_option serialize_cause (err_cause e)\<rparr>"

definition deserialize_error :: "serialized_error \<Rightarrow> sb_error" where
  "deserialize_error s =
     (let cause = map_option (\<lambda>c. Error_Cause (sc_name c) (sc_message c) False) (se_cause s);
          known = code_of_string (se_code s)
      in mk_error (case known of Some c \<Rightarrow> c | None \<Rightarrow> UNKNOWN) (se_message s)
           \<lparr>opt_config = se_config s,
            opt_context = (case known of Some _ \<Rightarrow> se_context s
                           | None \<Rightarrow> om_set ''reportedCode'' (CText (se_code s)) (se_context s)),
            opt_remediation = Some (se_remediation s), opt_retryable = Some (se_retryable s),
            opt_timestamp = Some (se_timestamp s), opt_cause = cause\<rparr>)"

text \<open>\<open>notRetried\<close> of the supervisor: the same error, saying that nothing retries it.\<close>

definition not_retried :: "sb_error \<Rightarrow> sb_error" where
  "not_retried e = mk_error (err_code e) (err_message e)
     \<lparr>opt_config = err_config e, opt_context = err_ctx e, opt_remediation = Some (err_remediation e),
      opt_retryable = Some False, opt_timestamp = Some (err_timestamp e), opt_cause = err_cause e\<rparr>"

definition with_timestamp :: "sb_error \<Rightarrow> millis \<Rightarrow> sb_error" where
  "with_timestamp e now = (if err_timestamp e = 0 then e\<lparr>err_timestamp := now\<rparr> else e)"

text \<open>A rebuilt cause is a plain \<open>Error\<close>.\<close>

fun plain_cause :: "cause \<Rightarrow> cause" where
  "plain_cause (Error_Cause n m _) = Error_Cause n m False"
| "plain_cause (Other_Cause t) = Error_Cause ''NonError'' t False"

lemma plain_cause_serialized:
  "Error_Cause (sc_name (serialize_cause c)) (sc_message (serialize_cause c)) False = plain_cause c"
  by (cases c) simp_all

text \<open>
  C31. An error that crosses the bus arrives as it was sent: code, message, configuration, context,
  remediation, retryability and timestamp are those of the sender's error, and its cause comes back
  as a plain \<open>Error\<close> with the original name and message.
\<close>

theorem error_roundtrip:
  "deserialize_error (to_json e) = e\<lparr>err_cause := map_option plain_cause (err_cause e)\<rparr>"
  by (cases e) (simp add: deserialize_error_def to_json_def mk_error_def Let_def
      option.map_comp comp_def plain_cause_serialized)

text \<open>
  A code this version does not know never reaches the application as a code of its own: it is
  classified as \<open>UNKNOWN\<close>, and the code it had is kept in \<open>context.reportedCode\<close>, everything else of
  the context unchanged.
\<close>

theorem unknown_code_classified:
  assumes "code_of_string (se_code s) = None"
  shows "err_code (deserialize_error s) = UNKNOWN \<and>
    om_get (err_ctx (deserialize_error s)) =
      (om_get (se_context s))(''reportedCode'' \<mapsto> CText (se_code s))"
  using assms by (simp_all add: deserialize_error_def Let_def)

lemma not_retried_fields [simp]:
  "err_code (not_retried e) = err_code e" "err_ctx (not_retried e) = err_ctx e"
  "\<not> err_retryable (not_retried e)" "err_remediation (not_retried e) = err_remediation e"
  by (simp_all add: not_retried_def mk_error_def)

lemma unknown_code_classified_witness:
  "err_code (deserialize_error \<lparr>se_code = ''PORT_MELTED'', se_message = ''?'', se_config = None,
     se_context = [], se_remediation = Given_Remedy '''', se_retryable = False, se_timestamp = 0,
     se_cause = None\<rparr>) = UNKNOWN"
  using unknown_code_classified [of "\<lparr>se_code = ''PORT_MELTED'', se_message = ''?'', se_config = None,
     se_context = [], se_remediation = Given_Remedy '''', se_retryable = False, se_timestamp = 0,
     se_cause = None\<rparr>"]
  by (simp add: code_of_string_def code_table_def)

end
