(* ===== verification/Pending_Writes.thy ===== *)
theory Pending_Writes
  imports Errors
begin

text \<open>
  The writes one context has issued and still waits on (\<open>client/pending-writes.ts\<close>): the place
  where it is decided whether a command may be sent again.

  The state is the map \<open>#writes\<close>; the promise of a write is the effect \<open>Settled\<close>, and the call of
  \<open>host.dispatch\<close> the effect \<open>Dispatched\<close>, in the order the code makes them. What the host answers
  (\<open>canDispatch\<close>, \<open>currentTerm\<close>, \<open>isTermEnded\<close>, the clocks) is the record \<open>host_view\<close>, read as it
  is when the operation runs: none of the host's answers changes while one operation runs, because
  the calls \<open>dispatch\<close> makes never change a term or a status in the same turn. An answer that a tab
  holding the port gives within \<open>dispatch\<close> - a refusal for want of room, a known outcome - is a
  \<open>handle_result\<close> event of its own: it concerns the write just dispatched, which the rest of the
  operation does not look at again.
\<close>

section \<open>Deadlines that yield once when they run late\<close>

definition late_deadline_ms :: millis where
  "late_deadline_ms = 1000"

text \<open>The timer of \<open>scheduleDeadline\<close>: armed for its due time, rescheduled with no delay, or gone.\<close>

datatype deadline = Armed (due_at: millis) | Yielded (due_at: millis) | Idle_Deadline

definition schedule_deadline :: "millis \<Rightarrow> millis \<Rightarrow> deadline" where
  "schedule_deadline now delay = Armed (now + delay)"

text \<open>The timer fires at \<open>now\<close>: the deadline after it, and whether \<open>onExpired\<close> is called.\<close>

fun deadline_fire :: "millis \<Rightarrow> deadline \<Rightarrow> deadline \<times> bool" where
  "deadline_fire now (Armed due) =
     (if now - due \<ge> late_deadline_ms then (Yielded due, False) else (Idle_Deadline, True))"
| "deadline_fire now (Yielded due) = (Idle_Deadline, True)"
| "deadline_fire now Idle_Deadline = (Idle_Deadline, False)"

definition deadline_cancel :: "deadline \<Rightarrow> deadline" where
  "deadline_cancel d = Idle_Deadline"

lemma deadline_yields_once: "deadline_fire now d = (Yielded due, b) \<Longrightarrow> deadline_fire now' (Yielded due) = (Idle_Deadline, True)"
  by simp

section \<open>State\<close>

record pending_write =
  pw_payload :: bytes
  pw_started :: "term_id option"
  pw_addressed :: "term_id option"
  pw_dispatched :: bool
  pw_deadline :: deadline

type_synonym pending_writes = "(request_id, pending_write) omap"

record host_view =
  can_dispatch :: bool
  current_term :: "term_id option"
  is_term_ended :: "term_id \<Rightarrow> bool"
  hv_config :: config_name
  hv_write_timeout :: millis
  hv_now :: millis
  hv_monotonic :: millis

datatype pw_effect =
    Dispatched request_id bytes term_id
  | Settled request_id "sb_error option"

section \<open>Operations\<close>

definition pw_size :: "pending_writes \<Rightarrow> nat" where
  "pw_size ws = length ws"

definition pw_diagnostics :: "pending_writes \<Rightarrow> nat \<times> nat \<times> nat" where
  "pw_diagnostics ws =
     (length ws, length (filter (\<lambda>(r, p). pw_dispatched p) ws),
      length (filter (\<lambda>(r, p). pw_started p \<noteq> None) ws))"

text \<open>The guards of \<open>#dispatch\<close>, in their order: the term to hand the write to, if any.\<close>

definition dispatch_target :: "host_view \<Rightarrow> pending_write \<Rightarrow> term_id option" where
  "dispatch_target h p =
     (if pw_started p \<noteq> None then None
      else if \<not> can_dispatch h then None
      else case current_term h of
        None \<Rightarrow> None
      | Some t \<Rightarrow>
          if pw_dispatched p \<and> pw_addressed p = Some t then None
          else (case pw_addressed p of
                  None \<Rightarrow> Some t
                | Some a \<Rightarrow> if a \<noteq> t \<and> \<not> is_term_ended h a then None else Some t))"

definition dispatch_entry ::
  "host_view \<Rightarrow> request_id \<Rightarrow> pending_write \<Rightarrow> pending_write \<times> pw_effect list" where
  "dispatch_entry h r p =
     (case dispatch_target h p of
        None \<Rightarrow> (p, [])
      | Some t \<Rightarrow> (p\<lparr>pw_dispatched := True, pw_addressed := Some t\<rparr>, [Dispatched r (pw_payload p) t]))"

text \<open>\<open>#dispatch\<close> of the write under \<open>r\<close>.\<close>

definition pw_dispatch ::
  "host_view \<Rightarrow> request_id \<Rightarrow> pending_writes \<Rightarrow> pending_writes \<times> pw_effect list" where
  "pw_dispatch h r ws =
     (case om_get ws r of
        None \<Rightarrow> (ws, [])
      | Some p \<Rightarrow> (case dispatch_entry h r p of (p', es) \<Rightarrow> (om_set r p' ws, es)))"

definition pw_add ::
  "host_view \<Rightarrow> request_id \<Rightarrow> bytes \<Rightarrow> pending_writes \<Rightarrow> pending_writes \<times> pw_effect list" where
  "pw_add h r payload ws =
     pw_dispatch h r
       (om_set r \<lparr>pw_payload = payload, pw_started = None, pw_addressed = None,
                  pw_dispatched = False,
                  pw_deadline = schedule_deadline (hv_monotonic h) (hv_write_timeout h)\<rparr> ws)"

definition pw_settle ::
  "request_id \<Rightarrow> sb_error option \<Rightarrow> pending_writes \<Rightarrow> pending_writes \<times> pw_effect list" where
  "pw_settle r err ws =
     (case om_get ws r of None \<Rightarrow> (ws, []) | Some p \<Rightarrow> (om_del r ws, [Settled r err]))"

definition write_timeout_error :: "host_view \<Rightarrow> request_id \<Rightarrow> pending_write \<Rightarrow> sb_error" where
  "write_timeout_error h r p =
     mk_error WRITE_TIMEOUT ''The write did not complete within the configured deadline''
       (no_options\<lparr>opt_config := Some (hv_config h),
          opt_context := [(''requestId'', CText r), (''byteLength'', CInt (int (length (pw_payload p)))),
                          (''started'', CBool (pw_started p \<noteq> None))],
          opt_timestamp := Some (hv_now h)\<rparr>)"

text \<open>The deadline of the write under \<open>r\<close> fires.\<close>

definition pw_deadline_fires ::
  "host_view \<Rightarrow> request_id \<Rightarrow> pending_writes \<Rightarrow> pending_writes \<times> pw_effect list" where
  "pw_deadline_fires h r ws =
     (case om_get ws r of
        None \<Rightarrow> (ws, [])
      | Some p \<Rightarrow>
          (case deadline_fire (hv_monotonic h) (pw_deadline p) of
             (d, expired) \<Rightarrow>
               if expired then pw_settle r (Some (write_timeout_error h r p)) ws
               else (om_set r (p\<lparr>pw_deadline := d\<rparr>) ws, [])))"

definition pw_approve :: "request_id \<Rightarrow> term_id \<Rightarrow> pending_writes \<Rightarrow> pending_writes \<times> bool" where
  "pw_approve r t ws =
     (case om_get ws r of
        None \<Rightarrow> (ws, False)
      | Some p \<Rightarrow>
          if pw_addressed p \<noteq> Some t then (ws, False)
          else (om_set r (p\<lparr>pw_started := (case pw_started p of None \<Rightarrow> Some t | Some s \<Rightarrow> Some s)\<rparr>) ws,
                True))"

definition is_not_connected :: "sb_error option \<Rightarrow> bool" where
  "is_not_connected err = (case err of None \<Rightarrow> False | Some e \<Rightarrow> err_code e = NOT_CONNECTED)"

definition pw_handle_result ::
  "host_view \<Rightarrow> request_id \<Rightarrow> term_id option \<Rightarrow> sb_error option \<Rightarrow> pending_writes \<Rightarrow>
     pending_writes \<times> pw_effect list" where
  "pw_handle_result h r t err ws =
     (case om_get ws r of
        None \<Rightarrow> (ws, [])
      | Some p \<Rightarrow>
          if t = None \<or> t \<noteq> pw_addressed p then (ws, [])
          else if \<not> is_not_connected err then pw_settle r err ws
          else pw_dispatch h r (om_set r (p\<lparr>pw_started := None, pw_dispatched := False\<rparr>) ws))"

text \<open>The loops over \<open>[...this.#writes.values()]\<close>: one operation per entry of the snapshot.\<close>

fun pw_for_each ::
  "(request_id \<Rightarrow> pending_writes \<Rightarrow> pending_writes \<times> pw_effect list) \<Rightarrow> request_id list \<Rightarrow>
     pending_writes \<Rightarrow> pending_writes \<times> pw_effect list" where
  "pw_for_each f [] ws = (ws, [])"
| "pw_for_each f (r # rs) ws =
     (case f r ws of (ws', es) \<Rightarrow> (case pw_for_each f rs ws' of (ws'', es') \<Rightarrow> (ws'', es @ es')))"

definition pw_dispatch_waiting ::
  "host_view \<Rightarrow> pending_writes \<Rightarrow> pending_writes \<times> pw_effect list" where
  "pw_dispatch_waiting h ws = pw_for_each (pw_dispatch h) (om_keys ws) ws"

definition owner_lost_error :: "host_view \<Rightarrow> request_id \<Rightarrow> pending_write \<Rightarrow> sb_error" where
  "owner_lost_error h r p =
     mk_error OWNER_LOST_DURING_WRITE
       ''The tab that owned the port went away while this write was in progress''
       (no_options\<lparr>opt_config := Some (hv_config h),
          opt_context := [(''requestId'', CText r), (''byteLength'', CInt (int (length (pw_payload p))))],
          opt_timestamp := Some (hv_now h)\<rparr>)"

definition settle_if_started ::
  "host_view \<Rightarrow> term_id \<Rightarrow> request_id \<Rightarrow> pending_writes \<Rightarrow> pending_writes \<times> pw_effect list" where
  "settle_if_started h t r ws =
     (case om_get ws r of
        None \<Rightarrow> (ws, [])
      | Some p \<Rightarrow> if pw_started p = Some t then pw_settle r (Some (owner_lost_error h r p)) ws
                  else (ws, []))"

definition pw_handle_term_ended ::
  "host_view \<Rightarrow> term_id \<Rightarrow> pending_writes \<Rightarrow> pending_writes \<times> pw_effect list" where
  "pw_handle_term_ended h t ws =
     (case pw_for_each (settle_if_started h t) (om_keys ws) ws of
        (ws', es) \<Rightarrow> (case pw_dispatch_waiting h ws' of (ws'', es') \<Rightarrow> (ws'', es @ es')))"

definition resend_one ::
  "host_view \<Rightarrow> request_id \<Rightarrow> pending_writes \<Rightarrow> pending_writes \<times> pw_effect list" where
  "resend_one h r ws =
     (case om_get ws r of
        None \<Rightarrow> (ws, [])
      | Some p \<Rightarrow>
          if pw_started p \<noteq> None then (ws, [])
          else if (case pw_addressed p of
                     None \<Rightarrow> True
                   | Some a \<Rightarrow> current_term h = Some a \<or> is_term_ended h a)
          then pw_dispatch h r (om_set r (p\<lparr>pw_dispatched := False\<rparr>) ws)
          else (ws, []))"

definition pw_resend_unstarted ::
  "host_view \<Rightarrow> pending_writes \<Rightarrow> pending_writes \<times> pw_effect list" where
  "pw_resend_unstarted h ws = pw_for_each (resend_one h) (om_keys ws) ws"

definition pw_fail_all :: "sb_error \<Rightarrow> pending_writes \<Rightarrow> pending_writes \<times> pw_effect list" where
  "pw_fail_all err ws = pw_for_each (\<lambda>r. pw_settle r (Some err)) (om_keys ws) ws"


section \<open>Every operation works entry by entry\<close>

text \<open>
  Each operation looks at one entry and either updates it, drops it, or leaves it. \<open>on_entry\<close> is
  that shape; the loops then act on every entry of the map independently of the others, which is
  what all proofs below rest on.
\<close>

definition on_entry ::
  "(request_id \<Rightarrow> pending_write \<Rightarrow> pending_write option \<times> pw_effect list) \<Rightarrow> request_id \<Rightarrow>
     pending_writes \<Rightarrow> pending_writes \<times> pw_effect list" where
  "on_entry g r ws =
     (case om_get ws r of
        None \<Rightarrow> (ws, [])
      | Some p \<Rightarrow> (case g r p of (None, es) \<Rightarrow> (om_del r ws, es) | (Some p', es) \<Rightarrow> (om_set r p' ws, es)))"

lemma om_set_same: "om_get ws r = Some p \<Longrightarrow> om_set r p ws = ws"
  by (induction r p ws rule: om_set.induct) (auto split: if_splits)

lemma on_entry_get:
  "om_get (fst (on_entry g r ws)) =
     (om_get ws)(r := Option.bind (om_get ws r) (\<lambda>p. fst (g r p)))"
  by (auto simp: on_entry_def fun_eq_iff split: option.split prod.split)

lemma on_entry_effects:
  "snd (on_entry g r ws) = (case om_get ws r of None \<Rightarrow> [] | Some p \<Rightarrow> snd (g r p))"
  by (auto simp: on_entry_def split: option.split prod.split)

lemma for_each_Cons:
  "fst (pw_for_each f (a # rs) ws) = fst (pw_for_each f rs (fst (f a ws)))"
  "snd (pw_for_each f (a # rs) ws) = snd (f a ws) @ snd (pw_for_each f rs (fst (f a ws)))"
  by (simp_all split: prod.split)

lemma for_each_get:
  "distinct rs \<Longrightarrow>
     om_get (fst (pw_for_each (on_entry g) rs ws)) r =
       (if r \<in> set rs then Option.bind (om_get ws r) (\<lambda>p. fst (g r p)) else om_get ws r)"
proof (induction rs arbitrary: ws)
  case (Cons a rs)
  then show ?case by (simp add: for_each_Cons on_entry_get del: pw_for_each.simps)
qed simp

text \<open>The effects that concern one request.\<close>

fun effect_request :: "pw_effect \<Rightarrow> request_id" where
  "effect_request (Dispatched r b t) = r"
| "effect_request (Settled r err) = r"

definition effects_of :: "request_id \<Rightarrow> pw_effect list \<Rightarrow> pw_effect list" where
  "effects_of r es = filter (\<lambda>e. effect_request e = r) es"

lemma effects_of_simps [simp]:
  "effects_of r [] = []"
  "effects_of r (e # es) = (if effect_request e = r then e # effects_of r es else effects_of r es)"
  "effects_of r (es @ es') = effects_of r es @ effects_of r es'"
  by (simp_all add: effects_of_def)

text \<open>A function on entries that reports on its own request only.\<close>

definition own_effects :: "(request_id \<Rightarrow> pending_write \<Rightarrow> pending_write option \<times> pw_effect list) \<Rightarrow> bool" where
  "own_effects g \<longleftrightarrow> (\<forall>r p e. e \<in> set (snd (g r p)) \<longrightarrow> effect_request e = r)"

lemma own_effects_of:
  "own_effects g \<Longrightarrow> effects_of r (snd (g r' p)) = (if r' = r then snd (g r p) else [])"
  by (auto simp: own_effects_def effects_of_def filter_empty_conv filter_id_conv)

lemma on_entry_effects_of:
  "own_effects g \<Longrightarrow>
     effects_of r (snd (on_entry g r' ws)) =
       (if r' = r then (case om_get ws r of None \<Rightarrow> [] | Some p \<Rightarrow> snd (g r p)) else [])"
  by (simp add: on_entry_effects own_effects_of split: option.split)

lemma for_each_effects:
  "own_effects g \<Longrightarrow> distinct rs \<Longrightarrow>
     effects_of r (snd (pw_for_each (on_entry g) rs ws)) =
       (if r \<in> set rs then (case om_get ws r of None \<Rightarrow> [] | Some p \<Rightarrow> snd (g r p)) else [])"
proof (induction rs arbitrary: ws)
  case (Cons a rs)
  then show ?case
    by (cases "a = r") (simp_all add: for_each_Cons on_entry_effects_of on_entry_get del: pw_for_each.simps)
qed simp

text \<open>Over the whole map.\<close>

lemma for_all_get:
  "om_inv ws \<Longrightarrow> om_get (fst (pw_for_each (on_entry g) (om_keys ws) ws)) r =
     Option.bind (om_get ws r) (\<lambda>p. fst (g r p))"
  by (cases "om_get ws r") (simp_all add: for_each_get om_inv_def om_get_Some_key)

lemma for_all_effects:
  "own_effects g \<Longrightarrow> om_inv ws \<Longrightarrow>
     effects_of r (snd (pw_for_each (on_entry g) (om_keys ws) ws)) =
       (case om_get ws r of None \<Rightarrow> [] | Some p \<Rightarrow> snd (g r p))"
  by (cases "om_get ws r") (simp_all add: for_each_effects om_inv_def om_get_Some_key)

text \<open>The operations in that shape.\<close>

definition dispatch_e :: "host_view \<Rightarrow> request_id \<Rightarrow> pending_write \<Rightarrow> pending_write option \<times> pw_effect list" where
  "dispatch_e h r p = (case dispatch_entry h r p of (p', es) \<Rightarrow> (Some p', es))"

definition settle_e :: "sb_error option \<Rightarrow> request_id \<Rightarrow> pending_write \<Rightarrow> pending_write option \<times> pw_effect list" where
  "settle_e err r p = (None, [Settled r err])"

definition lost_e :: "host_view \<Rightarrow> term_id \<Rightarrow> request_id \<Rightarrow> pending_write \<Rightarrow> pending_write option \<times> pw_effect list" where
  "lost_e h t r p = (if pw_started p = Some t then settle_e (Some (owner_lost_error h r p)) r p else (Some p, []))"

definition resendable :: "host_view \<Rightarrow> pending_write \<Rightarrow> bool" where
  "resendable h p \<longleftrightarrow> pw_started p = None \<and>
     (case pw_addressed p of None \<Rightarrow> True | Some a \<Rightarrow> current_term h = Some a \<or> is_term_ended h a)"

definition resend_e :: "host_view \<Rightarrow> request_id \<Rightarrow> pending_write \<Rightarrow> pending_write option \<times> pw_effect list" where
  "resend_e h r p = (if resendable h p then dispatch_e h r (p\<lparr>pw_dispatched := False\<rparr>) else (Some p, []))"

lemma pw_dispatch_on_entry: "pw_dispatch h = on_entry (dispatch_e h)"
  by (auto simp: pw_dispatch_def on_entry_def dispatch_e_def fun_eq_iff split: option.split prod.split)

lemma pw_settle_on_entry: "(\<lambda>r. pw_settle r err) = on_entry (settle_e err)"
  by (auto simp: pw_settle_def on_entry_def settle_e_def fun_eq_iff split: option.split)

lemma pw_settle_on_entry': "pw_settle r err = on_entry (settle_e err) r"
  by (metis pw_settle_on_entry)

lemma settle_if_started_on_entry: "settle_if_started h t = on_entry (lost_e h t)"
  by (auto simp: settle_if_started_def on_entry_def lost_e_def settle_e_def pw_settle_def om_set_same
      fun_eq_iff split: option.split)

lemma om_set_set: "om_set r p' (om_set r p ws) = om_set r p' ws"
  by (induction r p ws rule: om_set.induct) auto

lemma resend_one_on_entry: "resend_one h = on_entry (resend_e h)"
proof (intro ext)
  fix r ws
  show "resend_one h r ws = on_entry (resend_e h) r ws"
  proof (cases "om_get ws r")
    case None
    then show ?thesis by (simp add: resend_one_def on_entry_def)
  next
    case (Some p)
    have "resend_one h r ws =
        (if resendable h p then pw_dispatch h r (om_set r (p\<lparr>pw_dispatched := False\<rparr>) ws) else (ws, []))"
      using Some by (simp add: resend_one_def resendable_def)
    moreover have "on_entry (resend_e h) r ws =
        (if resendable h p then pw_dispatch h r (om_set r (p\<lparr>pw_dispatched := False\<rparr>) ws) else (ws, []))"
      using Some
      by (simp add: on_entry_def resend_e_def dispatch_e_def pw_dispatch_def om_set_same om_set_set
          split: prod.split)
    ultimately show ?thesis by simp
  qed
qed

lemmas entry_forms = pw_dispatch_on_entry pw_settle_on_entry settle_if_started_on_entry
  resend_one_on_entry

lemma on_entry_inv: "om_inv ws \<Longrightarrow> om_inv (fst (on_entry g r ws))"
  by (auto simp: on_entry_def split: option.split prod.split)

lemma for_each_inv: "om_inv ws \<Longrightarrow> om_inv (fst (pw_for_each (on_entry g) rs ws))"
proof (induction rs arbitrary: ws)
  case (Cons a rs)
  then show ?case by (simp add: for_each_Cons on_entry_inv del: pw_for_each.simps)
qed simp

section \<open>Events\<close>

text \<open>Everything that can happen to the writes of one context.\<close>

datatype pw_event =
    Add request_id bytes
  | Approve request_id term_id
  | Result request_id "term_id option" "sb_error option"
  | Term_Ended term_id
  | Resend_Unstarted
  | Dispatch_Waiting
  | Deadline_Fires request_id
  | Settle request_id "sb_error option"
  | Fail_All sb_error

fun pw_step :: "host_view \<Rightarrow> pw_event \<Rightarrow> pending_writes \<Rightarrow> pending_writes \<times> pw_effect list" where
  "pw_step h (Add r b) ws = pw_add h r b ws"
| "pw_step h (Approve r t) ws = (fst (pw_approve r t ws), [])"
| "pw_step h (Result r t err) ws = pw_handle_result h r t err ws"
| "pw_step h (Term_Ended t) ws = pw_handle_term_ended h t ws"
| "pw_step h Resend_Unstarted ws = pw_resend_unstarted h ws"
| "pw_step h Dispatch_Waiting ws = pw_dispatch_waiting h ws"
| "pw_step h (Deadline_Fires r) ws = pw_deadline_fires h r ws"
| "pw_step h (Settle r err) ws = pw_settle r err ws"
| "pw_step h (Fail_All err) ws = pw_fail_all err ws"

text \<open>
  What an event does to one entry. \<open>entry_step\<close> is the reference: the event seen by the write
  under \<open>r\<close> alone. The lemma \<open>pw_step_get\<close> says that the operations on the whole map are exactly
  this, entry by entry.
\<close>

definition fresh_write :: "host_view \<Rightarrow> bytes \<Rightarrow> pending_write" where
  "fresh_write h b = \<lparr>pw_payload = b, pw_started = None, pw_addressed = None, pw_dispatched = False,
     pw_deadline = schedule_deadline (hv_monotonic h) (hv_write_timeout h)\<rparr>"

fun entry_step ::
  "host_view \<Rightarrow> pw_event \<Rightarrow> request_id \<Rightarrow> pending_write option \<Rightarrow> pending_write option \<times> pw_effect list" where
  "entry_step h (Add r' b) r p = (if r' = r then dispatch_e h r (fresh_write h b) else (p, []))"
| "entry_step h (Dispatch_Waiting) r p = (case p of None \<Rightarrow> (None, []) | Some p \<Rightarrow> dispatch_e h r p)"
| "entry_step h Resend_Unstarted r p = (case p of None \<Rightarrow> (None, []) | Some p \<Rightarrow> resend_e h r p)"
| "entry_step h (Approve r' t) r p =
     (case p of None \<Rightarrow> (None, [])
      | Some q \<Rightarrow> if r' = r \<and> pw_addressed q = Some t
                  then (Some (q\<lparr>pw_started := (case pw_started q of None \<Rightarrow> Some t | Some s \<Rightarrow> Some s)\<rparr>), [])
                  else (p, []))"
| "entry_step h (Result r' t err) r p =
     (case p of None \<Rightarrow> (None, [])
      | Some q \<Rightarrow>
          if r' \<noteq> r \<or> t = None \<or> t \<noteq> pw_addressed q then (p, [])
          else if \<not> is_not_connected err then (None, [Settled r err])
          else dispatch_e h r (q\<lparr>pw_started := None, pw_dispatched := False\<rparr>))"
| "entry_step h (Term_Ended t) r p =
     (case p of None \<Rightarrow> (None, [])
      | Some q \<Rightarrow> if pw_started q = Some t then (None, [Settled r (Some (owner_lost_error h r q))])
                  else dispatch_e h r q)"
| "entry_step h (Deadline_Fires r') r p =
     (case p of None \<Rightarrow> (None, [])
      | Some q \<Rightarrow>
          if r' \<noteq> r then (p, [])
          else if snd (deadline_fire (hv_monotonic h) (pw_deadline q))
          then (None, [Settled r (Some (write_timeout_error h r q))])
          else (Some (q\<lparr>pw_deadline := fst (deadline_fire (hv_monotonic h) (pw_deadline q))\<rparr>), []))"
| "entry_step h (Settle r' err) r p =
     (if r' \<noteq> r \<or> p = None then (p, []) else (None, [Settled r err]))"
| "entry_step h (Fail_All err) r p = (if p = None then (None, []) else (None, [Settled r (Some err)]))"

lemma own_effects_forms [simp]:
  "own_effects (dispatch_e h)" "own_effects (settle_e err)" "own_effects (lost_e h t)"
  "own_effects (resend_e h)"
  by (auto simp: own_effects_def dispatch_e_def settle_e_def lost_e_def resend_e_def dispatch_entry_def
      split: option.splits if_splits prod.splits)

text \<open>The three loops and the two-loop \<open>handleTermEnded\<close>, in the form the proofs use.\<close>

lemma term_ended_parts:
  "fst (pw_handle_term_ended h t ws) =
     fst (pw_dispatch_waiting h (fst (pw_for_each (settle_if_started h t) (om_keys ws) ws)))"
  "snd (pw_handle_term_ended h t ws) =
     snd (pw_for_each (settle_if_started h t) (om_keys ws) ws) @
     snd (pw_dispatch_waiting h (fst (pw_for_each (settle_if_started h t) (om_keys ws) ws)))"
  by (simp_all add: pw_handle_term_ended_def split: prod.split)

lemmas loop_forms = pw_dispatch_waiting_def pw_resend_unstarted_def pw_fail_all_def term_ended_parts
  entry_forms

lemma pw_step_inv: "om_inv ws \<Longrightarrow> om_inv (fst (pw_step h ev ws))"
  by (cases ev)
     (auto simp: pw_add_def pw_approve_def pw_handle_result_def pw_deadline_fires_def loop_forms
        pw_settle_on_entry' on_entry_inv for_each_inv split: option.split prod.split)

text \<open>
  The operations on the map are the reference semantics, for every entry: its value after the event,
  and the effects on it, in their order.
\<close>

lemma dispatch_of_set:
  "om_get ws r = Some p0 \<Longrightarrow> pw_dispatch h r (om_set r p ws) =
     (om_set r (the (fst (dispatch_e h r p))) ws, snd (dispatch_e h r p))"
  by (simp add: pw_dispatch_def dispatch_e_def om_set_set split: prod.split)

lemma dispatch_e_Some: "\<exists>p'. fst (dispatch_e h r p) = Some p'"
  by (simp add: dispatch_e_def split: prod.split)

lemma handle_result_cases:
  "om_get ws r = Some p \<Longrightarrow> pw_handle_result h r t err ws =
     (if t = None \<or> t \<noteq> pw_addressed p then (ws, [])
      else if \<not> is_not_connected err then (om_del r ws, [Settled r err])
      else (om_set r (the (fst (dispatch_e h r (p\<lparr>pw_started := None, pw_dispatched := False\<rparr>)))) ws,
            snd (dispatch_e h r (p\<lparr>pw_started := None, pw_dispatched := False\<rparr>))))"
  by (auto simp: pw_handle_result_def dispatch_of_set pw_settle_def)

lemma absent_entry:
  "om_get ws r = None \<Longrightarrow> pw_handle_result h r t err ws = (ws, [])"
  "om_get ws r = None \<Longrightarrow> pw_deadline_fires h r ws = (ws, [])"
  by (simp_all add: pw_handle_result_def pw_deadline_fires_def)
lemma deadline_fires_cases:
  "om_get ws r = Some p \<Longrightarrow> pw_deadline_fires h r ws =
     (if snd (deadline_fire (hv_monotonic h) (pw_deadline p))
      then (om_del r ws, [Settled r (Some (write_timeout_error h r p))])
      else (om_set r (p\<lparr>pw_deadline := fst (deadline_fire (hv_monotonic h) (pw_deadline p))\<rparr>) ws, []))"
  by (simp add: pw_deadline_fires_def pw_settle_def split: prod.split)

lemma effects_of_own: "own_effects g \<Longrightarrow> effects_of r' (snd (g r p)) = (if r' = r then snd (g r p) else [])"
  by (simp add: own_effects_of)

lemma single_entry_get:
  "om_get (fst (on_entry g r' ws)) r =
     (if r' = r then Option.bind (om_get ws r) (\<lambda>p. fst (g r p)) else om_get ws r)"
  by (simp add: on_entry_get)

lemma pw_step_get:
  assumes "om_inv ws"
  shows "om_get (fst (pw_step h ev ws)) r = fst (entry_step h ev r (om_get ws r))"
proof (cases ev)
  case (Term_Ended t)
  then show ?thesis using assms
    by (cases "om_get ws r")
       (simp_all add: loop_forms for_all_get for_each_inv lost_e_def settle_e_def)
next
  case (Deadline_Fires r')
  then show ?thesis
    by (cases "om_get ws r'"; cases "r' = r")
       (simp_all add: absent_entry deadline_fires_cases split: option.split)
next
  case (Result r' t err)
  show ?thesis
  proof (cases "om_get ws r'")
    case None
    then show ?thesis using Result by (auto simp: absent_entry split: option.split)
  next
    case (Some p)
    obtain p' where "fst (dispatch_e h r' (p\<lparr>pw_started := None, pw_dispatched := False\<rparr>)) = Some p'"
      using dispatch_e_Some by blast
    then show ?thesis using Some Result
      by (cases "r' = r") (auto simp: handle_result_cases split: option.split)
  qed
next
  case (Add r' b)
  then show ?thesis
    by (simp add: pw_add_def pw_dispatch_on_entry single_entry_get fresh_write_def)
next
  case (Approve r' t)
  then show ?thesis by (auto simp: pw_approve_def split: option.split)
next
  case (Settle r' err)
  then show ?thesis
    by (cases "om_get ws r") (auto simp: pw_settle_on_entry' single_entry_get settle_e_def)
qed (use assms in \<open>cases "om_get ws r"; simp add: loop_forms for_all_get settle_e_def\<close>)+

lemma pw_step_effects:
  assumes "om_inv ws"
  shows "effects_of r (snd (pw_step h ev ws)) = snd (entry_step h ev r (om_get ws r))"
proof (cases ev)
  case (Term_Ended t)
  then show ?thesis using assms
    by (cases "om_get ws r")
       (simp_all add: loop_forms for_all_get for_all_effects for_each_inv lost_e_def settle_e_def)
next
  case (Deadline_Fires r')
  then show ?thesis
    by (cases "om_get ws r'"; cases "r' = r")
       (simp_all add: absent_entry deadline_fires_cases split: option.split)
next
  case (Result r' t err)
  then show ?thesis
    by (cases "om_get ws r'"; cases "r' = r")
       (auto simp: absent_entry handle_result_cases effects_of_own split: option.split)
next
  case (Add r' b)
  then show ?thesis
    by (simp add: pw_add_def pw_dispatch_on_entry on_entry_effects_of fresh_write_def)
next
  case (Settle r' err)
  then show ?thesis
    by (cases "om_get ws r") (auto simp: pw_settle_on_entry' on_entry_effects_of settle_e_def)
qed (use assms in \<open>cases "om_get ws r"; simp add: loop_forms for_all_effects settle_e_def\<close>)+

section \<open>Runs\<close>

text \<open>A sequence of events, each with what the host answers then; the effects of all of them in order.\<close>

fun pw_run :: "(host_view \<times> pw_event) list \<Rightarrow> pending_writes \<Rightarrow> pending_writes \<times> pw_effect list" where
  "pw_run [] ws = (ws, [])"
| "pw_run ((h, ev) # evs) ws =
     (case pw_step h ev ws of (ws', es) \<Rightarrow> (case pw_run evs ws' of (ws'', es') \<Rightarrow> (ws'', es @ es')))"

fun entry_run ::
  "(host_view \<times> pw_event) list \<Rightarrow> request_id \<Rightarrow> pending_write option \<Rightarrow> pending_write option \<times> pw_effect list" where
  "entry_run [] r p = (p, [])"
| "entry_run ((h, ev) # evs) r p =
     (fst (entry_run evs r (fst (entry_step h ev r p))),
      snd (entry_step h ev r p) @ snd (entry_run evs r (fst (entry_step h ev r p))))"

lemma pw_run_Cons:
  "fst (pw_run ((h, ev) # evs) ws) = fst (pw_run evs (fst (pw_step h ev ws)))"
  "snd (pw_run ((h, ev) # evs) ws) = snd (pw_step h ev ws) @ snd (pw_run evs (fst (pw_step h ev ws)))"
  by (simp_all split: prod.split)

lemma pw_run_entry:
  "om_inv ws \<Longrightarrow>
     om_inv (fst (pw_run evs ws)) \<and>
     om_get (fst (pw_run evs ws)) r = fst (entry_run evs r (om_get ws r)) \<and>
     effects_of r (snd (pw_run evs ws)) = snd (entry_run evs r (om_get ws r))"
proof (induction evs arbitrary: ws)
  case (Cons a evs)
  obtain h ev where a: "a = (h, ev)" by fastforce
  have "om_inv (fst (pw_step h ev ws))" using Cons.prems by (rule pw_step_inv)
  from Cons.IH [OF this] Cons.prems show ?case
    by (simp add: a pw_run_Cons pw_step_get pw_step_effects del: pw_run.simps)
qed simp

text \<open>The invariant of an entry: a begun write began under the term it was handed to.\<close>

definition pw_entry_ok :: "pending_write \<Rightarrow> bool" where
  "pw_entry_ok p \<longleftrightarrow>
     (pw_dispatched p \<longrightarrow> pw_addressed p \<noteq> None) \<and>
     (pw_started p \<noteq> None \<longrightarrow> pw_started p = pw_addressed p) \<and>
     (pw_deadline p \<noteq> Idle_Deadline)"

lemma dispatch_e_cases:
  obtains (skip) "dispatch_target h p = None" "dispatch_e h r p = (Some p, [])"
  | (go) t where "dispatch_target h p = Some t"
      "dispatch_e h r p = (Some (p\<lparr>pw_dispatched := True, pw_addressed := Some t\<rparr>),
                           [Dispatched r (pw_payload p) t])"
  by (cases "dispatch_target h p") (auto simp: dispatch_e_def dispatch_entry_def)

lemma dispatch_target_Some:
  "dispatch_target h p = Some t \<Longrightarrow>
     pw_started p = None \<and> can_dispatch h \<and> current_term h = Some t \<and>
     (\<forall>a. pw_addressed p = Some a \<longrightarrow> a = t \<or> is_term_ended h a)"
  by (auto simp: dispatch_target_def split: if_splits option.splits)

lemma dispatch_e_ok:
  assumes "pw_entry_ok p" and "fst (dispatch_e h r p) = Some p'"
  shows "pw_entry_ok p'"
  using assms by (cases rule: dispatch_e_cases [of h p r]) (auto simp: pw_entry_ok_def dest: dispatch_target_Some)

lemma deadline_fire_Idle: "\<not> snd (deadline_fire now d) \<Longrightarrow> d \<noteq> Idle_Deadline \<Longrightarrow> fst (deadline_fire now d) \<noteq> Idle_Deadline"
  by (cases d) (auto split: if_splits)

lemma entry_ok_updates:
  "pw_entry_ok q \<Longrightarrow> pw_started q = None \<Longrightarrow> pw_entry_ok (q\<lparr>pw_dispatched := False\<rparr>)"
  "pw_entry_ok q \<Longrightarrow> pw_entry_ok (q\<lparr>pw_started := None, pw_dispatched := False\<rparr>)"
  "pw_entry_ok (fresh_write h b)"
  "pw_entry_ok q \<Longrightarrow> d \<noteq> Idle_Deadline \<Longrightarrow> pw_entry_ok (q\<lparr>pw_deadline := d\<rparr>)"
  "pw_entry_ok q \<Longrightarrow> pw_addressed q = Some t \<Longrightarrow>
     pw_entry_ok (q\<lparr>pw_started := (case pw_started q of None \<Rightarrow> Some t | Some s \<Rightarrow> Some s)\<rparr>)"
  by (auto simp: pw_entry_ok_def fresh_write_def schedule_deadline_def split: option.split)

lemma entry_step_ok:
  assumes "\<And>q. p = Some q \<Longrightarrow> pw_entry_ok q" and "fst (entry_step h ev r p) = Some p'"
  shows "pw_entry_ok p'"
proof (cases p)
  case None
  then show ?thesis using assms(2)
    by (cases ev) (auto split: if_splits intro: dispatch_e_ok [OF entry_ok_updates(3)])
next
  case (Some q)
  then have q: "pw_entry_ok q" using assms(1) by simp
  then have d: "pw_deadline q \<noteq> Idle_Deadline" by (simp add: pw_entry_ok_def)
  note step = assms(2) [unfolded Some]
  show ?thesis
  proof (cases ev)
    case (Add r' b)
    then show ?thesis using step q by (auto split: if_splits intro: dispatch_e_ok [OF entry_ok_updates(3)])
  next
    case (Approve r' t)
    then show ?thesis using step q by (auto split: if_splits intro: entry_ok_updates(5))
  next
    case (Result r' t err)
    then show ?thesis using step q by (auto split: if_splits intro: dispatch_e_ok [OF entry_ok_updates(2)])
  next
    case Resend_Unstarted
    then show ?thesis using step q
      by (auto simp: resend_e_def resendable_def split: if_splits intro: dispatch_e_ok [OF entry_ok_updates(1)])
  next
    case (Deadline_Fires r')
    then show ?thesis using step q deadline_fire_Idle [OF _ d]
      by (fastforce split: if_splits intro: entry_ok_updates(4))
  qed (use step q in \<open>auto split: if_splits intro: dispatch_e_ok [OF q]\<close>)
qed

lemma entry_run_ok:
  "(\<And>q. p = Some q \<Longrightarrow> pw_entry_ok q) \<Longrightarrow> fst (entry_run evs r p) = Some p' \<Longrightarrow> pw_entry_ok p'"
proof (induction evs arbitrary: p)
  case (Cons a evs)
  obtain h ev where a: "a = (h, ev)" by fastforce
  have "pw_entry_ok q" if "fst (entry_step h ev r p) = Some q" for q
    using Cons.prems(1) that by (rule entry_step_ok)
  from Cons.IH [OF this] Cons.prems(2) show ?case by (simp add: a)
qed simp

lemma entry_run_append:
  "entry_run (xs @ ys) r p =
     (fst (entry_run ys r (fst (entry_run xs r p))),
      snd (entry_run xs r p) @ snd (entry_run ys r (fst (entry_run xs r p))))"
  by (induction xs r p rule: entry_run.induct) auto

text \<open>How often a write was issued, and how often it was settled.\<close>

definition is_add :: "request_id \<Rightarrow> host_view \<times> pw_event \<Rightarrow> bool" where
  "is_add r hev = (case snd hev of Add r' b \<Rightarrow> r' = r | _ \<Rightarrow> False)"

definition is_settled :: "request_id \<Rightarrow> pw_effect \<Rightarrow> bool" where
  "is_settled r e = (case e of Settled r' err \<Rightarrow> r' = r | Dispatched r' b t \<Rightarrow> False)"

definition settlements :: "request_id \<Rightarrow> pw_effect list \<Rightarrow> nat" where
  "settlements r es = length (filter (is_settled r) es)"

lemma settlements_simps [simp]:
  "settlements r [] = 0"
  "settlements r (es @ es') = settlements r es + settlements r es'"
  "settlements r (Dispatched r' b t # es) = settlements r es"
  "settlements r (Settled r' err # es) = (if r' = r then 1 else 0) + settlements r es"
  by (simp_all add: settlements_def is_settled_def)

lemma settlements_effects_of: "settlements r (effects_of r es) = settlements r es"
proof (induction es)
  case (Cons e es)
  then show ?case by (cases e) auto
qed simp

lemma dispatch_e_settlements: "settlements r' (snd (dispatch_e h r p)) = 0"
  by (cases rule: dispatch_e_cases [of h p r]) auto

lemma dispatch_e_not_None: "fst (dispatch_e h r p) \<noteq> None"
  by (cases rule: dispatch_e_cases [of h p r]) auto

lemma entry_step_balance:
  assumes "\<not> (is_add r (h, ev) \<and> p \<noteq> None)"
  shows "settlements r (snd (entry_step h ev r p)) + of_bool (fst (entry_step h ev r p) \<noteq> None) =
     of_bool (p \<noteq> None) + of_bool (is_add r (h, ev))"
proof (cases p)
  case None
  then show ?thesis
    by (cases ev) (auto simp: is_add_def dispatch_e_settlements dispatch_e_not_None)
next
  case (Some q)
  then show ?thesis using assms
    by (cases ev) (auto simp: is_add_def dispatch_e_settlements dispatch_e_not_None resend_e_def)
qed

definition adds :: "request_id \<Rightarrow> (host_view \<times> pw_event) list \<Rightarrow> nat" where
  "adds r evs = length (filter (is_add r) evs)"

lemma entry_run_balance:
  "adds r evs + of_bool (p \<noteq> None) \<le> 1 \<Longrightarrow>
     settlements r (snd (entry_run evs r p)) + of_bool (fst (entry_run evs r p) \<noteq> None) =
     of_bool (p \<noteq> None) + adds r evs"
proof (induction evs arbitrary: p)
  case (Cons a evs)
  obtain h ev where a: "a = (h, ev)" by fastforce
  have n: "adds r (a # evs) = of_bool (is_add r (h, ev)) + adds r evs"
    by (simp add: adds_def a)
  have "\<not> (is_add r (h, ev) \<and> p \<noteq> None)"
    using Cons.prems n by (auto split: if_splits)
  note step = entry_step_balance [OF this]
  have "adds r evs + of_bool (fst (entry_step h ev r p) \<noteq> None) \<le> 1"
    using Cons.prems n step by linarith
  from Cons.IH [OF this] step n show ?case by (simp add: a)
qed (simp add: adds_def)

text \<open>A result that takes a write back: its bytes were refused for want of a connection.\<close>

definition releases :: "request_id \<Rightarrow> host_view \<times> pw_event \<Rightarrow> bool" where
  "releases r hev = (case snd hev of Result r' t err \<Rightarrow> r' = r \<and> is_not_connected err | _ \<Rightarrow> False)"

lemma started_no_dispatch: "pw_started p \<noteq> None \<Longrightarrow> dispatch_e h r p = (Some p, [])"
  by (auto simp: dispatch_e_def dispatch_entry_def dispatch_target_def)

lemma entry_step_begun:
  assumes "pw_started q \<noteq> None" and "\<not> releases r (h, ev)" and "\<not> is_add r (h, ev)"
  shows "(\<forall>e \<in> set (snd (entry_step h ev r (Some q))). \<exists>err. e = Settled r err) \<and>
     (\<forall>q'. fst (entry_step h ev r (Some q)) = Some q' \<longrightarrow> pw_started q' = pw_started q)"
  using assms
  by (cases ev)
     (auto simp: releases_def is_add_def started_no_dispatch resend_e_def resendable_def split: option.splits)

lemma entry_step_gone:
  "\<not> is_add r (h, ev) \<Longrightarrow> entry_step h ev r None = (None, [])"
  by (cases ev) (auto simp: is_add_def)

lemma entry_run_gone:
  "\<forall>hev \<in> set evs. \<not> is_add r hev \<Longrightarrow> entry_run evs r None = (None, [])"
proof (induction evs)
  case (Cons a evs)
  then show ?case by (cases a) (simp add: entry_step_gone)
qed simp

lemma entry_run_begun:
  assumes "pw_started q \<noteq> None" and "\<forall>hev \<in> set evs. \<not> releases r hev \<and> \<not> is_add r hev"
  shows "\<forall>e \<in> set (snd (entry_run evs r (Some q))). \<exists>err. e = Settled r err"
  using assms
proof (induction evs arbitrary: q)
  case (Cons a evs)
  obtain h ev where a: "a = (h, ev)" by fastforce
  have "\<not> releases r (h, ev)" "\<not> is_add r (h, ev)" using Cons.prems(2) a by auto
  note step = entry_step_begun [OF Cons.prems(1) this]
  show ?case
  proof (cases "fst (entry_step h ev r (Some q))")
    case None
    then show ?thesis using step Cons.prems(2) by (simp add: a entry_run_gone)
  next
    case (Some q')
    then have "pw_started q' \<noteq> None" using step Cons.prems(1) by metis
    from Cons.IH [OF this] Cons.prems(2) Some step show ?thesis by (auto simp: a)
  qed
qed simp

lemma dispatched_in_effects:
  "Dispatched r b t \<in> set es \<Longrightarrow> Dispatched r b t \<in> set (effects_of r es)"
  by (simp add: effects_of_def)

lemma entry_step_dispatched:
  assumes "Dispatched r b t \<in> set (snd (entry_step h ev r p))"
  shows "can_dispatch h \<and> current_term h = Some t \<and>
     (\<forall>q. p = Some q \<and> \<not> is_add r (h, ev) \<longrightarrow>
        b = pw_payload q \<and> (pw_started q = None \<or> releases r (h, ev)) \<and>
        (\<forall>a. pw_addressed q = Some a \<longrightarrow> a = t \<or> is_term_ended h a))"
proof -
  have d: "can_dispatch h \<and> current_term h = Some t \<and> b = pw_payload q \<and> pw_started q = None \<and>
      (\<forall>a. pw_addressed q = Some a \<longrightarrow> a = t \<or> is_term_ended h a)"
    if "Dispatched r b t \<in> set (snd (dispatch_e h r q))" for q
    using that by (cases rule: dispatch_e_cases [of h q r]) (auto dest: dispatch_target_Some)
  show ?thesis
    using assms
    by (cases ev)
       (auto simp: is_add_def releases_def resend_e_def resendable_def dest!: d split: if_splits option.splits)
qed

section \<open>What the component promises\<close>

text \<open>
  C25. The operations on the whole map are their reference semantics on single entries: on a
  well-formed map every event keeps the map well-formed, leaves under every request exactly what
  \<open>entry_step\<close> makes of it - loops over a snapshot of the entries that add, update and drop entries
  as they go included - and has exactly the effects \<open>entry_step\<close> lists on it, in that order.
\<close>

theorem pending_writes_entrywise:
  assumes "om_inv ws"
  shows "om_inv (fst (pw_step h ev ws)) \<and>
    om_get (fst (pw_step h ev ws)) = (\<lambda>r. fst (entry_step h ev r (om_get ws r))) \<and>
    (\<lambda>r. effects_of r (snd (pw_step h ev ws))) = (\<lambda>r. snd (entry_step h ev r (om_get ws r)))"
  using assms by (simp add: pw_step_inv pw_step_get pw_step_effects fun_eq_iff)

text \<open>
  C24. Every write settles exactly once: over any sequence of events that issues a request at most
  once, its promise is settled once if it was issued and is no longer kept, and not at all
  otherwise.
\<close>

theorem write_settles_once:
  assumes "adds r evs \<le> 1"
  shows "settlements r (snd (pw_run evs [])) =
    (if adds r evs = 1 \<and> om_get (fst (pw_run evs [])) r = None then 1 else 0)"
proof -
  have run: "settlements r (snd (pw_run evs [])) = settlements r (snd (entry_run evs r None))"
    "om_get (fst (pw_run evs [])) r = fst (entry_run evs r None)"
    using pw_run_entry [of "[]" evs r] by (simp_all flip: settlements_effects_of [of r "snd (pw_run evs [])"])
  have "settlements r (snd (entry_run evs r None)) + of_bool (fst (entry_run evs r None) \<noteq> None) = adds r evs"
    using entry_run_balance [of r evs None] assms by simp
  then show ?thesis using run assms by (cases "fst (entry_run evs r None) = None") auto
qed

text \<open>
  C23. A begun write is never sent again: once the issuer has said yes to a write, no sequence of
  events - the end of its term, a release, a reopening, a new owner, a deadline - dispatches it
  again; only a result that says its bytes were refused for want of a connection takes it back.
\<close>

theorem begun_write_not_resent:
  assumes "om_inv ws" and "om_get ws r = Some p" and "pw_started p \<noteq> None"
    and "\<forall>hev \<in> set evs. \<not> releases r hev \<and> \<not> is_add r hev"
  shows "Dispatched r b t \<notin> set (snd (pw_run evs ws))"
proof
  assume "Dispatched r b t \<in> set (snd (pw_run evs ws))"
  from dispatched_in_effects [OF this] have "Dispatched r b t \<in> set (snd (entry_run evs r (Some p)))"
    using pw_run_entry [OF assms(1), of evs r] assms(2) by simp
  then show False using entry_run_begun [OF assms(3,4)] by auto
qed

text \<open>
  A write is handed to one term at a time: whatever event sends it, the context can dispatch, the
  write goes with the bytes it was issued with to the current term, it has not begun, and the term
  it was addressed to before is that same term or has ended.
\<close>

theorem dispatched_to_one_term:
  assumes "om_inv ws" and "om_get ws r = Some p" and "\<not> is_add r (h, ev)"
    and "Dispatched r b t \<in> set (snd (pw_step h ev ws))"
  shows "can_dispatch h \<and> current_term h = Some t \<and> b = pw_payload p \<and>
    (pw_started p = None \<or> releases r (h, ev)) \<and>
    (pw_addressed p = None \<or> pw_addressed p = Some t \<or> is_term_ended h (the (pw_addressed p)))"
proof -
  have "Dispatched r b t \<in> set (snd (entry_step h ev r (Some p)))"
    using dispatched_in_effects [OF assms(4)] assms(1,2) by (simp add: pw_step_effects)
  from entry_step_dispatched [OF this] assms(3) show ?thesis by auto
qed

text \<open>
  In every state the component can reach, a write that has begun began under the term it is
  addressed to, a write marked as sent has an addressee, and every kept write has a deadline that
  is still due.
\<close>

theorem pending_write_invariant:
  "om_inv (fst (pw_run evs [])) \<and> list_all (\<lambda>(r, p). pw_entry_ok p) (fst (pw_run evs []))"
proof -
  have inv: "om_inv (fst (pw_run evs []))" using pw_run_entry [of "[]" evs] by simp
  have "pw_entry_ok p" if "(r, p) \<in> set (fst (pw_run evs []))" for r p
  proof -
    have "om_get (fst (pw_run evs [])) r = Some p" using that inv by (simp add: om_get_iff_in_set)
    then have "fst (entry_run evs r None) = Some p" using pw_run_entry [of "[]" evs r] by simp
    from entry_run_ok [OF _ this] show ?thesis by simp
  qed
  then show ?thesis using inv by (auto simp: list_all_iff)
qed

text \<open>
  The end of a term settles exactly the writes that began under it, each once with
  \<open>OWNER_LOST_DURING_WRITE\<close>, and keeps every other write unsettled with its begun state as it was.
\<close>

theorem term_end_settles_begun:
  assumes "om_inv ws" and "om_get ws r = Some p"
  shows "let (ws', es) = pw_handle_term_ended h t ws in
    if pw_started p = Some t
    then om_get ws' r = None \<and> effects_of r es = [Settled r (Some (owner_lost_error h r p))]
    else settlements r es = 0 \<and> map_option pw_started (om_get ws' r) = Some (pw_started p)"
proof -
  have e: "om_get (fst (pw_handle_term_ended h t ws)) r = fst (entry_step h (Term_Ended t) r (Some p))"
    "effects_of r (snd (pw_handle_term_ended h t ws)) = snd (entry_step h (Term_Ended t) r (Some p))"
    using pw_step_get [OF assms(1), of h "Term_Ended t" r] pw_step_effects [OF assms(1), of r h "Term_Ended t"] assms(2)
    by simp_all
  have "settlements r (snd (pw_handle_term_ended h t ws)) = 0 \<and>
      map_option pw_started (om_get (fst (pw_handle_term_ended h t ws)) r) = Some (pw_started p)"
    if "pw_started p \<noteq> Some t"
  proof -
    have "settlements r (snd (pw_handle_term_ended h t ws)) = settlements r (snd (dispatch_e h r p))"
      using settlements_effects_of [of r "snd (pw_handle_term_ended h t ws)"] e(2) that by simp
    moreover have "om_get (fst (pw_handle_term_ended h t ws)) r = fst (dispatch_e h r p)"
      using e(1) that by simp
    ultimately show ?thesis
      by (cases rule: dispatch_e_cases [of h p r]) simp_all
  qed
  then show ?thesis using e by (simp add: split_beta)
qed

text \<open>
  No write waits for ever: in a reachable state the second firing of its deadline at the latest
  settles it, with \<open>WRITE_TIMEOUT\<close>, and \<open>context.started\<close> of that error says whether the write had
  begun.
\<close>

theorem deadline_settles_write:
  assumes "om_get (fst (pw_run evs [])) r = Some p"
  shows "\<exists>ws1 es1 ws2 es2 e.
    pw_deadline_fires h r (fst (pw_run evs [])) = (ws1, es1) \<and>
    pw_deadline_fires h' r ws1 = (ws2, es2) \<and> om_get ws2 r = None \<and>
    es1 @ es2 = [Settled r (Some e)] \<and> err_code e = WRITE_TIMEOUT \<and>
    reported_started e = Some (pw_started p \<noteq> None)"
proof -
  let ?ws = "fst (pw_run evs [])"
  have ok: "pw_entry_ok p"
    using pw_run_entry [of "[]" evs r] entry_run_ok [of None evs r p] assms by simp
  have err: "err_code (write_timeout_error k r q) = WRITE_TIMEOUT \<and>
      reported_started (write_timeout_error k r q) = Some (pw_started q \<noteq> None)" for k q
    by (simp add: write_timeout_error_def reported_started_def)
  show ?thesis
  proof (cases "snd (deadline_fire (hv_monotonic h) (pw_deadline p))")
    case True
    then have "pw_deadline_fires h r ?ws = (om_del r ?ws, [Settled r (Some (write_timeout_error h r p))])"
      using assms by (simp add: deadline_fires_cases)
    moreover have "pw_deadline_fires h' r (om_del r ?ws) = (om_del r ?ws, [])"
      by (simp add: absent_entry)
    ultimately show ?thesis using err by simp
  next
    case False
    define q where "q = p\<lparr>pw_deadline := fst (deadline_fire (hv_monotonic h) (pw_deadline p))\<rparr>"
    have "snd (deadline_fire (hv_monotonic h') (pw_deadline q))"
      using False ok by (cases "pw_deadline p") (auto simp: q_def pw_entry_ok_def split: if_splits)
    then have "pw_deadline_fires h' r (om_set r q ?ws) =
        (om_del r (om_set r q ?ws), [Settled r (Some (write_timeout_error h' r q))])"
      by (simp add: deadline_fires_cases)
    moreover have "pw_deadline_fires h r ?ws = (om_set r q ?ws, [])"
      using False assms by (simp add: deadline_fires_cases q_def)
    moreover have "pw_started q = pw_started p" by (simp add: q_def)
    ultimately show ?thesis using err [of h' q] by simp
  qed
qed

section \<open>The properties on concrete writes\<close>

definition sample_view :: "term_id \<Rightarrow> host_view" where
  "sample_view t = \<lparr>can_dispatch = True, current_term = Some t, is_term_ended = (\<lambda>t'. t' = ''t0''),
     hv_config = ''scale'', hv_write_timeout = 5000, hv_now = 100, hv_monotonic = 0\<rparr>"

definition sample_events :: "(host_view \<times> pw_event) list" where
  "sample_events = [(sample_view ''t0'', Add ''a'' [1, 2]), (sample_view ''t0'', Add ''b'' [3]),
     (sample_view ''t0'', Approve ''a'' ''t0'')]"

definition sample_writes :: pending_writes where
  "sample_writes =
     [(''a'', \<lparr>pw_payload = [1, 2], pw_started = Some ''t0'', pw_addressed = Some ''t0'',
               pw_dispatched = True, pw_deadline = Armed 5000\<rparr>),
      (''b'', \<lparr>pw_payload = [3], pw_started = None, pw_addressed = Some ''t0'',
               pw_dispatched = True, pw_deadline = Armed 5000\<rparr>)]"

lemmas sample_defs = sample_view_def sample_events_def sample_writes_def

lemma sample_run: "pw_run sample_events [] = (sample_writes, [Dispatched ''a'' [1, 2] ''t0'', Dispatched ''b'' [3] ''t0''])"
  by (simp add: sample_defs pw_add_def pw_dispatch_def dispatch_entry_def dispatch_target_def
      pw_approve_def schedule_deadline_def)

lemma sample_writes_inv: "om_inv sample_writes"
  by (simp add: sample_writes_def om_inv_def)

lemma pending_writes_entrywise_witness:
  "om_get (fst (pw_step (sample_view ''t1'') (Term_Ended ''t0'') sample_writes)) ''a'' = None"
  using pending_writes_entrywise [OF sample_writes_inv, of "sample_view ''t1''" "Term_Ended ''t0''"]
  by (simp add: fun_eq_iff) (simp add: sample_writes_def)

lemma write_settles_once_witness:
  "settlements ''a'' (snd (pw_run (sample_events @ [(sample_view ''t1'', Term_Ended ''t0'')]) [])) \<le> 1"
  using write_settles_once [of "''a''" "sample_events @ [(sample_view ''t1'', Term_Ended ''t0'')]"]
  by (simp add: adds_def is_add_def sample_events_def)

lemma begun_write_not_resent_witness:
  "Dispatched ''a'' [1, 2] ''t1'' \<notin>
     set (snd (pw_run [(sample_view ''t1'', Resend_Unstarted), (sample_view ''t1'', Term_Ended ''t0'')] sample_writes))"
  by (rule begun_write_not_resent [OF sample_writes_inv])
     (auto simp: sample_writes_def releases_def is_add_def)

lemma dispatched_to_one_term_witness:
  "is_term_ended (sample_view ''t1'') ''t0''"
  using dispatched_to_one_term [OF sample_writes_inv, of "''b''" _ "sample_view ''t1''" "Term_Ended ''t0''" "[3]" "''t1''"]
  by (simp add: sample_defs is_add_def pw_handle_term_ended_def pw_dispatch_waiting_def settle_if_started_def
      pw_settle_def om_keys_def om_del_def pw_dispatch_def dispatch_entry_def dispatch_target_def)

lemma term_end_settles_begun_witness:
  "om_get (fst (pw_handle_term_ended (sample_view ''t1'') ''t0'' sample_writes)) ''a'' = None"
  using term_end_settles_begun [OF sample_writes_inv, of "''a''" _ "sample_view ''t1''" "''t0''"]
  by (simp add: split_beta) (simp add: sample_writes_def)

lemma deadline_settles_write_witness:
  "\<exists>ws es ws' es' e. pw_deadline_fires (sample_view ''t0'') ''a'' sample_writes = (ws, es) \<and>
     pw_deadline_fires (sample_view ''t0'') ''a'' ws = (ws', es') \<and> om_get ws' ''a'' = None \<and>
     es @ es' = [Settled ''a'' (Some e)] \<and> err_code e = WRITE_TIMEOUT \<and> reported_started e = Some True"
  using deadline_settles_write [of sample_events "''a''" _ "sample_view ''t0''" "sample_view ''t0''"]
  by (simp add: sample_run) (simp add: sample_writes_def)

end
