(* ===== verification/Accepted_Writes.thy ===== *)
theory Accepted_Writes
  imports Errors
begin

text \<open>
  The writes a tab has accepted during one term of holding the port (\<open>client/accepted-writes.ts\<close>):
  what recognises a repeated request. The record's two collections are \<open>#inProgress\<close>, a set of keys,
  and \<open>#finished\<close>, a map from keys to outcomes bounded by \<open>maxFinished\<close>; the facts about the bounded
  map are those of the interface \<open>insertion_map\<close>.
\<close>

section \<open>State and operations\<close>

definition max_remembered_finished_writes :: nat where
  "max_remembered_finished_writes = 1024"

datatype admission = New_Write | In_Progress | Finished_Write "sb_error option"

record accepted_writes =
  aw_in_progress :: "string list"
  aw_finished :: "(string, sb_error option) omap"
  aw_max_finished :: nat

definition aw_empty :: "nat \<Rightarrow> accepted_writes" where
  "aw_empty n = \<lparr>aw_in_progress = [], aw_finished = [], aw_max_finished = n\<rparr>"

definition key_of :: "client_id \<Rightarrow> request_id \<Rightarrow> string" where
  "key_of origin r = origin @ '' '' @ r"

definition aw_is_known :: "client_id \<Rightarrow> request_id \<Rightarrow> accepted_writes \<Rightarrow> bool" where
  "aw_is_known origin r a \<longleftrightarrow>
     key_of origin r \<in> set (aw_in_progress a) \<or> om_has (aw_finished a) (key_of origin r)"

definition aw_admit :: "client_id \<Rightarrow> request_id \<Rightarrow> accepted_writes \<Rightarrow> accepted_writes \<times> admission" where
  "aw_admit origin r a =
     (let key = key_of origin r in
      if key \<in> set (aw_in_progress a) then (a, In_Progress)
      else case om_get (aw_finished a) key of
             Some err \<Rightarrow> (a, Finished_Write err)
           | None \<Rightarrow> (a\<lparr>aw_in_progress := js_add key (aw_in_progress a)\<rparr>, New_Write))"

definition aw_not_connected :: "sb_error option \<Rightarrow> bool" where
  "aw_not_connected err = (case err of None \<Rightarrow> False | Some e \<Rightarrow> err_code e = NOT_CONNECTED)"

definition aw_finish :: "client_id \<Rightarrow> request_id \<Rightarrow> sb_error option \<Rightarrow> accepted_writes \<Rightarrow> accepted_writes" where
  "aw_finish origin r err a =
     (let key = key_of origin r;
          a' = a\<lparr>aw_in_progress := js_remove key (aw_in_progress a)\<rparr>
      in if aw_not_connected err then a'
         else a'\<lparr>aw_finished := js_map.put_bounded (aw_max_finished a) key err (aw_finished a)\<rparr>)"

section \<open>Lemmas\<close>

text \<open>Keys are unambiguous for identifiers without a space, which is what the library generates.\<close>

lemma key_of_inject:
  assumes "CHR '' '' \<notin> set o1" and "CHR '' '' \<notin> set o2"
  shows "key_of o1 r1 = key_of o2 r2 \<longleftrightarrow> o1 = o2 \<and> r1 = r2"
proof
  assume eq: "key_of o1 r1 = key_of o2 r2"
  have *: "takeWhile (\<lambda>c. c \<noteq> CHR '' '') (key_of x r) = x" if "CHR '' '' \<notin> set x" for x r
    using that by (induction x) (auto simp: key_of_def)
  have "o1 = o2" using * [OF assms(1), of r1] * [OF assms(2), of r2] eq by simp
  then show "o1 = o2 \<and> r1 = r2" using eq by (simp add: key_of_def)
qed simp

text \<open>The invariant: no key twice, no key both in progress and finished, and the bound kept.\<close>

definition aw_ok :: "accepted_writes \<Rightarrow> bool" where
  "aw_ok a \<longleftrightarrow> distinct (aw_in_progress a) \<and> om_inv (aw_finished a) \<and>
     (\<forall>k \<in> set (aw_in_progress a). \<not> om_has (aw_finished a) k) \<and>
     length (aw_finished a) \<le> aw_max_finished a"

text \<open>Requests and ends as they reach the record, and the answers to the requests.\<close>

datatype aw_event = Request client_id request_id | Ended client_id request_id "sb_error option"

fun aw_step :: "aw_event \<Rightarrow> accepted_writes \<Rightarrow> accepted_writes \<times> (string \<times> admission) list" where
  "aw_step (Request origin r) a = (case aw_admit origin r a of (a', ans) \<Rightarrow> (a', [(key_of origin r, ans)]))"
| "aw_step (Ended origin r err) a = (aw_finish origin r err a, [])"

fun aw_run :: "aw_event list \<Rightarrow> accepted_writes \<Rightarrow> accepted_writes \<times> (string \<times> admission) list" where
  "aw_run [] a = (a, [])"
| "aw_run (ev # evs) a =
     (case aw_step ev a of (a', xs) \<Rightarrow> (case aw_run evs a' of (a'', ys) \<Rightarrow> (a'', xs @ ys)))"

lemma aw_run_Cons:
  "fst (aw_run (ev # evs) a) = fst (aw_run evs (fst (aw_step ev a)))"
  "snd (aw_run (ev # evs) a) = snd (aw_step ev a) @ snd (aw_run evs (fst (aw_step ev a)))"
  by (simp_all split: prod.split)

text \<open>How a key stands with the record.\<close>

datatype standing = Unknown | Writing | Done "sb_error option"

definition standing :: "accepted_writes \<Rightarrow> string \<Rightarrow> standing" where
  "standing a k = (if k \<in> set (aw_in_progress a) then Writing
                   else case om_get (aw_finished a) k of Some err \<Rightarrow> Done err | None \<Rightarrow> Unknown)"

lemma known_iff_standing: "aw_is_known origin r a \<longleftrightarrow> standing a (key_of origin r) \<noteq> Unknown"
  by (auto simp: aw_is_known_def standing_def om_get_None_iff split: option.split dest: om_get_Some_key)
lemma admit_standing:
  "aw_admit origin r a =
     (case standing a (key_of origin r) of
        Unknown \<Rightarrow> (a\<lparr>aw_in_progress := js_add (key_of origin r) (aw_in_progress a)\<rparr>, New_Write)
      | Writing \<Rightarrow> (a, In_Progress)
      | Done err \<Rightarrow> (a, Finished_Write err))"
  by (auto simp: aw_admit_def standing_def Let_def split: option.split)


lemma aw_step_ok: "aw_ok a \<Longrightarrow> aw_ok (fst (aw_step ev a))"
proof (cases ev)
  case (Request origin r)
  assume "aw_ok a"
  then show ?thesis
    by (auto simp: Request aw_ok_def admit_standing standing_def om_get_None_iff
        split: option.splits if_splits dest: om_get_Some_key)
next
  case (Ended origin r err)
  assume ok: "aw_ok a"
  let ?f = "js_map.put_bounded (aw_max_finished a) (key_of origin r) err (aw_finished a)"
  have "length ?f \<le> aw_max_finished a"
    using ok js_map.put_bounded_size [of "aw_finished a" "aw_max_finished a" "key_of origin r" err]
    by (simp add: aw_ok_def om_length_keys)
  moreover have "set (om_keys ?f) \<subseteq> insert (key_of origin r) (set (om_keys (aw_finished a)))"
    by (rule js_map.put_bounded_keys)
  ultimately show ?thesis using ok
    by (auto simp: Ended aw_ok_def aw_finish_def Let_def js_map.put_bounded_invar)
qed

lemma aw_run_ok: "aw_ok a \<Longrightarrow> aw_ok (fst (aw_run evs a))"
proof (induction evs arbitrary: a)
  case (Cons ev evs)
  then show ?case by (simp add: aw_run_Cons aw_step_ok del: aw_run.simps)
qed simp

lemma aw_empty_ok [simp]: "aw_ok (aw_empty n)"
  by (simp add: aw_ok_def aw_empty_def)

text \<open>The keys whose outcome is remembered by the events, and whether an event forgets a key.\<close>

fun ended_key :: "aw_event \<Rightarrow> string set" where
  "ended_key (Request origin r) = {}"
| "ended_key (Ended origin r err) = (if aw_not_connected err then {} else {key_of origin r})"

definition ended_keys :: "aw_event list \<Rightarrow> string set" where
  "ended_keys evs = \<Union> (ended_key ` set evs)"

fun releases_key :: "string \<Rightarrow> aw_event \<Rightarrow> bool" where
  "releases_key k (Request origin r) = False"
| "releases_key k (Ended origin r err) = (key_of origin r = k \<and> aw_not_connected err)"

definition ends_key :: "string \<Rightarrow> aw_event \<Rightarrow> bool" where
  "ends_key k ev = (case ev of Request origin r \<Rightarrow> False | Ended origin r err \<Rightarrow> key_of origin r = k)"

lemma finish_standing_other:
  assumes "k \<noteq> key_of origin r" and "standing a k = Writing"
  shows "standing (aw_finish origin r err a) k = Writing"
  using assms by (auto simp: standing_def aw_finish_def Let_def split: if_splits option.splits)

lemma step_writing:
  assumes "standing a k = Writing" and "\<not> ends_key k ev"
  shows "standing (fst (aw_step ev a)) k = Writing \<and> (\<forall>x \<in> set (snd (aw_step ev a)). fst x = k \<longrightarrow> snd x = In_Progress)"
proof (cases ev)
  case (Request origin r)
  then show ?thesis using assms
    by (auto simp: admit_standing split: standing.split) (auto simp: standing_def split: if_splits option.splits)
next
  case (Ended origin r err)
  then show ?thesis using assms finish_standing_other [of k origin r a err]
    by (auto simp: ends_key_def)
qed

lemma run_writing:
  assumes "standing a k = Writing" and "\<forall>ev \<in> set evs. \<not> ends_key k ev"
  shows "standing (fst (aw_run evs a)) k = Writing \<and> (\<forall>x \<in> set (snd (aw_run evs a)). fst x = k \<longrightarrow> snd x = In_Progress)"
  using assms
proof (induction evs arbitrary: a)
  case (Cons ev evs)
  then show ?case using step_writing [of a k ev] by (auto simp: aw_run_Cons simp del: aw_run.simps)
qed simp

text \<open>While everything that ended fits, nothing known is forgotten but what is released.\<close>

lemma step_room:
  assumes "aw_ok a" and "finite E" and "card (set (om_keys (aw_finished a)) \<union> ended_key ev \<union> E) \<le> aw_max_finished a"
  shows "set (om_keys (aw_finished (fst (aw_step ev a)))) = set (om_keys (aw_finished a)) \<union> ended_key ev \<and>
    aw_max_finished (fst (aw_step ev a)) = aw_max_finished a \<and>
    (standing a k \<noteq> Unknown \<and> \<not> releases_key k ev \<longrightarrow> standing (fst (aw_step ev a)) k \<noteq> Unknown)"
proof (cases ev)
  case (Request origin r)
  then show ?thesis
    by (auto simp: admit_standing split: standing.split) (auto simp: standing_def split: if_splits option.splits)
next
  case (Ended origin r err)
  let ?k = "key_of origin r"
  show ?thesis
  proof (cases "aw_not_connected err")
    case True
    then show ?thesis using Ended by (auto simp: aw_finish_def Let_def standing_def split: option.splits if_splits)
  next
    case False
    have "card (insert ?k (set (om_keys (aw_finished a)))) \<le> aw_max_finished a"
      using assms(2,3) Ended False
      by (auto intro: order_trans [OF card_mono [of "set (om_keys (aw_finished a)) \<union> ended_key ev \<union> E"]])
    then have "js_map.put_bounded (aw_max_finished a) ?k err (aw_finished a) = om_set ?k err (aw_finished a)"
      using assms(1) by (simp add: aw_ok_def js_map.put_bounded_room)
    then show ?thesis using Ended False
      by (auto simp: aw_finish_def Let_def standing_def split: option.splits if_splits)
  qed
qed

lemma run_room:
  assumes "aw_ok a" and "card (set (om_keys (aw_finished a)) \<union> ended_keys evs) \<le> aw_max_finished a"
    and "\<forall>ev \<in> set evs. \<not> releases_key k ev"
  shows "length (filter (\<lambda>x. x = (k, New_Write)) (snd (aw_run evs a))) \<le> (if standing a k = Unknown then 1 else 0)"
  using assms
proof (induction evs arbitrary: a)
  case (Cons ev evs)
  have fin: "finite (ended_keys evs)"
    by (auto simp: ended_keys_def) (metis ended_key.elims finite.emptyI finite.insertI)
  have split: "ended_keys (ev # evs) = ended_key ev \<union> ended_keys evs" by (simp add: ended_keys_def)
  let ?a = "fst (aw_step ev a)"
  have "card (set (om_keys (aw_finished a)) \<union> ended_key ev \<union> ended_keys evs) \<le> aw_max_finished a"
    using Cons.prems(2) by (simp add: split Un_assoc)
  note room = step_room [OF Cons.prems(1) fin this, of k]
  have "length (filter (\<lambda>x. x = (k, New_Write)) (snd (aw_run evs ?a))) \<le> (if standing ?a k = Unknown then 1 else 0)"
    using Cons.prems room by (intro Cons.IH) (auto simp: split Un_assoc aw_step_ok)
  moreover have "length (filter (\<lambda>x. x = (k, New_Write)) (snd (aw_step ev a))) \<le>
      (if standing a k = Unknown \<and> standing ?a k \<noteq> Unknown then 1 else 0)"
    by (cases ev) (auto simp: admit_standing split: standing.splits, auto simp: standing_def)
  moreover have "standing a k \<noteq> Unknown \<longrightarrow> standing ?a k \<noteq> Unknown"
    using room Cons.prems(3) by auto
  ultimately show ?case by (auto simp: aw_run_Cons simp del: aw_run.simps split: if_splits)
qed simp

section \<open>What the component promises\<close>

text \<open>
  A write in progress is never forgotten: however many requests arrive and other writes end
  before it does, every repeat of it is answered \<open>in-progress\<close> and never accepted as new.
\<close>

theorem in_progress_never_forgotten:
  assumes "snd (aw_admit origin r a) = New_Write"
    and "\<forall>ev \<in> set evs. \<not> ends_key (key_of origin r) ev"
    and "(key_of origin r, ans) \<in> set (snd (aw_run evs (fst (aw_admit origin r a))))"
  shows "ans = In_Progress"
proof -
  have "standing (fst (aw_admit origin r a)) (key_of origin r) = Writing"
    using assms(1) by (auto simp: admit_standing split: standing.splits) (auto simp: standing_def)
  from run_writing [OF this assms(2)] assms(3) show ?thesis by auto
qed

text \<open>
  C26. One write is accepted once: in a term in which no more writes end than the record remembers,
  a request is accepted as new at most once, however often it is repeated - as long as it is not
  answered \<open>NOT_CONNECTED\<close>, which says it has not begun and may be handed over again.
\<close>

theorem accepted_at_most_once:
  assumes "card (ended_keys evs) \<le> n" and "\<forall>ev \<in> set evs. \<not> releases_key k ev"
  shows "length (filter (\<lambda>x. x = (k, New_Write)) (snd (aw_run evs (aw_empty n)))) \<le> 1"
  using run_room [of "aw_empty n" evs k] assms
  by (simp add: aw_empty_def standing_def) (simp add: aw_ok_def)

text \<open>
  The record stays bounded and consistent: after any events it remembers at most
  \<open>maxFinished\<close> outcomes, and no key is at once in progress and finished.
\<close>

theorem accepted_writes_invariant:
  "let a = fst (aw_run evs (aw_empty n)) in
     length (aw_finished a) \<le> n \<and> distinct (aw_in_progress a) \<and>
     set (aw_in_progress a) \<inter> set (om_keys (aw_finished a)) = {}"
proof -
  have max: "aw_max_finished (fst (aw_step ev a)) = aw_max_finished a" for ev a
    by (cases ev) (auto simp: aw_finish_def admit_standing Let_def split: standing.split)
  have "aw_max_finished (fst (aw_run evs a)) = aw_max_finished a" for a
    by (induction evs arbitrary: a) (simp_all add: aw_run_Cons max del: aw_run.simps(2))
  then have "aw_max_finished (fst (aw_run evs (aw_empty n))) = n" by (simp add: aw_empty_def)
  then show ?thesis
    using aw_run_ok [OF aw_empty_ok, of evs n] by (auto simp: aw_ok_def Let_def)
qed

section \<open>The properties on concrete requests\<close>

lemma in_progress_never_forgotten_witness:
  "(''a 1'', New_Write) \<notin> set (snd (aw_run [Request ''b'' ''1'', Ended ''b'' ''1'' None, Request ''a'' ''1'']
     (fst (aw_admit ''a'' ''1'' (aw_empty 1)))))"
  using in_progress_never_forgotten [of "''a''" "''1''" "aw_empty 1"
      "[Request ''b'' ''1'', Ended ''b'' ''1'' None, Request ''a'' ''1'']" New_Write]
  by (auto simp: aw_admit_def aw_empty_def key_of_def ends_key_def)

lemma accepted_at_most_once_witness:
  "length (filter (\<lambda>x. x = (''a 1'', New_Write)) (snd (aw_run
     [Request ''a'' ''1'', Ended ''a'' ''1'' None, Request ''a'' ''1'', Request ''a'' ''1''] (aw_empty 2)))) \<le> 1"
  by (rule accepted_at_most_once) (simp_all add: ended_keys_def aw_not_connected_def)

end
