(* ===== verification/Write_Queue.thy ===== *)
theory Write_Queue
  imports SB_Prelude "HOL-Library.Multiset"
begin

text \<open>
  The queue every write to the device goes through (\<open>owner/write-queue.ts\<close>). A job is what the queue
  was given; the entry the code keeps for it is known by the key it gets, and its promise and its
  \<open>finished\<close> signal are the effects \<open>Job_Withdrawn\<close> and \<open>Job_Finished\<close>. The microtask that
  \<open>#scheduleStart\<close> queues and the end of the running job are steps of their own.
\<close>

section \<open>State and operations\<close>

record 'j write_queue =
  wq_waiting :: "(nat, 'j) omap"
  wq_running :: "(nat \<times> 'j) option"
  wq_next_key :: nat
  wq_start_scheduled :: bool

definition wq_empty :: "'j write_queue" where
  "wq_empty = \<lparr>wq_waiting = [], wq_running = None, wq_next_key = 0, wq_start_scheduled = False\<rparr>"

datatype 'j wq_effect = Job_Started nat 'j | Job_Withdrawn nat | Job_Finished nat

definition wq_depth :: "'j write_queue \<Rightarrow> nat" where
  "wq_depth q = length (wq_waiting q) + (if wq_running q = None then 0 else 1)"

definition wq_schedule_start :: "'j write_queue \<Rightarrow> 'j write_queue" where
  "wq_schedule_start q =
     (if wq_running q \<noteq> None \<or> wq_start_scheduled q then q else q\<lparr>wq_start_scheduled := True\<rparr>)"

text \<open>\<open>enqueueWithdrawable\<close>: the new state and the key \<open>withdraw\<close> closes over.\<close>

definition wq_enqueue :: "'j \<Rightarrow> 'j write_queue \<Rightarrow> 'j write_queue \<times> nat" where
  "wq_enqueue j q =
     (let key = wq_next_key q in
      (wq_schedule_start (q\<lparr>wq_next_key := key + 1, wq_waiting := om_set key j (wq_waiting q)\<rparr>), key))"

definition wq_withdraw :: "nat \<Rightarrow> 'j write_queue \<Rightarrow> 'j write_queue \<times> bool \<times> 'j wq_effect list" where
  "wq_withdraw key q =
     (if \<not> om_has (wq_waiting q) key then (q, False, [])
      else (q\<lparr>wq_waiting := om_del key (wq_waiting q)\<rparr>, True, [Job_Withdrawn key, Job_Finished key]))"

text \<open>The entries \<open>drain\<close> waits for.\<close>

definition wq_drain :: "'j write_queue \<Rightarrow> nat list" where
  "wq_drain q = om_keys (wq_waiting q) @ (case wq_running q of None \<Rightarrow> [] | Some (k, j) \<Rightarrow> [k])"

definition wq_start_next :: "'j write_queue \<Rightarrow> 'j write_queue \<times> 'j wq_effect list" where
  "wq_start_next q =
     (if wq_running q \<noteq> None then (q, [])
      else case wq_waiting q of
        [] \<Rightarrow> (q, [])
      | (key, j) # _ \<Rightarrow> (q\<lparr>wq_waiting := om_del key (wq_waiting q), wq_running := Some (key, j)\<rparr>,
                         [Job_Started key j]))"

definition wq_microtask :: "'j write_queue \<Rightarrow> 'j write_queue \<times> 'j wq_effect list" where
  "wq_microtask q =
     (if wq_start_scheduled q then wq_start_next (q\<lparr>wq_start_scheduled := False\<rparr>) else (q, []))"

definition wq_job_ends :: "'j write_queue \<Rightarrow> 'j write_queue \<times> 'j wq_effect list" where
  "wq_job_ends q =
     (case wq_running q of
        None \<Rightarrow> (q, [])
      | Some (key, j) \<Rightarrow>
          (case wq_start_next (q\<lparr>wq_running := None\<rparr>) of (q', es) \<Rightarrow> (q', Job_Finished key # es)))"

section \<open>Runs\<close>

datatype 'j wq_event = Enqueue 'j | Withdraw nat | Microtask | Job_Ends

fun wq_step :: "'j wq_event \<Rightarrow> 'j write_queue \<Rightarrow> 'j write_queue \<times> 'j wq_effect list" where
  "wq_step (Enqueue j) q = (fst (wq_enqueue j q), [])"
| "wq_step (Withdraw k) q = (case wq_withdraw k q of (q', _, es) \<Rightarrow> (q', es))"
| "wq_step Microtask q = wq_microtask q"
| "wq_step Job_Ends q = wq_job_ends q"

fun wq_run :: "'j wq_event list \<Rightarrow> 'j write_queue \<Rightarrow> 'j write_queue \<times> 'j wq_effect list" where
  "wq_run [] q = (q, [])"
| "wq_run (ev # evs) q =
     (case wq_step ev q of (q', es) \<Rightarrow> (case wq_run evs q' of (q'', es') \<Rightarrow> (q'', es @ es')))"

lemma wq_run_Cons:
  "fst (wq_run (ev # evs) q) = fst (wq_run evs (fst (wq_step ev q)))"
  "snd (wq_run (ev # evs) q) = snd (wq_step ev q) @ snd (wq_run evs (fst (wq_step ev q)))"
  by (simp_all split: prod.split)

lemma wq_run_append:
  "wq_run (xs @ ys) q =
     (fst (wq_run ys (fst (wq_run xs q))), snd (wq_run xs q) @ snd (wq_run ys (fst (wq_run xs q))))"
  by (induction xs arbitrary: q) (simp_all add: prod_eq_iff wq_run_Cons del: wq_run.simps(2))

text \<open>The keys a log says were started, withdrawn and finished, in order.\<close>

fun started_keys :: "'j wq_effect list \<Rightarrow> nat list" where
  "started_keys [] = []"
| "started_keys (Job_Started k j # es) = k # started_keys es"
| "started_keys (_ # es) = started_keys es"

fun withdrawn_keys :: "'j wq_effect list \<Rightarrow> nat list" where
  "withdrawn_keys [] = []"
| "withdrawn_keys (Job_Withdrawn k # es) = k # withdrawn_keys es"
| "withdrawn_keys (_ # es) = withdrawn_keys es"

fun finished_keys :: "'j wq_effect list \<Rightarrow> nat list" where
  "finished_keys [] = []"
| "finished_keys (Job_Finished k # es) = k # finished_keys es"
| "finished_keys (_ # es) = finished_keys es"

lemma keys_append [simp]:
  "started_keys (xs @ ys) = started_keys xs @ started_keys ys"
  "withdrawn_keys (xs @ ys) = withdrawn_keys xs @ withdrawn_keys ys"
  "finished_keys (xs @ ys) = finished_keys xs @ finished_keys ys"
proof -
  show "started_keys (xs @ ys) = started_keys xs @ started_keys ys"
    by (induction xs rule: started_keys.induct) simp_all
  show "withdrawn_keys (xs @ ys) = withdrawn_keys xs @ withdrawn_keys ys"
    by (induction xs rule: withdrawn_keys.induct) simp_all
  show "finished_keys (xs @ ys) = finished_keys xs @ finished_keys ys"
    by (induction xs rule: finished_keys.induct) simp_all
qed

text \<open>
  The state a log leads to: the keys waiting are in order, above every started one and below the next
  key; what was started has finished except the running job; what was withdrawn has finished and
  never started; and something is on its way whenever something waits.
\<close>

definition wq_ok :: "'j write_queue \<Rightarrow> 'j wq_effect list \<Rightarrow> bool" where
  "wq_ok q es \<longleftrightarrow>
     sorted_wrt (<) (started_keys es @ om_keys (wq_waiting q)) \<and>
     (\<forall>k. k < wq_next_key q \<longleftrightarrow> k \<in> set (started_keys es) \<or> k \<in> set (om_keys (wq_waiting q)) \<or>
            k \<in> set (withdrawn_keys es)) \<and>
     distinct (withdrawn_keys es) \<and>
     set (withdrawn_keys es) \<inter> set (started_keys es @ om_keys (wq_waiting q)) = {} \<and>

     (case wq_running q of
        None \<Rightarrow> mset (finished_keys es) = mset (started_keys es @ withdrawn_keys es)
      | Some (k, j) \<Rightarrow> started_keys es \<noteq> [] \<and> last (started_keys es) = k \<and>
          mset (finished_keys es) = mset (butlast (started_keys es) @ withdrawn_keys es)) \<and>
     (wq_waiting q \<noteq> [] \<longrightarrow> wq_running q \<noteq> None \<or> wq_start_scheduled q)"

lemma wq_ok_empty: "wq_ok wq_empty []"
  by (simp add: wq_ok_def wq_empty_def)

lemma om_del_head: "k \<notin> set (om_keys m) \<Longrightarrow> om_del k ((k, j) # m) = m"
  by (auto simp: om_del_def om_keys_def filter_id_conv image_iff)
text \<open>Starting the next job, from a state in which the last one has ended.\<close>

lemma start_next_ok:
  assumes "wq_running q = None"
    and "wq_ok (q\<lparr>wq_start_scheduled := True\<rparr>) es"
  shows "wq_ok (fst (wq_start_next q)) (es @ snd (wq_start_next q))"
proof (cases "wq_waiting q")
  case Nil
  then show ?thesis using assms by (simp add: wq_start_next_def wq_ok_def)
next
  case (Cons p rest)
  obtain k j where p: "p = (k, j)" by fastforce
  have "k \<notin> set (om_keys rest)" using assms(2) Cons p by (auto simp: wq_ok_def sorted_wrt_append)
  then have "wq_start_next q = (q\<lparr>wq_waiting := rest, wq_running := Some (k, j)\<rparr>, [Job_Started k j])"
    using assms(1) Cons p by (simp add: wq_start_next_def om_del_head)
  then show ?thesis using assms Cons p
    by (auto simp: wq_ok_def sorted_wrt_append)
qed

lemma wq_step_ok:
  assumes "wq_ok q es"
  shows "wq_ok (fst (wq_step ev q)) (es @ snd (wq_step ev q))"
proof (cases ev)
  case (Enqueue j)
  have new: "wq_next_key q \<notin> set (om_keys (wq_waiting q))" "wq_next_key q \<notin> set (withdrawn_keys es)"
    and below: "\<forall>k \<in> set (started_keys es) \<union> set (om_keys (wq_waiting q)). k < wq_next_key q"
    using assms by (auto simp: wq_ok_def)
  let ?q = "fst (wq_enqueue j q)"
  have q: "om_keys (wq_waiting ?q) = om_keys (wq_waiting q) @ [wq_next_key q]"
    "wq_running ?q = wq_running q" "wq_next_key ?q = Suc (wq_next_key q)"
    "wq_running ?q \<noteq> None \<or> wq_start_scheduled ?q"
    using new by (simp_all add: wq_enqueue_def wq_schedule_start_def Let_def)
  have "wq_ok ?q es" using assms new below q unfolding wq_ok_def
    by (simp add: sorted_wrt_append less_Suc_eq split: option.splits) blast+
  then show ?thesis by (simp add: Enqueue)
next
  case (Withdraw k)
  show ?thesis
  proof (cases "k \<in> set (om_keys (wq_waiting q))")
    case True
    have "sorted_wrt (<) (filter (\<lambda>k'. k' \<noteq> k) (om_keys (wq_waiting q)))"
      using assms by (simp add: wq_ok_def sorted_wrt_append sorted_wrt_filter)
    moreover have "k \<notin> set (started_keys es)"
      using assms True by (auto simp: wq_ok_def sorted_wrt_append)
    moreover have "om_del k (wq_waiting q) \<noteq> [] \<longrightarrow> wq_waiting q \<noteq> []" by (auto simp: om_del_def)
    ultimately show ?thesis using assms Withdraw True
      by (auto simp: wq_ok_def wq_withdraw_def sorted_wrt_append split: option.splits)
  next
    case False
    then show ?thesis using assms Withdraw by (simp add: wq_withdraw_def)
  qed
next
  case Microtask
  show ?thesis
  proof (cases "wq_start_scheduled q")
    case True
    show ?thesis
    proof (cases "wq_running q")
      case None
      have "wq_ok (q\<lparr>wq_start_scheduled := True\<rparr>) es" using assms by (simp add: wq_ok_def)
      then show ?thesis
        using start_next_ok [of "q\<lparr>wq_start_scheduled := False\<rparr>" es] None True Microtask
        by (simp add: wq_microtask_def)
    next
      case (Some p)
      then show ?thesis using assms True Microtask
        by (simp add: wq_microtask_def wq_start_next_def wq_ok_def)
    qed
  qed (use assms Microtask in \<open>simp add: wq_microtask_def\<close>)
next
  case Job_Ends
  show ?thesis
  proof (cases "wq_running q")
    case (Some p)
    obtain k j where p: "p = (k, j)" by fastforce
    have "mset (started_keys es) = add_mset k (mset (butlast (started_keys es)))"
      using assms Some p by (cases "started_keys es" rule: rev_cases) (auto simp: wq_ok_def)
    then have "wq_ok (q\<lparr>wq_running := None, wq_start_scheduled := True\<rparr>) (es @ [Job_Finished k])"
      using assms Some p by (auto simp: wq_ok_def)
    then show ?thesis
      using start_next_ok [of "q\<lparr>wq_running := None\<rparr>" "es @ [Job_Finished k]"] Some p Job_Ends
      by (auto simp: wq_job_ends_def split: prod.split)
  qed (use assms Job_Ends in \<open>simp add: wq_job_ends_def\<close>)
qed

lemma wq_run_ok: "wq_ok q es \<Longrightarrow> wq_ok (fst (wq_run evs q)) (es @ snd (wq_run evs q))"
proof (induction evs arbitrary: q es)
  case (Cons ev evs)
  then show ?case
    using wq_step_ok [OF Cons.prems, of ev] Cons.IH
    by (metis append.assoc wq_run_Cons)
qed simp

lemma wq_reachable_ok: "wq_ok (fst (wq_run evs wq_empty)) (snd (wq_run evs wq_empty))"
  using wq_run_ok [OF wq_ok_empty, of evs] by simp

text \<open>Jobs that end one after another empty the queue in its order.\<close>

lemma job_ends_cons:
  assumes "wq_running q = Some (k, j)" and "distinct (om_keys (wq_waiting q))"
  shows "wq_job_ends q = (case wq_waiting q of
      [] \<Rightarrow> (q\<lparr>wq_running := None\<rparr>, [Job_Finished k])
    | (k', j') # rest \<Rightarrow> (q\<lparr>wq_waiting := rest, wq_running := Some (k', j')\<rparr>, [Job_Finished k, Job_Started k' j']))"
  using assms by (auto simp: wq_job_ends_def wq_start_next_def om_del_head split: list.split)

lemma jobs_end_in_order:
  assumes "wq_running q = Some (k, j)" and "distinct (om_keys (wq_waiting q))"
    and "wq_run (replicate (Suc (length (wq_waiting q))) Job_Ends) q = (q', es)"
  shows "wq_waiting q' = [] \<and> wq_running q' = None \<and> started_keys es = om_keys (wq_waiting q) \<and>
    finished_keys es = k # om_keys (wq_waiting q)"
  using assms
proof (induction "wq_waiting q" arbitrary: q k j q' es)
  case Nil
  then show ?case by (auto simp: job_ends_cons)
next
  case (Cons p rest)
  obtain k' j' where p: "p = (k', j')" by fastforce
  define q1 where "q1 = q\<lparr>wq_waiting := rest, wq_running := Some (k', j')\<rparr>"
  have step: "wq_job_ends q = (q1, [Job_Finished k, Job_Started k' j'])"
    using Cons.prems(1,2) Cons.hyps(2) p by (simp add: job_ends_cons q1_def flip: Cons.hyps(2))
  obtain es1 where run: "wq_run (replicate (Suc (length rest)) Job_Ends) q1 = (q', es1)"
    and es: "es = [Job_Finished k, Job_Started k' j'] @ es1"
    using Cons.prems(3) step by (auto simp flip: Cons.hyps(2) split: prod.splits)
  have "wq_waiting q' = [] \<and> wq_running q' = None \<and> started_keys es1 = om_keys rest \<and>
      finished_keys es1 = k' # om_keys rest"
    using Cons.hyps(1) [of q1 k' j' q' es1] Cons.prems(2) run
    by (simp add: q1_def flip: Cons.hyps(2))
  then show ?case using es p by (simp flip: Cons.hyps(2))
qed

section \<open>What the component promises\<close>

text \<open>
  C27. Jobs run strictly one after another and in the order they were queued: over any events, the
  jobs started are started once each and in increasing order of their keys, and when one is started
  every job started before it has finished.
\<close>

theorem queue_runs_in_order:
  "sorted_wrt (<) (started_keys (snd (wq_run evs wq_empty))) \<and>
   mset (finished_keys (snd (wq_run evs wq_empty))) =
     mset ((case wq_running (fst (wq_run evs wq_empty)) of
              None \<Rightarrow> started_keys (snd (wq_run evs wq_empty))
            | Some _ \<Rightarrow> butlast (started_keys (snd (wq_run evs wq_empty)))) @
           withdrawn_keys (snd (wq_run evs wq_empty)))"
  using wq_reachable_ok [of evs]
  by (auto simp: wq_ok_def sorted_wrt_append split: option.splits)

text \<open>
  Every job queued is accounted for: the keys given out are those started, those still waiting
  and those withdrawn; a withdrawn job is never started, and no job waits while nothing runs and no
  start is scheduled.
\<close>

theorem queue_accounts_for_jobs:
  "let (q, es) = wq_run evs wq_empty in
     {k. k < wq_next_key q} = set (started_keys es) \<union> set (om_keys (wq_waiting q)) \<union> set (withdrawn_keys es) \<and>
     set (withdrawn_keys es) \<inter> set (started_keys es) = {} \<and>
     \<not> (wq_waiting q \<noteq> [] \<and> wq_running q = None \<and> \<not> wq_start_scheduled q)"
  using wq_reachable_ok [of evs] by (auto simp: wq_ok_def split_beta)

text \<open>
  The queue drains: from any reachable state, once the scheduled start has run, as many jobs
  ending as the queue is deep empty it - every waiting job is started, in order, and exactly the
  entries \<open>drain\<close> waits for have finished.
\<close>

theorem queue_drains:
  "let q = fst (wq_run evs wq_empty);
       (q', es) = wq_run (Microtask # replicate (wq_depth q) Job_Ends) q in
     wq_depth q' = 0 \<and> started_keys es = om_keys (wq_waiting q) \<and> mset (finished_keys es) = mset (wq_drain q)"
proof -
  define q where "q = fst (wq_run evs wq_empty)"
  define q1 where "q1 = fst (wq_microtask q)"
  define r where "r = wq_run (replicate (wq_depth q) Job_Ends) q1"
  have ok: "wq_ok q (snd (wq_run evs wq_empty))" using wq_reachable_ok [of evs] by (simp add: q_def)
  then have d: "distinct (om_keys (wq_waiting q))"
    by (auto simp: wq_ok_def sorted_wrt_append strict_sorted_iff)
  have run: "wq_run (Microtask # replicate (wq_depth q) Job_Ends) q = (fst r, snd (wq_microtask q) @ snd r)"
    by (simp add: q1_def r_def prod_eq_iff wq_run_Cons del: wq_run.simps)
  have "wq_depth (fst r) = 0 \<and> started_keys (snd (wq_microtask q) @ snd r) = om_keys (wq_waiting q) \<and>
      mset (finished_keys (snd (wq_microtask q) @ snd r)) = mset (wq_drain q)"
  proof (cases "wq_running q")
    case (Some p)
    obtain k j where p: "p = (k, j)" by fastforce
    have "q1 = q\<lparr>wq_start_scheduled := False\<rparr>" "snd (wq_microtask q) = []"
      using Some by (auto simp: q1_def wq_microtask_def wq_start_next_def)
    then show ?thesis using jobs_end_in_order [of q1 k j "fst r" "snd r"] Some p d
      by (simp add: r_def wq_depth_def wq_drain_def)
  next
    case None
    show ?thesis
    proof (cases "wq_waiting q")
      case Nil
      then have "q1 = q\<lparr>wq_start_scheduled := False\<rparr>" "snd (wq_microtask q) = []"
        using None by (auto simp: q1_def wq_microtask_def wq_start_next_def)
      then show ?thesis using None Nil by (simp add: r_def wq_depth_def wq_drain_def)
    next
      case (Cons p rest)
      obtain k j where p: "p = (k, j)" by fastforce
      have "wq_start_scheduled q" using ok None Cons by (simp add: wq_ok_def)
      then have m: "wq_microtask q =
          (q\<lparr>wq_start_scheduled := False, wq_waiting := rest, wq_running := Some (k, j)\<rparr>, [Job_Started k j])"
        using None Cons p d by (simp add: wq_microtask_def wq_start_next_def om_del_head)
      then show ?thesis using jobs_end_in_order [of q1 k j "fst r" "snd r"] None Cons p d
        by (simp add: q1_def r_def wq_depth_def wq_drain_def)
    qed
  qed
  then show ?thesis using run by (simp add: q_def [symmetric] Let_def)
qed

end
