(* ===== verification/Port_Writes.thy ===== *)
theory Port_Writes
  imports Accepted_Writes Write_Queue
begin

text \<open>
  The writes at the port of the tab that holds it, in one term: what \<open>ConfigurationSession\<close> does with
  a write request (\<open>#performWrite\<close>, \<open>#performWriteForPeer\<close>, \<open>#takeApproval\<close>) and how
  \<open>PortSupervisor\<close> carries it out (\<open>write\<close>, \<open>#write\<close>, \<open>#askToBegin\<close>, \<open>#awaitStalledWrite\<close>).

  The asynchronous function \<open>#write\<close> runs from one \<open>await\<close> to the next; each of these stretches is an
  operation, and \<open>po_phase\<close> says where the running job waits. The connection the supervisor has is
  known here by a number that changes with every connection, for the code compares the state object
  (\<open>this.#state === state\<close>). What the code calls or sends is an effect, in the order it is made; the
  answer of this context's own \<open>PendingWrites\<close>, given in the turn it is asked, is an argument.
\<close>

section \<open>State\<close>

definition max_payload_bytes :: nat where
  "max_payload_bytes = 16 * 1024 * 1024"

definition max_waiting_writes :: nat where
  "max_waiting_writes = 4096"

definition max_waiting_write_bytes :: nat where
  "max_waiting_write_bytes = 4 * max_payload_bytes"

record port_job =
  pj_origin :: client_id
  pj_request :: request_id
  pj_payload :: bytes
  pj_own :: bool
  pj_queued_at :: millis

definition job_key :: "port_job \<Rightarrow> string" where
  "job_key j = key_of (pj_origin j) (pj_request j)"

text \<open>Where the running job waits: for its turn, for the issuer's answer, for the device to take the
  chunk after \<open>n\<close> bytes written on connection \<open>c\<close>, or - its caller told - for a stalled chunk of \<open>n\<close>
  bytes; \<open>b\<close> says whether the end of the connection has been heard of by that wait.\<close>

datatype write_phase =
    No_Job
  | Starting
  | Asking_Issuer
  | Writing_Chunk nat nat
  | Stalled_Chunk nat nat

record port_writes =
  po_accepted :: accepted_writes
  po_queue :: "port_job write_queue"
  po_phase :: write_phase
  po_awaited :: "string list"
  po_connection :: "nat option"
  po_unanswered :: "(nat, nat) omap"
  po_bytes_sent :: nat
  po_held :: bool

record port_env =
  pe_config :: config_name
  pe_write_timeout :: millis
  pe_chunk_bytes :: nat
  pe_now :: millis
  pe_monotonic :: millis
  pe_status :: string

datatype port_effect =
    Ask_Issuer client_id request_id
  | Ask_Self request_id
  | Write_Begun client_id request_id
  | Chunk_Out nat bytes
  | Write_Finished client_id request_id "sb_error option"
  | Announce_Sent bytes client_id
  | Report_Loss sb_error

type_synonym port_result = "port_writes \<times> port_effect list"

definition po_init :: "nat \<Rightarrow> port_writes" where
  "po_init n = \<lparr>po_accepted = aw_empty n, po_queue = wq_empty, po_phase = No_Job, po_awaited = [],
     po_connection = None, po_unanswered = [], po_bytes_sent = 0, po_held = True\<rparr>"

section \<open>The errors of a write\<close>

definition port_error :: "port_env \<Rightarrow> error_code \<Rightarrow> string \<Rightarrow> err_context \<Rightarrow> sb_error" where
  "port_error v c msg ctx =
     mk_error c msg (no_options\<lparr>opt_config := Some (pe_config v), opt_context := ctx,
       opt_timestamp := Some (pe_now v)\<rparr>)"

definition not_connected_error :: "port_env \<Rightarrow> nat \<Rightarrow> sb_error" where
  "not_connected_error v n = port_error v NOT_CONNECTED ''The port is not open''
     [(''status'', CText (pe_status v)), (''byteLength'', CInt (int n))]"

definition not_begun_error :: "port_env \<Rightarrow> bool \<Rightarrow> port_job \<Rightarrow> sb_error" where
  "not_begun_error v expired j = port_error v WRITE_TIMEOUT
     (if expired then ''The write waited at the port until its writeTimeoutMs ran out and was not begun''
      else ''The tab that issued the write did not let it begin within writeTimeoutMs, and it was not begun'')
     [(''started'', CBool False), (''byteLength'', CInt (int (length (pj_payload j)))),
      (''waitedMs'', CInt (pe_monotonic v - pj_queued_at j))]"

definition chunk_timeout_error :: "port_env \<Rightarrow> nat \<Rightarrow> port_job \<Rightarrow> sb_error" where
  "chunk_timeout_error v written j =
     mk_error WRITE_TIMEOUT ''The device did not accept the write in time''
       (no_options\<lparr>opt_config := Some (pe_config v),
          opt_context := [(''bytesWritten'', CInt (int written)),
            (''byteLength'', CInt (int (length (pj_payload j)))), (''timeoutMs'', CInt (pe_write_timeout v))],
          opt_timestamp := Some (pe_now v)\<rparr>)"

definition write_failed_error :: "port_env \<Rightarrow> string \<Rightarrow> nat \<Rightarrow> port_job \<Rightarrow> sb_error" where
  "write_failed_error v reason written j = port_error v WRITE_FAILED (''The device rejected the write: '' @ reason)
     [(''bytesWritten'', CInt (int written)), (''byteLength'', CInt (int (length (pj_payload j))))]"

definition stalled_failed_error :: "port_env \<Rightarrow> string \<Rightarrow> nat \<Rightarrow> sb_error" where
  "stalled_failed_error v reason chunk = port_error v WRITE_FAILED (''The device rejected the write: '' @ reason)
     [(''chunkBytes'', CInt (int chunk))]"

text \<open>\<open>refusalOfWrite\<close>.\<close>

definition refusal_of_write :: "port_env \<Rightarrow> request_id \<Rightarrow> nat \<Rightarrow> port_writes \<Rightarrow> sb_error option" where
  "refusal_of_write v r n p =
     (let waiting = length (po_unanswered p); waiting_bytes = sum_list (map snd (po_unanswered p)) in
      if waiting < max_waiting_writes \<and> waiting_bytes + n \<le> max_waiting_write_bytes then None
      else Some (port_error v WRITE_QUEUE_FULL
        ''The tab holding the port already has as many writes waiting as it keeps''
        [(''requestId'', CText r), (''byteLength'', CInt (int n)), (''waiting'', CInt (int waiting)),
         (''waitingBytes'', CInt (int waiting_bytes))]))"

section \<open>Operations\<close>

text \<open>The queue's own steps: a job it starts is the running one, at its beginning.\<close>

definition queue_phase :: "port_job wq_effect list \<Rightarrow> write_phase \<Rightarrow> write_phase" where
  "queue_phase es ph = (if started_keys es = [] then ph else Starting)"

definition running_job :: "port_writes \<Rightarrow> (nat \<times> port_job) option" where
  "running_job p = wq_running (po_queue p)"

text \<open>\<open>#performWrite\<close>, up to the queueing of the write: \<open>supervisor.write\<close> counts it as unanswered.\<close>

definition po_request ::
  "port_env \<Rightarrow> bool \<Rightarrow> client_id \<Rightarrow> request_id \<Rightarrow> bytes \<Rightarrow> port_writes \<Rightarrow> port_result" where
  "po_request v own origin r payload p =
     (if \<not> po_held p then (p, [])
      else case (if aw_is_known origin r (po_accepted p) then None
                 else refusal_of_write v r (length payload) p) of
        Some refusal \<Rightarrow> (p, [Write_Finished origin r (Some refusal)])
      | None \<Rightarrow>
          (case aw_admit origin r (po_accepted p) of
             (a, In_Progress) \<Rightarrow> (p, [])
           | (a, Finished_Write err) \<Rightarrow> (p, [Write_Finished origin r err])
           | (a, New_Write) \<Rightarrow>
               (case wq_enqueue \<lparr>pj_origin = origin, pj_request = r, pj_payload = payload, pj_own = own,
                                 pj_queued_at = pe_monotonic v\<rparr> (po_queue p) of
                  (q, key) \<Rightarrow> (p\<lparr>po_accepted := a, po_queue := q,
                                 po_unanswered := om_set key (length payload) (po_unanswered p)\<rparr>, []))))"

text \<open>The reactions to the promise of \<open>supervisor.write\<close>: no longer unanswered, recorded, reported.\<close>

definition po_answer :: "nat \<Rightarrow> port_job \<Rightarrow> sb_error option \<Rightarrow> port_writes \<Rightarrow> port_result" where
  "po_answer key j err p =
     (p\<lparr>po_unanswered := om_del key (po_unanswered p),
        po_accepted := aw_finish (pj_origin j) (pj_request j) err (po_accepted p),
        po_awaited := (if pj_own j then po_awaited p else js_remove (job_key j) (po_awaited p))\<rparr>,
      Write_Finished (pj_origin j) (pj_request j) err #
        (if err = None then [Announce_Sent (pj_payload j) (pj_origin j)] else []))"

text \<open>The running job ends, and the queue starts the next.\<close>

definition po_job_over :: "port_writes \<Rightarrow> port_writes" where
  "po_job_over p =
     (case wq_job_ends (po_queue p) of (q, es) \<Rightarrow> p\<lparr>po_queue := q, po_phase := queue_phase es No_Job\<rparr>)"

definition po_end_job :: "nat \<Rightarrow> port_job \<Rightarrow> sb_error option \<Rightarrow> port_writes \<Rightarrow> port_result" where
  "po_end_job key j err p = (case po_answer key j err p of (p', es) \<Rightarrow> (po_job_over p', es))"

text \<open>The next chunk goes to the writer of the connection the write began on.\<close>

definition next_chunk :: "port_env \<Rightarrow> nat \<Rightarrow> port_job \<Rightarrow> bytes" where
  "next_chunk v written j = take (pe_chunk_bytes v) (drop written (pj_payload j))"

definition po_write_chunk :: "port_env \<Rightarrow> nat \<Rightarrow> nat \<Rightarrow> port_job \<Rightarrow> port_writes \<Rightarrow> port_result" where
  "po_write_chunk v c written j p =
     (p\<lparr>po_phase := Writing_Chunk c written\<rparr>, [Chunk_Out c (next_chunk v written j)])"

text \<open>From the issuer's answer on.\<close>

definition po_answered :: "port_env \<Rightarrow> bool \<Rightarrow> nat \<Rightarrow> port_job \<Rightarrow> port_writes \<Rightarrow> port_result" where
  "po_answered v approved key j p =
     (case po_connection p of
        None \<Rightarrow> po_end_job key j (Some (not_connected_error v (length (pj_payload j)))) p
      | Some c \<Rightarrow>
          if \<not> approved then po_end_job key j (Some (not_begun_error v False j)) p
          else (case po_write_chunk v c 0 j p of
                  (p', es) \<Rightarrow> (p', Write_Begun (pj_origin j) (pj_request j) # es)))"

text \<open>The job's first stretch; \<open>own_answer\<close> is what this context's own \<open>approve\<close> would say.\<close>

definition po_job_runs :: "port_env \<Rightarrow> bool \<Rightarrow> port_writes \<Rightarrow> port_result" where
  "po_job_runs v own_answer p =
     (case (po_phase p, running_job p) of
        (Starting, Some (key, j)) \<Rightarrow>
          if pe_monotonic v - pj_queued_at j \<ge> pe_write_timeout v
          then po_end_job key j (Some (not_begun_error v True j)) p
          else if po_connection p = None
          then po_end_job key j (Some (not_connected_error v (length (pj_payload j)))) p
          else if pj_own j
          then (case po_answered v own_answer key j p of (p', es) \<Rightarrow> (p', Ask_Self (pj_request j) # es))
          else (p\<lparr>po_phase := Asking_Issuer, po_awaited := js_add (job_key j) (po_awaited p)\<rparr>,
                [Ask_Issuer (pj_origin j) (pj_request j)])
      | _ \<Rightarrow> (p, []))"

text \<open>\<open>#takeApproval\<close>: only an answer that is awaited counts, and it is taken once.\<close>

definition po_approval ::
  "port_env \<Rightarrow> client_id \<Rightarrow> request_id \<Rightarrow> bool \<Rightarrow> port_writes \<Rightarrow> port_result" where
  "po_approval v from_tab r approved p =
     (if key_of from_tab r \<notin> set (po_awaited p) then (p, [])
      else (let p' = p\<lparr>po_awaited := js_remove (key_of from_tab r) (po_awaited p)\<rparr> in
            case (po_phase p', running_job p') of
              (Asking_Issuer, Some (key, j)) \<Rightarrow> po_answered v approved key j p'
            | _ \<Rightarrow> (p', [])))"

text \<open>The wait for the answer ends without one: its timer fired, or \<open>stop()\<close> ended it.\<close>

definition po_ask_ends :: "port_env \<Rightarrow> port_writes \<Rightarrow> port_result" where
  "po_ask_ends v p =
     (case (po_phase p, running_job p) of
        (Asking_Issuer, Some (key, j)) \<Rightarrow> po_answered v False key j p
      | _ \<Rightarrow> (p, []))"

text \<open>The device took the chunk.\<close>

definition po_chunk_taken :: "port_env \<Rightarrow> port_writes \<Rightarrow> port_result" where
  "po_chunk_taken v p =
     (case (po_phase p, running_job p) of
        (Writing_Chunk c written, Some (key, j)) \<Rightarrow>
          (let n = length (next_chunk v written j);
               p' = p\<lparr>po_bytes_sent := po_bytes_sent p + n\<rparr>
           in if written + n < length (pj_payload j) then po_write_chunk v c (written + n) j p'
              else po_end_job key j None p')
      | (Stalled_Chunk c n, Some (key, j)) \<Rightarrow>
          (po_job_over (p\<lparr>po_bytes_sent := po_bytes_sent p + n\<rparr>), [])
      | _ \<Rightarrow> (p, []))"

text \<open>The device refused the chunk: the connection it was written to is lost, if it is still the one.\<close>

definition po_chunk_refused :: "port_env \<Rightarrow> string \<Rightarrow> port_writes \<Rightarrow> port_result" where
  "po_chunk_refused v reason p =
     (case (po_phase p, running_job p) of
        (Writing_Chunk c written, Some (key, j)) \<Rightarrow>
          (let e = write_failed_error v reason written j;
               lost = (po_connection p = Some c);
               p' = (if lost then p\<lparr>po_connection := None\<rparr> else p)
           in case po_end_job key j (Some e) p' of
                (p'', es) \<Rightarrow> (p'', (if lost then [Report_Loss e] else []) @ es))
      | (Stalled_Chunk c n, Some (key, j)) \<Rightarrow>
          (let lost = (po_connection p = Some c) in
           (po_job_over (if lost then p\<lparr>po_connection := None\<rparr> else p),
            if lost then [Report_Loss (stalled_failed_error v reason n)] else []))
      | _ \<Rightarrow> (p, []))"

text \<open>The deadline of the chunk: the caller is told, and the chunk stays in flight with its job.\<close>

definition po_chunk_deadline :: "port_env \<Rightarrow> port_writes \<Rightarrow> port_result" where
  "po_chunk_deadline v p =
     (case (po_phase p, running_job p) of
        (Writing_Chunk c written, Some (key, j)) \<Rightarrow>
          (case po_answer key j (Some (chunk_timeout_error v written j)) p of
             (p', es) \<Rightarrow> (p'\<lparr>po_phase := Stalled_Chunk c (length (next_chunk v written j))\<rparr>, es))
      | _ \<Rightarrow> (p, []))"

text \<open>The expiry timer of a job that still waits in the queue.\<close>

definition po_expire :: "port_env \<Rightarrow> nat \<Rightarrow> port_writes \<Rightarrow> port_result" where
  "po_expire v key p =
     (case om_get (wq_waiting (po_queue p)) key of
        None \<Rightarrow> (p, [])
      | Some j \<Rightarrow>
          (case wq_withdraw key (po_queue p) of
             (q, _, _) \<Rightarrow> po_answer key j (Some (not_begun_error v True j)) (p\<lparr>po_queue := q\<rparr>)))"

text \<open>A connection opens; a connection ends, which a stalled write waiting on an open one hears.\<close>

definition po_opened :: "nat \<Rightarrow> port_writes \<Rightarrow> port_writes" where
  "po_opened c p = p\<lparr>po_connection := Some c\<rparr>"

definition po_connection_ends :: "port_writes \<Rightarrow> port_writes" where
  "po_connection_ends p =
     (case po_connection p of
        None \<Rightarrow> p
      | Some c \<Rightarrow>
          (case po_phase p of
             Stalled_Chunk c' n \<Rightarrow> po_job_over (p\<lparr>po_connection := None\<rparr>)
           | _ \<Rightarrow> p\<lparr>po_connection := None\<rparr>))"

text \<open>The tab lets go of the port: requests are no longer heard, the wait for an answer ends, and the
  connection is left.\<close>

definition po_let_go :: "port_env \<Rightarrow> port_writes \<Rightarrow> port_result" where
  "po_let_go v p = po_ask_ends v (po_connection_ends (p\<lparr>po_held := False\<rparr>))"

definition po_microtask :: "port_writes \<Rightarrow> port_writes" where
  "po_microtask p =
     (case wq_microtask (po_queue p) of (q, es) \<Rightarrow> p\<lparr>po_queue := q, po_phase := queue_phase es (po_phase p)\<rparr>)"

section \<open>Events\<close>

datatype port_event =
    Write_Request bool client_id request_id bytes
  | Microtask_Runs
  | Job_Runs bool
  | Approval_Heard client_id request_id bool
  | Ask_Ends
  | Chunk_Taken
  | Chunk_Refused string
  | Chunk_Deadline
  | Job_Expires nat
  | Connection_Opens nat
  | Connection_Ends
  | Let_Go

fun po_step :: "port_env \<Rightarrow> port_event \<Rightarrow> port_writes \<Rightarrow> port_result" where
  "po_step v (Write_Request own origin r b) p = po_request v own origin r b p"
| "po_step v Microtask_Runs p = (po_microtask p, [])"
| "po_step v (Job_Runs a) p = po_job_runs v a p"
| "po_step v (Approval_Heard c r a) p = po_approval v c r a p"
| "po_step v Ask_Ends p = po_ask_ends v p"
| "po_step v Chunk_Taken p = po_chunk_taken v p"
| "po_step v (Chunk_Refused reason) p = po_chunk_refused v reason p"
| "po_step v Chunk_Deadline p = po_chunk_deadline v p"
| "po_step v (Job_Expires key) p = po_expire v key p"
| "po_step v (Connection_Opens c) p = (po_opened c p, [])"
| "po_step v Connection_Ends p = (po_connection_ends p, [])"
| "po_step v Let_Go p = po_let_go v p"

section \<open>One request at the port\<close>

text \<open>
  The reference: how one request stands at the port of one term, and what may happen to it. A request
  that is done is answered with its outcome for as long as it is remembered; one that ended
  \<open>NOT_CONNECTED\<close> is as if it had never been heard of.
\<close>

datatype request_state =
    Req_Unknown | Req_Queued | Req_Asking | Req_Begun | Req_Done "sb_error option"

definition begun_outcome :: "sb_error option \<Rightarrow> bool" where
  "begun_outcome err = (case err of None \<Rightarrow> True
     | Some e \<Rightarrow> err_code e \<noteq> NOT_CONNECTED \<and> err_code e \<noteq> WRITE_QUEUE_FULL \<and> reported_started e \<noteq> Some False)"

definition not_begun_outcome :: "sb_error option \<Rightarrow> bool" where
  "not_begun_outcome err = (case err of None \<Rightarrow> False
     | Some e \<Rightarrow> err_code e = WRITE_TIMEOUT \<and> reported_started e = Some False)"

definition refused_outcome :: "sb_error option \<Rightarrow> bool" where
  "refused_outcome err = (case err of None \<Rightarrow> False | Some e \<Rightarrow> err_code e = WRITE_QUEUE_FULL)"

datatype request_label = Asked | Begun | Answered "sb_error option"

inductive request_move :: "request_state \<Rightarrow> request_label list \<Rightarrow> request_state \<Rightarrow> bool" where
  stay: "request_move s [] s"
| accept: "request_move Req_Unknown [] Req_Queued"
| refuse: "refused_outcome err \<Longrightarrow> request_move Req_Unknown [Answered err] Req_Unknown"
| repeat: "request_move (Req_Done err) [Answered err] (Req_Done err)"
| forget: "request_move (Req_Done err) [] Req_Unknown"
| ask: "request_move Req_Queued [Asked] Req_Asking"
| give_back: "s \<in> {Req_Queued, Req_Asking} \<Longrightarrow> aw_not_connected err \<Longrightarrow>
    request_move s [Answered err] Req_Unknown"
| give_up: "s \<in> {Req_Queued, Req_Asking} \<Longrightarrow> not_begun_outcome err \<Longrightarrow>
    request_move s [Answered err] (Req_Done err)"
| begin_write: "s \<in> {Req_Queued, Req_Asking} \<Longrightarrow> request_move s [Begun] Req_Begun"
| end_write: "begun_outcome err \<Longrightarrow> request_move Req_Begun [Answered err] (Req_Done err)"

text \<open>How the detailed state shows one request.\<close>

fun phase_state :: "write_phase \<Rightarrow> request_state" where
  "phase_state Asking_Issuer = Req_Asking"
| "phase_state (Writing_Chunk c n) = Req_Begun"
| "phase_state _ = Req_Queued"

fun state_of :: "standing \<Rightarrow> (nat \<times> port_job) option \<Rightarrow> write_phase \<Rightarrow> string \<Rightarrow> request_state" where
  "state_of Unknown _ _ k = Req_Unknown"
| "state_of (Done err) _ _ k = Req_Done err"
| "state_of Writing None _ k = Req_Queued"
| "state_of Writing (Some (key, j)) ph k = (if job_key j = k then phase_state ph else Req_Queued)"

definition request_standing :: "port_writes \<Rightarrow> string \<Rightarrow> request_state" where
  "request_standing p k = state_of (standing (po_accepted p) k) (running_job p) (po_phase p) k"

text \<open>What the effects say about the request with key \<open>k\<close>.\<close>

fun label_of :: "string \<Rightarrow> port_effect \<Rightarrow> request_label list" where
  "label_of k (Ask_Issuer origin r) = (if key_of origin r = k then [Asked] else [])"
| "label_of k (Write_Begun origin r) = (if key_of origin r = k then [Begun] else [])"
| "label_of k (Write_Finished origin r err) = (if key_of origin r = k then [Answered err] else [])"
| "label_of k _ = []"

definition labels_of :: "string \<Rightarrow> port_effect list \<Rightarrow> request_label list" where
  "labels_of k es = concat (map (label_of k) es)"

lemma labels_of_simps [simp]:
  "labels_of k [] = []" "labels_of k (e # es) = label_of k e @ labels_of k es"
  "labels_of k (es @ es') = labels_of k es @ labels_of k es'"
  by (simp_all add: labels_of_def)

section \<open>The invariant of the port\<close>

text \<open>The jobs that have not been answered: the waiting ones, and the running one unless it stalled.\<close>

definition live_jobs :: "port_writes \<Rightarrow> (nat \<times> port_job) list" where
  "live_jobs p =
     (case (po_phase p, running_job p) of
        (Stalled_Chunk c n, _) \<Rightarrow> []
      | (_, Some x) \<Rightarrow> [x]
      | (_, None) \<Rightarrow> []) @ wq_waiting (po_queue p)"

definition port_ok :: "port_writes \<Rightarrow> bool" where
  "port_ok p \<longleftrightarrow>
     aw_ok (po_accepted p) \<and> 0 < aw_max_finished (po_accepted p) \<and>
     (po_phase p = No_Job \<longleftrightarrow> running_job p = None) \<and>
     distinct (map (job_key \<circ> snd) (live_jobs p)) \<and>
     (job_key \<circ> snd) ` set (live_jobs p) = set (aw_in_progress (po_accepted p)) \<and>
     om_inv (wq_waiting (po_queue p)) \<and>
     (\<forall>key \<in> set (om_keys (wq_waiting (po_queue p))). key < wq_next_key (po_queue p)) \<and>
     (\<forall>k \<in> set (po_awaited p). po_phase p = Asking_Issuer \<and> (\<exists>key j. running_job p = Some (key, j) \<and> job_key j = k \<and> \<not> pj_own j))"

lemma finish_fields [simp]:
  "aw_in_progress (aw_finish origin r err a) = js_remove (key_of origin r) (aw_in_progress a)"
  "aw_max_finished (aw_finish origin r err a) = aw_max_finished a"
  by (simp_all add: aw_finish_def Let_def)

lemma finish_ok: "aw_ok a \<Longrightarrow> aw_ok (aw_finish origin r err a)"
  using aw_step_ok [of a "Ended origin r err"] by simp

lemma finish_standing_own:
  assumes "aw_ok a" and "0 < aw_max_finished a" and "standing a (key_of origin r) = Writing"
  shows "standing (aw_finish origin r err a) (key_of origin r) = (if aw_not_connected err then Unknown else Done err)"
proof -
  have w: "key_of origin r \<in> set (aw_in_progress a)"
    using assms(3) by (auto simp: standing_def split: if_splits option.splits)
  then have new: "key_of origin r \<notin> set (om_keys (aw_finished a))" using assms(1) by (auto simp: aw_ok_def)
  then have "om_get (js_map.put_bounded (aw_max_finished a) (key_of origin r) err (aw_finished a)) (key_of origin r) = Some err"
    using assms(1,2) by (intro js_map.put_bounded_get_new) (auto simp: aw_ok_def)
  moreover have "om_get (aw_finished a) (key_of origin r) = None" using new by (simp add: om_get_None_iff)
  ultimately show ?thesis by (simp add: standing_def aw_finish_def Let_def)
qed

lemma finish_standing_others:
  assumes "k \<noteq> key_of origin r"
  shows "standing (aw_finish origin r err a) k = standing a k \<or>
    (\<exists>e. standing a k = Done e \<and> standing (aw_finish origin r err a) k = Unknown)"
  using assms js_map.put_bounded_get [of k "key_of origin r" "aw_max_finished a" err "aw_finished a"]
  by (auto simp: standing_def aw_finish_def Let_def split: option.split)

lemma standing_Writing: "standing a k = Writing \<longleftrightarrow> k \<in> set (aw_in_progress a)"
  by (auto simp: standing_def split: option.split)

text \<open>The fields a request's standing does not depend on.\<close>

lemma standing_fields [simp]:
  "request_standing (p\<lparr>po_connection := c\<rparr>) = request_standing p"
  "request_standing (p\<lparr>po_bytes_sent := n\<rparr>) = request_standing p"
  "request_standing (p\<lparr>po_awaited := ks\<rparr>) = request_standing p"
  "request_standing (p\<lparr>po_held := b\<rparr>) = request_standing p"
  "request_standing (p\<lparr>po_unanswered := u\<rparr>) = request_standing p"
  by (simp_all add: request_standing_def running_job_def fun_eq_iff)

lemma ok_fields:
  "port_ok p \<Longrightarrow> port_ok (p\<lparr>po_connection := c\<rparr>)"
  "port_ok p \<Longrightarrow> port_ok (p\<lparr>po_bytes_sent := n\<rparr>)"
  "port_ok p \<Longrightarrow> set ks \<subseteq> set (po_awaited p) \<Longrightarrow> port_ok (p\<lparr>po_awaited := ks\<rparr>)"
  "port_ok p \<Longrightarrow> port_ok (p\<lparr>po_held := b\<rparr>)"
  "port_ok p \<Longrightarrow> port_ok (p\<lparr>po_unanswered := u\<rparr>)"
  by (auto simp: port_ok_def live_jobs_def running_job_def)

lemma job_over_forms:
  assumes "running_job p = Some x" and "om_inv (wq_waiting (po_queue p))"
  shows "po_accepted (po_job_over p) = po_accepted p \<and> po_awaited (po_job_over p) = po_awaited p \<and>
    wq_next_key (po_queue (po_job_over p)) = wq_next_key (po_queue p) \<and>
    (case wq_waiting (po_queue p) of
       [] \<Rightarrow> running_job (po_job_over p) = None \<and> po_phase (po_job_over p) = No_Job \<and> wq_waiting (po_queue (po_job_over p)) = []
     | y # rest \<Rightarrow> running_job (po_job_over p) = Some y \<and> po_phase (po_job_over p) = Starting \<and>
         wq_waiting (po_queue (po_job_over p)) = rest)"
proof -
  obtain k j where x: "x = (k, j)" by fastforce
  have "wq_job_ends (po_queue p) = (case wq_waiting (po_queue p) of
      [] \<Rightarrow> (po_queue p\<lparr>wq_running := None\<rparr>, [Job_Finished k])
    | (k', j') # rest \<Rightarrow> (po_queue p\<lparr>wq_waiting := rest, wq_running := Some (k', j')\<rparr>, [Job_Finished k, Job_Started k' j']))"
    using assms x by (intro job_ends_cons) (auto simp: running_job_def om_inv_def)
  then show ?thesis
    by (auto simp: po_job_over_def running_job_def queue_phase_def split: list.split prod.split)
qed

lemma live_job_over:
  "running_job p = Some x \<Longrightarrow> om_inv (wq_waiting (po_queue p)) \<Longrightarrow> live_jobs (po_job_over p) = wq_waiting (po_queue p)"
  using job_over_forms [of p x] by (auto simp: live_jobs_def split: list.splits write_phase.splits)

text \<open>One step of the port is a move of every request.\<close>

definition moves_well :: "port_writes \<Rightarrow> port_result \<Rightarrow> bool" where
  "moves_well p res \<longleftrightarrow> port_ok (fst res) \<and>
     (\<forall>k. request_move (request_standing p k) (labels_of k (snd res)) (request_standing (fst res) k))"

lemma moves_well_same: "port_ok p' \<Longrightarrow> request_standing p' = request_standing p \<Longrightarrow> (\<And>k. labels_of k es = []) \<Longrightarrow> moves_well p (p', es)"
  by (simp add: moves_well_def stay)

text \<open>Taking one live job out, with its outcome recorded.\<close>

lemma remove_job_ok:
  assumes ok: "port_ok p" and live: "live_jobs p = xs @ (key, j) # ys" and live': "live_jobs p' = xs @ ys"
    and acc: "po_accepted p' = aw_finish (pj_origin j) (pj_request j) err (po_accepted p)"
    and phase: "po_phase p' = No_Job \<longleftrightarrow> running_job p' = None"
    and waiting: "om_inv (wq_waiting (po_queue p'))" "set (om_keys (wq_waiting (po_queue p'))) \<subseteq> set (om_keys (wq_waiting (po_queue p)))"
      "wq_next_key (po_queue p') = wq_next_key (po_queue p)"
    and awaited: "\<forall>k \<in> set (po_awaited p'). po_phase p' = Asking_Issuer \<and> (\<exists>key j. running_job p' = Some (key, j) \<and> job_key j = k \<and> \<not> pj_own j)"
  shows "port_ok p'"
proof -
  have d: "distinct (map (job_key \<circ> snd) (xs @ (key, j) # ys))"
    and s: "(job_key \<circ> snd) ` set (xs @ (key, j) # ys) = set (aw_in_progress (po_accepted p))"
    using ok live by (auto simp: port_ok_def)
  have notin: "job_key j \<notin> (job_key \<circ> snd) ` set (xs @ ys)" using d by auto
  have "set (aw_in_progress (po_accepted p)) = insert (job_key j) ((job_key \<circ> snd) ` set (xs @ ys))"
    unfolding s [symmetric] by auto
  then have "(job_key \<circ> snd) ` set (live_jobs p') = set (aw_in_progress (po_accepted p'))"
    using notin by (auto simp: live' acc job_key_def)
  moreover have "distinct (map (job_key \<circ> snd) (live_jobs p'))" using d by (simp add: live')
  ultimately show ?thesis
    using ok phase waiting awaited acc by (auto simp: port_ok_def finish_ok)
qed

lemma job_is_writing:
  "port_ok p \<Longrightarrow> (key, j) \<in> set (live_jobs p) \<Longrightarrow> standing (po_accepted p) (job_key j) = Writing"
proof -
  assume "port_ok p" "(key, j) \<in> set (live_jobs p)"
  then have "(job_key \<circ> snd) (key, j) \<in> set (aw_in_progress (po_accepted p))"
    unfolding port_ok_def by blast
  then show ?thesis by (simp add: standing_Writing)
qed

lemma live_running:
  "running_job p = Some x \<Longrightarrow> (\<And>c n. po_phase p \<noteq> Stalled_Chunk c n) \<Longrightarrow> live_jobs p = x # wq_waiting (po_queue p)"
  by (auto simp: live_jobs_def split: write_phase.split)

text \<open>How the standing of every request changes when one live job is answered.\<close>

lemma answered_standing:
  assumes ok: "port_ok p" and live: "(key, j) \<in> set (live_jobs p)"
    and acc: "po_accepted p' = aw_finish (pj_origin j) (pj_request j) err (po_accepted p)"
    and others: "\<And>k. k \<noteq> job_key j \<Longrightarrow> standing (po_accepted p) k = Writing \<Longrightarrow>
      state_of Writing (running_job p') (po_phase p') k = state_of Writing (running_job p) (po_phase p) k"
    and mine: "request_move (request_standing p (job_key j)) [Answered err]
      (if aw_not_connected err then Req_Unknown else Req_Done err)"
    and lab: "\<And>k. labels_of k es = (if k = job_key j then [Answered err] else [])"
  shows "\<forall>k. request_move (request_standing p k) (labels_of k es) (request_standing p' k)"
proof
  fix k
  note key = job_key_def [of j]
  show "request_move (request_standing p k) (labels_of k es) (request_standing p' k)"
  proof (cases "k = job_key j")
    case True
    have "standing (po_accepted p') k = (if aw_not_connected err then Unknown else Done err)"
      using finish_standing_own [of "po_accepted p" "pj_origin j" "pj_request j" err] ok
        job_is_writing [OF ok live] by (simp add: acc True key port_ok_def)
    then have "request_standing p' k = (if aw_not_connected err then Req_Unknown else Req_Done err)"
      by (simp add: request_standing_def)
    then show ?thesis using mine True lab by simp
  next
    case False
    then consider "standing (po_accepted p') k = standing (po_accepted p) k"
      | e where "standing (po_accepted p) k = Done e" "standing (po_accepted p') k = Unknown"
      using finish_standing_others [of k "pj_origin j" "pj_request j" err "po_accepted p"] acc key by auto
    then show ?thesis
    proof cases
      case 1
      then have "request_standing p' k = request_standing p k"
        using others [OF False] by (cases "standing (po_accepted p) k") (auto simp: request_standing_def)
      then show ?thesis using lab False by (simp add: stay)
    next
      case 2
      then show ?thesis using lab False by (simp add: request_standing_def forget)
    qed
  qed
qed

lemma answer_fields:
  "po_accepted (fst (po_answer key j err p)) = aw_finish (pj_origin j) (pj_request j) err (po_accepted p)"
  "po_queue (fst (po_answer key j err p)) = po_queue p" "po_phase (fst (po_answer key j err p)) = po_phase p"
  "running_job (fst (po_answer key j err p)) = running_job p"
  "labels_of k (snd (po_answer key j err p)) = (if k = job_key j then [Answered err] else [])"
  by (simp_all add: po_answer_def running_job_def job_key_def)

lemma end_job_forms:
  "fst (po_end_job key j err p) = po_job_over (fst (po_answer key j err p))"
  "snd (po_end_job key j err p) = snd (po_answer key j err p)"
  by (simp_all add: po_end_job_def split: prod.split)

lemma job_over_phase_state:
  "running_job p = Some x \<Longrightarrow> om_inv (wq_waiting (po_queue p)) \<Longrightarrow>
     state_of Writing (running_job (po_job_over p)) (po_phase (po_job_over p)) k = Req_Queued"
  using job_over_forms [of p x] by (auto split: list.splits)

lemma end_job_well:
  assumes ok: "port_ok p" and run: "running_job p = Some (key, j)"
    and phase: "\<And>c n. po_phase p \<noteq> Stalled_Chunk c n"
    and mine: "request_move (request_standing p (job_key j)) [Answered err]
      (if aw_not_connected err then Req_Unknown else Req_Done err)"
  shows "moves_well p (po_end_job key j err p)"
proof -
  let ?a = "fst (po_answer key j err p)" and ?p = "fst (po_end_job key j err p)"
  have inv: "om_inv (wq_waiting (po_queue p))" using ok by (simp add: port_ok_def)
  have over: "?p = po_job_over ?a" by (simp add: end_job_forms)
  have live: "live_jobs p = [] @ (key, j) # wq_waiting (po_queue p)" using live_running [OF run phase] by simp
  have forms: "po_accepted ?p = po_accepted ?a" "po_awaited ?p = po_awaited ?a"
    "wq_next_key (po_queue ?p) = wq_next_key (po_queue p)"
    "case wq_waiting (po_queue p) of
       [] \<Rightarrow> running_job ?p = None \<and> po_phase ?p = No_Job \<and> wq_waiting (po_queue ?p) = []
     | y # rest \<Rightarrow> running_job ?p = Some y \<and> po_phase ?p = Starting \<and> wq_waiting (po_queue ?p) = rest"
    using job_over_forms [of ?a "(key, j)"] run inv unfolding over by (simp_all add: answer_fields)
  have awaited: "po_awaited ?a = []"
  proof -
    have "\<forall>k \<in> set (po_awaited p). k = job_key j \<and> \<not> pj_own j" using ok run by (auto simp: port_ok_def)
    then show ?thesis by (cases "po_awaited p") (auto simp: po_answer_def js_remove_def filter_empty_conv)
  qed
  have "port_ok ?p"
    using live_job_over [of ?a "(key, j)"] run inv forms awaited
    by (intro remove_job_ok [OF ok live, where err = err])
       (auto simp: answer_fields over [symmetric] om_inv_def split: list.splits)
  moreover have "\<forall>k. request_move (request_standing p k) (labels_of k (snd (po_end_job key j err p))) (request_standing ?p k)"
    using live run mine forms(1)
    by (intro answered_standing [OF ok])
       (auto simp: answer_fields end_job_forms(2) over job_over_phase_state [of ?a "(key, j)"] inv)
  ultimately show ?thesis by (simp add: moves_well_def)
qed

lemma awaited_running:
  "port_ok p \<Longrightarrow> po_phase p \<noteq> Asking_Issuer \<Longrightarrow> po_awaited p = []"
  by (cases "po_awaited p") (auto simp: port_ok_def)

lemma chunk_deadline_well:
  assumes ok: "port_ok p" and run: "running_job p = Some (key, j)" and phase: "po_phase p = Writing_Chunk c n"
    and out: "begun_outcome err"
  shows "moves_well p ((fst (po_answer key j err p))\<lparr>po_phase := Stalled_Chunk c m\<rparr>, snd (po_answer key j err p))"
proof -
  let ?p = "(fst (po_answer key j err p))\<lparr>po_phase := Stalled_Chunk c m\<rparr>"
  have live: "live_jobs p = [] @ (key, j) # wq_waiting (po_queue p)"
    using live_running [OF run] phase by simp
  have mem: "(key, j) \<in> set (live_jobs p)" using live by simp
  have fields: "po_accepted ?p = aw_finish (pj_origin j) (pj_request j) err (po_accepted p)" "po_queue ?p = po_queue p"
    "running_job ?p = running_job p" "po_phase ?p = Stalled_Chunk c m"
    by (simp_all add: po_answer_def running_job_def)
  have "po_awaited ?p = []"
    using awaited_running [OF ok] phase by (simp add: po_answer_def js_remove_def)
  moreover have "live_jobs ?p = [] @ wq_waiting (po_queue p)" by (simp add: live_jobs_def fields)
  ultimately have "port_ok ?p"
    using ok run by (intro remove_job_ok [OF ok live, where err = err]) (auto simp: fields port_ok_def)
  moreover have nc: "\<not> aw_not_connected err" using out by (auto simp: begun_outcome_def aw_not_connected_def split: option.splits)
  have mine: "request_standing p (job_key j) = Req_Begun"
    using job_is_writing [OF ok mem] run phase by (simp add: request_standing_def)
  have "\<forall>k. request_move (request_standing p k) (labels_of k (snd (po_answer key j err p))) (request_standing ?p k)"
    using mine nc out run phase
    by (intro answered_standing [OF ok mem fields(1)]) (auto simp: fields answer_fields end_write)
  ultimately show ?thesis by (simp add: moves_well_def)
qed

text \<open>The wait for a stalled chunk ends: nobody is told, and the queue goes on.\<close>

lemma stalled_over_well:
  assumes ok: "port_ok p" and run: "running_job p = Some x" and phase: "po_phase p = Stalled_Chunk c n"
  shows "port_ok (po_job_over p) \<and> request_standing (po_job_over p) = request_standing p"
proof -
  have inv: "om_inv (wq_waiting (po_queue p))" using ok by (simp add: port_ok_def)
  note forms = job_over_forms [OF run inv]
  have live: "live_jobs p = wq_waiting (po_queue p)" using phase by (simp add: live_jobs_def)
  have "po_awaited p = []" using awaited_running [OF ok] phase by simp
  then have "port_ok (po_job_over p)"
    using ok forms live live_job_over [OF run inv] by (auto simp: port_ok_def om_inv_def split: list.splits)
  moreover have "request_standing (po_job_over p) k = request_standing p k" for k
  proof -
    obtain key j where "x = (key, j)" by fastforce
    then have "state_of Writing (running_job p) (po_phase p) k = Req_Queued" using run phase by simp
    then show ?thesis using forms job_over_phase_state [OF run inv, of k]
      by (cases "standing (po_accepted p) k") (simp_all add: request_standing_def)
  qed
  ultimately show ?thesis by (simp add: fun_eq_iff)
qed

lemma om_split:
  "om_inv m \<Longrightarrow> om_get m k = Some v \<Longrightarrow> \<exists>xs ys. m = xs @ (k, v) # ys \<and> om_del k m = xs @ ys"
proof (induction m)
  case (Cons a m)
  obtain k' v' where a: "a = (k', v')" by fastforce
  show ?case
  proof (cases "k' = k")
    case True
    then have "om_del k (a # m) = [] @ m" "a # m = [] @ (k, v) # m" using Cons.prems a
      by (auto simp: om_del_head om_inv_def)
    then show ?thesis by blast
  next
    case False
    then obtain xs ys where "m = xs @ (k, v) # ys" "om_del k m = xs @ ys"
      using Cons a by (auto simp: om_inv_def)
    then have "a # m = (a # xs) @ (k, v) # ys \<and> om_del k (a # m) = (a # xs) @ ys"
      using False a by (simp add: om_del_def)
    then show ?thesis by blast
  qed
qed simp

lemma live_waiting_split:
  assumes "om_inv (wq_waiting (po_queue p))" and "om_get (wq_waiting (po_queue p)) key = Some j"
  shows "\<exists>xs ys. live_jobs p = xs @ (key, j) # ys \<and>
    live_jobs (p\<lparr>po_queue := po_queue p\<lparr>wq_waiting := om_del key (wq_waiting (po_queue p))\<rparr>\<rparr>) = xs @ ys"
proof -
  obtain xs ys where m: "wq_waiting (po_queue p) = xs @ (key, j) # ys" "om_del key (wq_waiting (po_queue p)) = xs @ ys"
    using om_split [OF assms] by blast
  obtain pre where "live_jobs p = pre @ wq_waiting (po_queue p)"
    "live_jobs (p\<lparr>po_queue := po_queue p\<lparr>wq_waiting := om_del key (wq_waiting (po_queue p))\<rparr>\<rparr>) =
       pre @ om_del key (wq_waiting (po_queue p))"
    by (cases "po_phase p"; cases "running_job p") (simp_all add: live_jobs_def running_job_def)
  then have "live_jobs p = (pre @ xs) @ (key, j) # ys \<and>
    live_jobs (p\<lparr>po_queue := po_queue p\<lparr>wq_waiting := om_del key (wq_waiting (po_queue p))\<rparr>\<rparr>) = (pre @ xs) @ ys"
    using m by simp
  then show ?thesis by blast
qed

lemma waiting_is_queued:
  assumes ok: "port_ok p" and get: "om_get (wq_waiting (po_queue p)) key = Some j"
  shows "(key, j) \<in> set (live_jobs p) \<and> request_standing p (job_key j) = Req_Queued"
proof -
  have mem: "(key, j) \<in> set (wq_waiting (po_queue p))" using get by (rule om_get_in_set)
  then have live: "(key, j) \<in> set (live_jobs p)" by (simp add: live_jobs_def)
  have "state_of Writing (running_job p) (po_phase p) (job_key j) = Req_Queued"
  proof (cases "running_job p")
    case (Some x)
    obtain rk rj where x: "x = (rk, rj)" by fastforce
    have "job_key rj \<noteq> job_key j" if "\<And>c n. po_phase p \<noteq> Stalled_Chunk c n"
    proof -
      have "distinct (map (job_key \<circ> snd) (x # wq_waiting (po_queue p)))"
        using ok live_running [OF Some that] by (simp add: port_ok_def)
      then show ?thesis using mem x by (force simp: image_iff)
    qed
    then show ?thesis using Some x by (cases "po_phase p") auto
  qed simp
  then show ?thesis using live job_is_writing [OF ok live] by (simp add: request_standing_def)
qed

lemma nothing_moves [simp]: "port_ok p \<Longrightarrow> moves_well p (p, [])"
  by (simp add: moves_well_def stay)

lemma not_begun_move: "not_begun_outcome err \<Longrightarrow> \<not> aw_not_connected err"
  by (auto simp: not_begun_outcome_def aw_not_connected_def split: option.splits)

lemma begun_move: "begun_outcome err \<Longrightarrow> \<not> aw_not_connected err"
  by (auto simp: begun_outcome_def aw_not_connected_def split: option.splits)

lemma error_outcomes [simp]:
  "aw_not_connected (Some (not_connected_error v n))"
  "not_begun_outcome (Some (not_begun_error v b j))"
  "begun_outcome None" "begun_outcome (Some (chunk_timeout_error v n j))"
  "begun_outcome (Some (write_failed_error v reason n j))"
  "refusal_of_write v r n p = Some e \<Longrightarrow> refused_outcome (Some e)"
  by (auto simp: aw_not_connected_def not_begun_outcome_def begun_outcome_def refused_outcome_def
      not_connected_error_def not_begun_error_def chunk_timeout_error_def write_failed_error_def
      port_error_def reported_started_def refusal_of_write_def Let_def split: if_splits)

lemma expire_well:
  assumes ok: "port_ok p"
  shows "moves_well p (po_expire v key p)"
proof (cases "om_get (wq_waiting (po_queue p)) key")
  case None
  then show ?thesis using ok by (simp add: po_expire_def)
next
  case (Some j)
  let ?err = "Some (not_begun_error v True j)"
  let ?q = "po_queue p\<lparr>wq_waiting := om_del key (wq_waiting (po_queue p))\<rparr>"
  let ?res = "po_answer key j ?err (p\<lparr>po_queue := ?q\<rparr>)"
  have eq: "po_expire v key p = ?res"
    using Some om_get_Some_key [OF Some] by (simp add: po_expire_def wq_withdraw_def)
  have inv: "om_inv (wq_waiting (po_queue p))" using ok by (simp add: port_ok_def)
  obtain xs ys where live: "live_jobs p = xs @ (key, j) # ys" "live_jobs (p\<lparr>po_queue := ?q\<rparr>) = xs @ ys"
    using live_waiting_split [OF inv Some] by blast
  have fields: "po_accepted (fst ?res) = aw_finish (pj_origin j) (pj_request j) ?err (po_accepted p)"
    "po_queue (fst ?res) = ?q" "po_phase (fst ?res) = po_phase p" "running_job (fst ?res) = running_job p"
    "live_jobs (fst ?res) = xs @ ys" "set (po_awaited (fst ?res)) \<subseteq> set (po_awaited p)"
    using live by (auto simp: po_answer_def running_job_def live_jobs_def)
  have "port_ok (fst ?res)"
    using ok fields(6) by (intro remove_job_ok [OF ok live(1) fields(5) fields(1)])
      (auto simp: fields port_ok_def subset_iff)
  moreover have "\<forall>k. request_move (request_standing p k) (labels_of k (snd ?res)) (request_standing (fst ?res) k)"
    using waiting_is_queued [OF ok Some]
    by (intro answered_standing [OF ok _ fields(1)])
       (auto simp: fields answer_fields not_begun_move give_up running_job_def)
  ultimately show ?thesis by (simp add: eq moves_well_def)
qed

text \<open>The running job's move when it ends in one of its phases.\<close>

lemma running_standing:
  assumes "port_ok p" and "running_job p = Some (key, j)" and "\<And>c n. po_phase p \<noteq> Stalled_Chunk c n"
  shows "request_standing p (job_key j) = phase_state (po_phase p)"
  using job_is_writing [OF assms(1), of key j] live_running [OF assms(2,3)] assms(2)
  by (simp add: request_standing_def)

lemma end_before_begin:
  assumes "port_ok p" and "running_job p = Some (key, j)" and "po_phase p \<in> {Starting, Asking_Issuer}"
    and "aw_not_connected err \<or> not_begun_outcome err"
  shows "moves_well p (po_end_job key j err p)"
proof (rule end_job_well [OF assms(1,2)])
  show "po_phase p \<noteq> Stalled_Chunk c n" for c n using assms(3) by auto
  then show "request_move (request_standing p (job_key j)) [Answered err]
      (if aw_not_connected err then Req_Unknown else Req_Done err)"
    using running_standing [OF assms(1,2)] assms(3,4) by (auto intro: give_back give_up simp: not_begun_move)
qed

lemma end_after_begin:
  assumes "port_ok p" and "running_job p = Some (key, j)" and "po_phase p = Writing_Chunk c n"
    and "begun_outcome err"
  shows "moves_well p (po_end_job key j err p)"
proof (rule end_job_well [OF assms(1,2)])
  show "po_phase p \<noteq> Stalled_Chunk c n" for c n using assms(3) by auto
  then show "request_move (request_standing p (job_key j)) [Answered err]
      (if aw_not_connected err then Req_Unknown else Req_Done err)"
    using running_standing [OF assms(1,2)] assms(3,4) by (simp add: end_write begun_move)
qed

lemma moves_well_via:
  "moves_well p' res \<Longrightarrow> request_standing p' = request_standing p \<Longrightarrow> (\<And>k. labels_of k es = labels_of k (snd res)) \<Longrightarrow>
     moves_well p (fst res, es)"
  by (simp add: moves_well_def)

text \<open>Changing the phase of the running job only.\<close>

lemma phase_change_ok:
  assumes ok: "port_ok p" and run: "running_job p = Some (key, j)"
    and "\<And>c n. po_phase p \<noteq> Stalled_Chunk c n" and "\<And>c n. ph \<noteq> Stalled_Chunk c n" and "ph \<noteq> No_Job"
    and "set ks \<subseteq> (if ph = Asking_Issuer \<and> \<not> pj_own j then {job_key j} else {})"
  shows "port_ok (p\<lparr>po_phase := ph, po_awaited := ks\<rparr>)"
proof -
  have "running_job (p\<lparr>po_phase := ph, po_awaited := ks\<rparr>) = Some (key, j)" using run by (simp add: running_job_def)
  from live_running [OF this] live_running [OF run assms(3)] assms(4)
  have "live_jobs (p\<lparr>po_phase := ph, po_awaited := ks\<rparr>) = live_jobs p" by simp
  then show ?thesis using assms by (auto simp: port_ok_def running_job_def split: if_splits)
qed

lemma phase_change_standing:
  assumes "running_job p = Some (key, j)"
  shows "request_standing (p\<lparr>po_phase := ph, po_awaited := ks\<rparr>) k =
    (if k = job_key j \<and> standing (po_accepted p) k = Writing then phase_state ph else
     if k = job_key j then request_standing p k else request_standing p k)"
  using assms by (cases "standing (po_accepted p) k") (auto simp: request_standing_def running_job_def)

lemma write_begins_well:
  assumes ok: "port_ok p" and run: "running_job p = Some (key, j)" and phase: "po_phase p \<in> {Starting, Asking_Issuer}"
    and awaited: "po_awaited p = []"
  shows "moves_well p (p\<lparr>po_phase := Writing_Chunk c n\<rparr>,
    [Write_Begun (pj_origin j) (pj_request j), Chunk_Out c chunk])"
proof -
  have ns: "\<And>c n. po_phase p \<noteq> Stalled_Chunk c n" using phase by auto
  let ?p = "p\<lparr>po_phase := Writing_Chunk c n, po_awaited := []\<rparr>"
  have p: "?p = p\<lparr>po_phase := Writing_Chunk c n\<rparr>" using awaited by simp
  have "port_ok ?p" using phase_change_ok [OF ok run ns, of "Writing_Chunk c n" "[]"] by simp
  moreover have w: "standing (po_accepted p) (job_key j) = Writing"
    using job_is_writing [OF ok, of key j] live_running [OF run ns] by simp
  have "request_move (request_standing p k)
      (labels_of k [Write_Begun (pj_origin j) (pj_request j), Chunk_Out c chunk])
      (request_standing ?p k)" for k
    unfolding phase_change_standing [OF run]
    using w running_standing [OF ok run ns] phase by (auto simp: job_key_def intro: begin_write stay)
  ultimately have "moves_well p (?p, [Write_Begun (pj_origin j) (pj_request j), Chunk_Out c chunk])"
    by (simp add: moves_well_def)
  then show ?thesis unfolding p .
qed

lemma answered_well:
  assumes ok: "port_ok p" and run: "running_job p = Some (key, j)" and phase: "po_phase p \<in> {Starting, Asking_Issuer}"
    and awaited: "po_awaited p = [] \<or> \<not> approved \<or> po_connection p = None"
  shows "moves_well p (po_answered v approved key j p)"
proof (cases "po_connection p")
  case None
  then show ?thesis by (simp add: po_answered_def end_before_begin [OF ok run phase])
next
  case (Some c)
  then show ?thesis using write_begins_well [OF ok run phase] awaited
    by (auto simp: po_answered_def po_write_chunk_def end_before_begin [OF ok run phase])
qed

lemma job_runs_well:
  assumes ok: "port_ok p"
  shows "moves_well p (po_job_runs v a p)"
proof (cases "running_job p")
  case (Some x)
  obtain key j where x: "x = (key, j)" by fastforce
  note run = Some [unfolded x]
  show ?thesis
  proof (cases "po_phase p = Starting")
    case True
    have ns: "\<And>c n. po_phase p \<noteq> Stalled_Chunk c n" using True by auto
    have aw: "po_awaited p = []" using awaited_running [OF ok] True by simp
    have w: "standing (po_accepted p) (job_key j) = Writing"
      using job_is_writing [OF ok, of key j] live_running [OF run ns] by simp
    let ?p = "p\<lparr>po_phase := Asking_Issuer, po_awaited := [job_key j]\<rparr>"
    have "request_move (request_standing p k) (labels_of k [Ask_Issuer (pj_origin j) (pj_request j)]) (request_standing ?p k)" for k
      unfolding phase_change_standing [OF run]
      using w running_standing [OF ok run ns] True by (auto simp: job_key_def intro: ask stay)
    then have asks: "moves_well p (?p, [Ask_Issuer (pj_origin j) (pj_request j)])" if "\<not> pj_own j"
      using phase_change_ok [OF ok run ns, of Asking_Issuer "[job_key j]"] that by (simp add: moves_well_def)
    have own: "moves_well p (fst (po_answered v a key j p), Ask_Self (pj_request j) # snd (po_answered v a key j p))"
      using moves_well_via [OF answered_well [OF ok run, of a v]] True aw by simp
    show ?thesis
      using True run asks own aw end_before_begin [OF ok run]
      by (cases "po_answered v a key j p") (simp add: po_job_runs_def js_add_def)
  qed (use ok in \<open>simp add: po_job_runs_def split: write_phase.split option.split\<close>)
qed (use ok in \<open>simp add: po_job_runs_def split: write_phase.split\<close>)

lemma approval_well:
  assumes ok: "port_ok p"
  shows "moves_well p (po_approval v c r a p)"
proof (cases "key_of c r \<in> set (po_awaited p)")
  case True
  then obtain key j where run: "running_job p = Some (key, j)" and ph: "po_phase p = Asking_Issuer"
    and k: "job_key j = key_of c r"
    using ok by (auto simp: port_ok_def)
  let ?p = "p\<lparr>po_awaited := js_remove (key_of c r) (po_awaited p)\<rparr>"
  have ok': "port_ok ?p" using ok by (intro ok_fields(3)) auto
  have "set (po_awaited ?p) \<subseteq> {}" using ok run k by (auto simp: port_ok_def)
  then have "po_awaited ?p = []" by (metis empty_set set_empty subset_empty)
  then have "moves_well ?p (po_answered v a key j ?p)"
    using run ph by (intro answered_well [OF ok']) (auto simp: running_job_def)
  from moves_well_via [OF this, of p "snd (po_answered v a key j ?p)"] True run ph show ?thesis
    by (simp add: po_approval_def running_job_def)
qed (use ok in \<open>simp add: po_approval_def\<close>)

lemma ask_ends_well:
  assumes ok: "port_ok p"
  shows "moves_well p (po_ask_ends v p)"
proof (cases "po_phase p = Asking_Issuer")
  case True
  then obtain key j where run: "running_job p = Some (key, j)" using ok by (auto simp: port_ok_def)
  then show ?thesis using answered_well [OF ok run] True by (simp add: po_ask_ends_def)
qed (use ok in \<open>simp add: po_ask_ends_def split: write_phase.split\<close>)

lemma chunk_phase_ok:
  assumes "port_ok p" and "running_job p = Some (key, j)" and "po_phase p = Writing_Chunk c n"
  shows "moves_well p (p\<lparr>po_phase := Writing_Chunk c m\<rparr>, [Chunk_Out c chunk])"
proof -
  have ns: "\<And>c n. po_phase p \<noteq> Stalled_Chunk c n" using assms(3) by auto
  have aw: "po_awaited p = []" using awaited_running [OF assms(1)] assms(3) by simp
  let ?p = "p\<lparr>po_phase := Writing_Chunk c m, po_awaited := []\<rparr>"
  have p: "?p = p\<lparr>po_phase := Writing_Chunk c m\<rparr>" using aw by simp
  have "request_standing ?p k = request_standing p k" for k
    unfolding phase_change_standing [OF assms(2)]
    using running_standing [OF assms(1,2) ns] assms(3) by auto
  moreover have "port_ok ?p" using phase_change_ok [OF assms(1,2) ns, of "Writing_Chunk c m" "[]"] by simp
  ultimately have "moves_well p (?p, [Chunk_Out c chunk])"
    by (intro moves_well_same) (auto simp: fun_eq_iff)
  then show ?thesis unfolding p .
qed

lemma running_fields [simp]:
  "running_job (p\<lparr>po_connection := c\<rparr>) = running_job p" "running_job (p\<lparr>po_bytes_sent := n\<rparr>) = running_job p"
  "running_job (p\<lparr>po_held := b\<rparr>) = running_job p"
  by (simp_all add: running_job_def)

lemma chunk_taken_well:
  assumes ok: "port_ok p"
  shows "moves_well p (po_chunk_taken v p)"
proof (cases "po_phase p")
  case (Writing_Chunk c n)
  then obtain key j where run: "running_job p = Some (key, j)" using ok by (auto simp: port_ok_def)
  let ?p = "p\<lparr>po_bytes_sent := po_bytes_sent p + length (next_chunk v n j)\<rparr>"
  have ok': "port_ok ?p" using ok by (rule ok_fields)
  have "moves_well ?p (po_write_chunk v c (n + length (next_chunk v n j)) j ?p)"
    unfolding po_write_chunk_def using chunk_phase_ok [OF ok'] run Writing_Chunk by simp
  moreover have "moves_well ?p (po_end_job key j None ?p)"
    using end_after_begin [OF ok'] run Writing_Chunk by simp
  ultimately have "moves_well ?p (po_chunk_taken v p)"
    using run Writing_Chunk by (simp add: po_chunk_taken_def Let_def)
  then show ?thesis using moves_well_via [of ?p "po_chunk_taken v p" p "snd (po_chunk_taken v p)"] by simp
next
  case (Stalled_Chunk c n)
  then obtain x where run: "running_job p = Some x" using ok by (auto simp: port_ok_def)
  let ?p = "p\<lparr>po_bytes_sent := po_bytes_sent p + n\<rparr>"
  have "port_ok (po_job_over ?p) \<and> request_standing (po_job_over ?p) = request_standing ?p"
    using run Stalled_Chunk by (intro stalled_over_well [OF ok_fields(2) [OF ok]]) auto
  then show ?thesis using run Stalled_Chunk
    by (cases x) (simp add: po_chunk_taken_def moves_well_def stay)
qed (use ok in \<open>simp_all add: po_chunk_taken_def\<close>)

lemma chunk_refused_well:
  assumes ok: "port_ok p"
  shows "moves_well p (po_chunk_refused v reason p)"
proof (cases "po_phase p")
  case (Writing_Chunk c n)
  then obtain key j where run: "running_job p = Some (key, j)" using ok by (auto simp: port_ok_def)
  let ?e = "Some (write_failed_error v reason n j)"
  have "moves_well p (po_end_job key j ?e p)" using end_after_begin [OF ok run Writing_Chunk] by simp
  moreover have "moves_well (p\<lparr>po_connection := None\<rparr>) (po_end_job key j ?e (p\<lparr>po_connection := None\<rparr>))"
    using end_after_begin [OF ok_fields(1) [OF ok]] run Writing_Chunk by simp
  ultimately show ?thesis
    using run Writing_Chunk moves_well_via [of "p\<lparr>po_connection := None\<rparr>"]
    by (cases "po_end_job key j ?e (p\<lparr>po_connection := None\<rparr>)"; cases "po_end_job key j ?e p")
       (fastforce simp: po_chunk_refused_def Let_def moves_well_def)
next
  case (Stalled_Chunk c n)
  then obtain x where run: "running_job p = Some x" using ok by (auto simp: port_ok_def)
  let ?p = "p\<lparr>po_connection := None\<rparr>"
  have "port_ok (po_job_over ?p) \<and> request_standing (po_job_over ?p) = request_standing ?p"
    using run Stalled_Chunk by (intro stalled_over_well [OF ok_fields(1) [OF ok]]) auto
  then show ?thesis using run Stalled_Chunk stalled_over_well [OF ok run Stalled_Chunk]
    by (cases x) (simp add: po_chunk_refused_def Let_def moves_well_def stay)
qed (use ok in \<open>simp_all add: po_chunk_refused_def\<close>)

lemma deadline_well:
  assumes ok: "port_ok p"
  shows "moves_well p (po_chunk_deadline v p)"
proof (cases "po_phase p")
  case (Writing_Chunk c n)
  then obtain key j where run: "running_job p = Some (key, j)" using ok by (auto simp: port_ok_def)
  show ?thesis using chunk_deadline_well [OF ok run Writing_Chunk, of "Some (chunk_timeout_error v n j)"] run Writing_Chunk
    by (simp add: po_chunk_deadline_def split: prod.split) (metis fst_conv snd_conv)
qed (use ok in \<open>simp_all add: po_chunk_deadline_def\<close>)

lemma connection_ends_well:
  assumes ok: "port_ok p"
  shows "port_ok (po_connection_ends p) \<and> request_standing (po_connection_ends p) = request_standing p"
proof (cases "po_phase p")
  case (Stalled_Chunk c n)
  then obtain x where run: "running_job p = Some x" using ok by (auto simp: port_ok_def)
  have "port_ok (po_job_over (p\<lparr>po_connection := None\<rparr>)) \<and>
      request_standing (po_job_over (p\<lparr>po_connection := None\<rparr>)) = request_standing (p\<lparr>po_connection := None\<rparr>)"
    using run Stalled_Chunk by (intro stalled_over_well [OF ok_fields(1) [OF ok]]) auto
  then show ?thesis using ok Stalled_Chunk by (auto simp: po_connection_ends_def split: option.split)
qed (use ok in \<open>auto simp: po_connection_ends_def ok_fields split: option.split\<close>)

lemma let_go_well:
  assumes ok: "port_ok p"
  shows "moves_well p (po_let_go v p)"
proof -
  let ?p = "po_connection_ends (p\<lparr>po_held := False\<rparr>)"
  have "port_ok ?p \<and> request_standing ?p = request_standing p"
    using connection_ends_well [OF ok_fields(4) [OF ok]] by simp
  then show ?thesis
    using moves_well_via [of ?p "po_ask_ends v ?p" p "snd (po_ask_ends v ?p)"] ask_ends_well [of ?p v]
    by (simp add: po_let_go_def)
qed

lemma microtask_well:
  assumes ok: "port_ok p"
  shows "moves_well p (po_microtask p, [])"
proof (cases "wq_start_scheduled (po_queue p) \<and> wq_running (po_queue p) = None \<and> wq_waiting (po_queue p) \<noteq> []")
  case True
  then obtain k j rest where w: "wq_waiting (po_queue p) = (k, j) # rest"
    by (cases "wq_waiting (po_queue p)") auto
  have inv: "om_inv (wq_waiting (po_queue p))" using ok by (simp add: port_ok_def)
  then have del: "om_del k ((k, j) # rest) = rest" using w by (intro om_del_head) (simp add: om_inv_def)
  have p: "po_microtask p = p\<lparr>po_queue := po_queue p\<lparr>wq_start_scheduled := False, wq_waiting := rest,
      wq_running := Some (k, j)\<rparr>, po_phase := Starting\<rparr>"
    using True w del by (simp add: po_microtask_def wq_microtask_def wq_start_next_def queue_phase_def)
  have ph: "po_phase p = No_Job" using ok True by (simp add: port_ok_def running_job_def)
  have live: "live_jobs (po_microtask p) = live_jobs p" using w ph True
    by (simp add: p live_jobs_def running_job_def)
  have "po_awaited p = []" using awaited_running [OF ok] ph by simp
  then have "port_ok (po_microtask p)"
    using ok live w by (auto simp: port_ok_def p running_job_def om_inv_def)
  moreover have "request_standing (po_microtask p) k' = request_standing p k'" for k'
    using True by (cases "standing (po_accepted p) k'") (auto simp: p request_standing_def running_job_def)
  ultimately show ?thesis by (intro moves_well_same) (auto simp: fun_eq_iff)
next
  case False
  let ?q = "(po_queue p)\<lparr>wq_start_scheduled := False\<rparr>"
  have "po_microtask p = p \<or> po_microtask p = p\<lparr>po_queue := ?q\<rparr>"
    using False by (cases "wq_waiting (po_queue p)")
      (auto simp: po_microtask_def wq_microtask_def wq_start_next_def queue_phase_def)
  moreover have "port_ok (p\<lparr>po_queue := ?q\<rparr>)" using ok by (simp add: port_ok_def live_jobs_def running_job_def)
  moreover have "request_standing (p\<lparr>po_queue := ?q\<rparr>) = request_standing p"
    by (simp add: fun_eq_iff request_standing_def running_job_def)
  ultimately show ?thesis using ok by (auto intro: moves_well_same)
qed

lemma request_well:
  assumes ok: "port_ok p"
  shows "moves_well p (po_request v own origin r b p)"
proof -
  let ?k = "key_of origin r"
  have std: "request_standing p ?k = Req_Unknown" if "standing (po_accepted p) ?k = Unknown"
    using that by (simp add: request_standing_def)
  consider "\<not> po_held p"
    | "po_held p" "standing (po_accepted p) ?k = Writing"
    | err where "po_held p" "standing (po_accepted p) ?k = Done err"
    | e where "po_held p" "standing (po_accepted p) ?k = Unknown" "refusal_of_write v r (length b) p = Some e"
    | "po_held p" "standing (po_accepted p) ?k = Unknown" "refusal_of_write v r (length b) p = None"
    by (cases "standing (po_accepted p) ?k") auto
  then show ?thesis
  proof cases
    case 3
    then show ?thesis using ok
      by (auto simp: po_request_def known_iff_standing admit_standing moves_well_def request_standing_def intro: repeat stay)
  next
    case 4
    then show ?thesis using ok std refuse [OF error_outcomes(6) [OF 4(3)]]
      by (auto simp: po_request_def known_iff_standing moves_well_def intro: stay)
  next
    case 5
    let ?j = "\<lparr>pj_origin = origin, pj_request = r, pj_payload = b, pj_own = own, pj_queued_at = pe_monotonic v\<rparr>"
    let ?p = "fst (po_request v own origin r b p)"
    have ip: "?k \<notin> set (aw_in_progress (po_accepted p))" "om_get (aw_finished (po_accepted p)) ?k = None"
      using 5(2) by (auto simp: standing_def split: if_splits option.splits)
    have new: "wq_next_key (po_queue p) \<notin> set (om_keys (wq_waiting (po_queue p)))"
      using ok by (auto simp: port_ok_def)
    have f: "po_accepted ?p = (po_accepted p)\<lparr>aw_in_progress := aw_in_progress (po_accepted p) @ [?k]\<rparr>"
      "wq_waiting (po_queue ?p) = wq_waiting (po_queue p) @ [(wq_next_key (po_queue p), ?j)]"
      "wq_next_key (po_queue ?p) = Suc (wq_next_key (po_queue p))" "running_job ?p = running_job p"
      "po_phase ?p = po_phase p" "po_awaited ?p = po_awaited p" "snd (po_request v own origin r b p) = []"
      using 5 ip new om_set_append [OF new]
      by (simp_all add: po_request_def known_iff_standing admit_standing wq_enqueue_def wq_schedule_start_def
          Let_def running_job_def js_add_def)
    have live: "live_jobs ?p = live_jobs p @ [(wq_next_key (po_queue p), ?j)]"
      by (simp add: live_jobs_def f split: write_phase.split option.split)
    have jk: "job_key ?j = ?k" by (simp add: job_key_def)
    have "aw_ok (po_accepted ?p)" using ok ip by (simp add: f port_ok_def aw_ok_def om_get_None_iff)
    moreover have "?k \<notin> (job_key \<circ> snd) ` set (live_jobs p)" using ok ip(1) unfolding port_ok_def by blast
    moreover have "set (aw_in_progress (po_accepted p)) = (job_key \<circ> snd) ` set (live_jobs p)"
      using ok unfolding port_ok_def by blast
    ultimately have "port_ok ?p" using ok new unfolding port_ok_def live f
      by (simp add: jk om_inv_def om_keys_def f less_Suc_eq image_comp)
    moreover have "request_move (request_standing p k) [] (request_standing ?p k)" for k
    proof (cases "k = ?k")
      case True
      have "state_of Writing (running_job p) (po_phase p) ?k = Req_Queued"
      proof (cases "running_job p")
        case (Some x)
        obtain rk rj where x: "x = (rk, rj)" by fastforce
        have "job_key rj \<noteq> ?k" if "\<And>c n. po_phase p \<noteq> Stalled_Chunk c n"
          using live_running [OF Some that] x job_is_writing [OF ok, of rk rj] 5(2) by auto
        then show ?thesis using Some x by (cases "po_phase p") auto
      qed simp
      then show ?thesis using True std [OF 5(2)]
        by (simp add: request_standing_def f standing_def accept)
    next
      case False
      then have "standing (po_accepted ?p) k = standing (po_accepted p) k" by (simp add: standing_def f)
      then show ?thesis by (simp add: request_standing_def f stay)
    qed
    ultimately show ?thesis by (simp add: moves_well_def f(7))
  qed (use ok in \<open>auto simp: po_request_def known_iff_standing admit_standing\<close>)
qed

lemma po_step_well:
  assumes "port_ok p"
  shows "moves_well p (po_step v ev p)"
proof (cases ev)
  case (Connection_Opens c)
  have "port_ok (po_opened c p)" using assms by (simp add: po_opened_def ok_fields)
  then show ?thesis by (simp add: Connection_Opens moves_well_same po_opened_def)
next
  case Connection_Ends
  then show ?thesis using connection_ends_well [OF assms] by (simp add: moves_well_same)
qed (use assms in \<open>simp_all add: request_well microtask_well job_runs_well approval_well ask_ends_well
       chunk_taken_well chunk_refused_well deadline_well expire_well let_go_well\<close>)

lemma po_init_ok: "0 < n \<Longrightarrow> port_ok (po_init n)"
  by (simp add: port_ok_def po_init_def running_job_def live_jobs_def wq_empty_def aw_ok_def aw_empty_def)

section \<open>Runs\<close>

fun po_run :: "(port_env \<times> port_event) list \<Rightarrow> port_writes \<Rightarrow> port_result" where
  "po_run [] p = (p, [])"
| "po_run ((v, ev) # evs) p =
     (fst (po_run evs (fst (po_step v ev p))), snd (po_step v ev p) @ snd (po_run evs (fst (po_step v ev p))))"

lemma po_run_ok: "port_ok p \<Longrightarrow> port_ok (fst (po_run evs p))"
proof (induction evs arbitrary: p)
  case (Cons a evs)
  then show ?case using po_step_well [OF Cons.prems] by (cases a) (simp add: moves_well_def)
qed simp

text \<open>The reference, over a run: any number of moves of one request.\<close>

inductive request_moves :: "request_state \<Rightarrow> request_label list \<Rightarrow> request_state \<Rightarrow> bool" where
  none: "request_moves s [] s"
| more: "request_move s ls s' \<Longrightarrow> request_moves s' ls' s'' \<Longrightarrow> request_moves s (ls @ ls') s''"

lemma po_run_moves:
  "port_ok p \<Longrightarrow> request_moves (request_standing p k) (labels_of k (snd (po_run evs p))) (request_standing (fst (po_run evs p)) k)"
proof (induction evs arbitrary: p)
  case (Cons a evs)
  obtain v ev where a: "a = (v, ev)" by fastforce
  have w: "moves_well p (po_step v ev p)" using Cons.prems by (rule po_step_well)
  then have "request_moves (request_standing (fst (po_step v ev p)) k)
      (labels_of k (snd (po_run evs (fst (po_step v ev p)))))
      (request_standing (fst (po_run evs (fst (po_step v ev p)))) k)"
    by (intro Cons.IH) (simp add: moves_well_def)
  from more [OF _ this] w show ?case by (simp add: a moves_well_def)
qed (simp add: none)

section \<open>The bytes of a write, and what waits\<close>

lemma next_chunk_drop:
  "next_chunk v n j @ drop (n + length (next_chunk v n j)) (pj_payload j) = drop n (pj_payload j)"
proof -
  have split: "take k xs @ drop (length (take k xs)) xs = xs" for k and xs :: bytes
    by (cases "k \<le> length xs") simp_all
  have "drop (n + l) (pj_payload j) = drop l (drop n (pj_payload j))" for l
    by (simp add: add.commute)
  then show ?thesis using split [of "pe_chunk_bytes v" "drop n (pj_payload j)"]
    by (simp add: next_chunk_def del: drop_drop)
qed

fun chunk_bytes :: "port_effect list \<Rightarrow> bytes" where
  "chunk_bytes [] = []"
| "chunk_bytes (Chunk_Out c b # es) = b @ chunk_bytes es"
| "chunk_bytes (_ # es) = chunk_bytes es"

lemma chunk_bytes_append [simp]: "chunk_bytes (es @ es') = chunk_bytes es @ chunk_bytes es'"
  by (induction es rule: chunk_bytes.induct) simp_all

lemma answer_chunks [simp]: "chunk_bytes (snd (po_answer key j err p)) = []"
  by (simp add: po_answer_def)

lemma chunks_taken:
  assumes "po_phase p = Writing_Chunk c n" and "running_job p = Some (key, j)" and "0 < pe_chunk_bytes v"
  shows "\<exists>m \<le> Suc (length (pj_payload j) - n).
    next_chunk v n j @ chunk_bytes (snd (po_run (replicate m (v, Chunk_Taken)) p)) = drop n (pj_payload j) \<and>
    Write_Finished (pj_origin j) (pj_request j) None \<in> set (snd (po_run (replicate m (v, Chunk_Taken)) p))"
  using assms
proof (induction "length (pj_payload j) - n" arbitrary: n p rule: less_induct)
  case less
  let ?l = "length (next_chunk v n j)"
  show ?case
  proof (cases "n + ?l < length (pj_payload j)")
    case False
    then have "po_step v Chunk_Taken p = po_end_job key j None (p\<lparr>po_bytes_sent := po_bytes_sent p + ?l\<rparr>)"
      using less.prems by (simp add: po_chunk_taken_def Let_def)
    then have "snd (po_run (replicate 1 (v, Chunk_Taken)) p) =
        snd (po_answer key j None (p\<lparr>po_bytes_sent := po_bytes_sent p + ?l\<rparr>))"
      by (simp add: end_job_forms)
    moreover have "next_chunk v n j = drop n (pj_payload j)"
      using next_chunk_drop [of v n j] False by simp
    ultimately show ?thesis
      by (intro exI [of _ 1]) (simp add: po_answer_def)
  next
    case True
    have pos: "0 < ?l" using True less.prems(3) by (auto simp: next_chunk_def)
    let ?p = "p\<lparr>po_bytes_sent := po_bytes_sent p + ?l, po_phase := Writing_Chunk c (n + ?l)\<rparr>"
    have step: "po_step v Chunk_Taken p = (?p, [Chunk_Out c (next_chunk v (n + ?l) j)])"
      using True less.prems by (simp add: po_chunk_taken_def po_write_chunk_def Let_def)
    have run: "po_phase ?p = Writing_Chunk c (n + ?l)" "running_job ?p = Some (key, j)"
      using less.prems(2) by (simp_all add: running_job_def)
    have dec: "length (pj_payload j) - (n + ?l) < length (pj_payload j) - n" using True pos by linarith
    obtain m where m: "m \<le> Suc (length (pj_payload j) - (n + ?l))"
      "next_chunk v (n + ?l) j @ chunk_bytes (snd (po_run (replicate m (v, Chunk_Taken)) ?p)) = drop (n + ?l) (pj_payload j)"
      "Write_Finished (pj_origin j) (pj_request j) None \<in> set (snd (po_run (replicate m (v, Chunk_Taken)) ?p))"
      using less.hyps [OF dec run less.prems(3)] by blast
    have "snd (po_run (replicate (Suc m) (v, Chunk_Taken)) p) =
        Chunk_Out c (next_chunk v (n + ?l) j) # snd (po_run (replicate m (v, Chunk_Taken)) ?p)"
      by (simp add: step del: po_step.simps)
    moreover have "Suc m \<le> Suc (length (pj_payload j) - n)" using m(1) pos True by linarith
    ultimately show ?thesis using m next_chunk_drop [of v n j]
      by (intro exI [of _ "Suc m"]) simp
  qed
qed

text \<open>What waits is bounded.\<close>

definition unanswered_bytes :: "port_writes \<Rightarrow> nat" where
  "unanswered_bytes p = sum_list (map snd (po_unanswered p))"

lemma sum_om_del: "sum_list (map snd (om_del k m)) \<le> sum_list (map (snd :: 'a \<times> nat \<Rightarrow> nat) m)"
  by (induction m) (auto simp: om_del_def)

lemma length_om_del_le: "length (om_del k m) \<le> length m"
  by (simp add: om_del_def)

definition holds_bounded :: "port_writes \<Rightarrow> bool" where
  "holds_bounded p \<longleftrightarrow> length (po_unanswered p) \<le> max_waiting_writes \<and> unanswered_bytes p \<le> max_waiting_write_bytes"

lemma holds_bounded_same: "holds_bounded p \<Longrightarrow> po_unanswered p' = po_unanswered p \<Longrightarrow> holds_bounded p'"
  by (simp add: holds_bounded_def unanswered_bytes_def)

lemma holds_bounded_del: "holds_bounded p \<Longrightarrow> po_unanswered p' = om_del k (po_unanswered p) \<Longrightarrow> holds_bounded p'"
  using sum_om_del [of k "po_unanswered p"] length_om_del_le [of k "po_unanswered p"]
  unfolding holds_bounded_def unanswered_bytes_def by simp

lemma job_over_unanswered [simp]: "po_unanswered (po_job_over p) = po_unanswered p"
  by (simp add: po_job_over_def split: prod.split)

lemma end_job_bounded: "holds_bounded p \<Longrightarrow> holds_bounded (fst (po_end_job key j err p))"
  by (rule holds_bounded_del [of p _ key]) (simp_all add: end_job_forms po_answer_def)

lemma answered_bounded: "holds_bounded p \<Longrightarrow> holds_bounded (fst (po_answered v a key j p))"
  by (auto simp: po_answered_def end_job_bounded po_write_chunk_def split: option.split intro: holds_bounded_same)

lemma connection_ends_unanswered: "po_unanswered (po_connection_ends p) = po_unanswered p"
  by (simp add: po_connection_ends_def split: option.split write_phase.split)

lemma ask_ends_bounded: "holds_bounded p \<Longrightarrow> holds_bounded (fst (po_ask_ends v p))"
  by (simp add: po_ask_ends_def answered_bounded split: write_phase.split option.split prod.split)

lemma om_set_sum: "sum_list (map snd (om_set k (v::nat) m)) \<le> sum_list (map snd m) + v"
  by (induction k v m rule: om_set.induct) auto

lemma om_set_length: "length (om_set k v m) \<le> Suc (length m)"
  by (induction k v m rule: om_set.induct) auto

lemma request_bounded:
  assumes "holds_bounded p"
  shows "holds_bounded (fst (po_request v own origin r b p))"
proof (cases "po_held p \<and> standing (po_accepted p) (key_of origin r) = Unknown \<and> refusal_of_write v r (length b) p = None")
  case True
  let ?u = "po_unanswered p"
  have "po_unanswered (fst (po_request v own origin r b p)) = om_set (wq_next_key (po_queue p)) (length b) ?u"
    using True by (simp add: po_request_def known_iff_standing admit_standing wq_enqueue_def Let_def)
  moreover have "length ?u < max_waiting_writes \<and> sum_list (map snd ?u) + length b \<le> max_waiting_write_bytes"
    using True by (simp add: refusal_of_write_def Let_def split: if_splits)
  ultimately show ?thesis
    using om_set_sum [of "wq_next_key (po_queue p)" "length b" ?u] om_set_length [of "wq_next_key (po_queue p)" "length b" ?u]
    unfolding holds_bounded_def unanswered_bytes_def by simp
next
  case False
  then have "fst (po_request v own origin r b p) = p"
    by (auto simp: po_request_def known_iff_standing admit_standing split: standing.split option.split)
  then show ?thesis using assms by simp
qed

lemma po_step_bounded:
  assumes "holds_bounded p"
  shows "holds_bounded (fst (po_step v ev p))"
proof (cases ev)
  case (Job_Runs a)
  then show ?thesis using assms
    by (auto simp: po_job_runs_def end_job_bounded answered_bounded split: write_phase.split option.split prod.split
        intro: holds_bounded_same) (metis answered_bounded fst_conv)
next
  case (Approval_Heard c r a)
  have "holds_bounded (p\<lparr>po_awaited := ks\<rparr>)" for ks using assms by (rule holds_bounded_same) simp
  then show ?thesis using assms Approval_Heard
    by (auto simp: po_approval_def Let_def answered_bounded split: write_phase.split option.split)
next
  case Chunk_Taken
  have "holds_bounded (p\<lparr>po_bytes_sent := n\<rparr>)" for n using assms by (rule holds_bounded_same) simp
  then show ?thesis using assms Chunk_Taken
    by (auto simp: po_chunk_taken_def Let_def end_job_bounded po_write_chunk_def
        split: write_phase.split option.split intro: holds_bounded_same)
next
  case (Chunk_Refused reason)
  have "holds_bounded (p\<lparr>po_connection := c\<rparr>)" for c using assms by (rule holds_bounded_same) simp
  then show ?thesis using assms Chunk_Refused
    by (auto simp: po_chunk_refused_def Let_def split: write_phase.split option.split prod.split
        intro: holds_bounded_same) (metis end_job_bounded fst_conv)+
next
  case Chunk_Deadline
  have "holds_bounded ((fst (po_answer key j err p))\<lparr>po_phase := ph\<rparr>)" for key j err ph
    using assms by (rule holds_bounded_del [where k = key]) (simp add: po_answer_def)
  then show ?thesis using assms Chunk_Deadline
    by (auto simp: po_chunk_deadline_def split: write_phase.split option.split prod.split) (metis fst_conv)
next
  case (Job_Expires key)
  have "holds_bounded (fst (po_answer key j err (p\<lparr>po_queue := q\<rparr>)))" for j err q
    using assms by (rule holds_bounded_del [where k = key]) (simp add: po_answer_def)
  then show ?thesis using assms Job_Expires
    by (auto simp: po_expire_def split: option.split prod.split)
next
  case Let_Go
  have "holds_bounded (po_connection_ends (p\<lparr>po_held := False\<rparr>))"
    using assms by (rule holds_bounded_same) (simp add: connection_ends_unanswered)
  then show ?thesis using Let_Go by (simp add: po_let_go_def ask_ends_bounded)
next
  case Microtask_Runs
  then show ?thesis using assms
    by (auto simp: po_microtask_def split: prod.split intro: holds_bounded_same)
qed (use assms in \<open>auto simp: request_bounded ask_ends_bounded po_opened_def connection_ends_unanswered
       intro: holds_bounded_same\<close>)

lemma po_run_bounded: "holds_bounded p \<Longrightarrow> holds_bounded (fst (po_run evs p))"
proof (induction evs arbitrary: p)
  case (Cons a evs)
  then show ?case by (cases a) (simp add: po_step_bounded)
qed simp

section \<open>What the component promises\<close>

text \<open>
  C20. The writes at the port refine the life of a single request: whatever happens there - requests,
  repeats, refusals, approvals, lost connections, deadlines, stalled chunks, letting go - every
  request moves, with what is sent about it, only as \<open>request_move\<close> allows. So a request is begun only
  from the queue or on an answer, ends once for each time it was accepted, and one that ended
  otherwise than \<open>NOT_CONNECTED\<close> is answered from the record and never begun again while it is
  remembered.
\<close>

theorem port_refines_request:
  assumes "0 < n"
  shows "request_moves Req_Unknown (labels_of k (snd (po_run evs (po_init n))))
    (request_standing (fst (po_run evs (po_init n))) k)"
  using po_run_moves [OF po_init_ok [OF assms], of k evs]
  by (simp add: request_standing_def po_init_def standing_def aw_empty_def)

lemma port_refines_request_witness:
  "request_moves Req_Unknown [] (request_standing (po_init 1) ''tab w1'')"
  using port_refines_request [of 1 "''tab w1''" "[]"] by simp

definition begins_on_yes :: "port_writes \<Rightarrow> port_event \<Rightarrow> client_id \<Rightarrow> request_id \<Rightarrow> bool" where
  "begins_on_yes p ev origin r =
     (po_connection p \<noteq> None \<and>
      (case running_job p of
         None \<Rightarrow> False
       | Some (key, j) \<Rightarrow> pj_origin j = origin \<and> pj_request j = r \<and>
           (if pj_own j then po_phase p = Starting \<and> ev = Job_Runs True
            else po_phase p = Asking_Issuer \<and>
              (\<exists>from_tab r'. ev = Approval_Heard from_tab r' True \<and> key_of from_tab r' = job_key j))))"

lemma begun_effect [simp]:
  "Write_Begun origin r \<notin> set (snd (po_end_job key j err p))"
  "Write_Begun origin r \<notin> set (snd (po_answer key j err p))"
  by (simp_all add: end_job_forms po_answer_def)

lemma begun_effect_pair:
  "po_end_job key j err p = (p', es) \<Longrightarrow> Write_Begun origin r \<notin> set es"
  "po_answer key j err p = (p', es) \<Longrightarrow> Write_Begun origin r \<notin> set es"
  using begun_effect [of origin r key j err p] by simp_all

lemma answered_begun:
  "Write_Begun origin r \<in> set (snd (po_answered v a key j p)) \<Longrightarrow>
    a \<and> po_connection p \<noteq> None \<and> pj_origin j = origin \<and> pj_request j = r"
  by (auto simp: po_answered_def po_write_chunk_def split: option.splits if_splits)

text \<open>
  C21. The port begins a write only for its running job, with the port open, and only on a yes: for
  a write of another tab on an approval that is heard while it asks and that answers this request,
  for a write of its own on its own tab's yes, given at the moment it asks.
\<close>

theorem write_begins_on_yes:
  assumes "0 < n" and "Write_Begun origin r \<in> set (snd (po_step v ev (fst (po_run evs (po_init n)))))"
  shows "begins_on_yes (fst (po_run evs (po_init n))) ev origin r"
proof -
  let ?p = "fst (po_run evs (po_init n))"
  have ok: "port_ok ?p" by (intro po_run_ok po_init_ok assms)
  have awaited: "pj_own j = False \<and> k = job_key j"
    if "k \<in> set (po_awaited ?p)" "running_job ?p = Some (key, j)" for k key j
    using ok that by (auto simp: port_ok_def)
  show ?thesis
  proof (cases ev)
    case (Approval_Heard c r' a)
    then show ?thesis using assms(2) awaited
      by (auto simp: po_approval_def Let_def begins_on_yes_def running_job_def split: if_splits write_phase.splits option.splits
          dest!: answered_begun)
  next
    case (Job_Runs a)
    then show ?thesis using assms(2)
      by (auto simp: po_job_runs_def begins_on_yes_def split: if_splits write_phase.splits option.splits prod.splits
          dest!: answered_begun) (metis answered_begun snd_conv)+
  next
    case (Chunk_Refused reason)
    then have False using assms(2)
      by (auto simp: po_chunk_refused_def Let_def begun_effect_pair split: write_phase.splits option.splits prod.splits if_splits)
    then show ?thesis ..
  next
    case Chunk_Deadline
    then have False using assms(2)
      by (auto simp: po_chunk_deadline_def begun_effect_pair split: write_phase.splits option.splits prod.splits if_splits)
    then show ?thesis ..
  qed (use assms(2) in \<open>auto simp: po_request_def po_ask_ends_def po_chunk_taken_def
         po_expire_def po_let_go_def po_write_chunk_def Let_def
         split: if_splits write_phase.splits option.splits prod.splits admission.splits
         dest!: answered_begun\<close>)
qed

definition ends_question :: "string \<Rightarrow> port_event \<Rightarrow> bool" where
  "ends_question k ev = (case ev of Ask_Ends \<Rightarrow> True | Let_Go \<Rightarrow> True
     | Approval_Heard c r a \<Rightarrow> key_of c r = k | _ \<Rightarrow> False)"

text \<open>
  A question stays open until it is answered or given up: while the port asks the issuer whether
  a write may begin, only the answer to this write, the end of the wait (its timer) or letting go of
  the port ends the question; nothing else - a lost connection, other requests, other answers -
  moves the queue on.
\<close>

theorem question_stays_open:
  assumes "0 < n" and "po_phase (fst (po_run evs (po_init n))) = Asking_Issuer"
    and "running_job (fst (po_run evs (po_init n))) = Some (key, j)" and "\<not> ends_question (job_key j) ev"
  shows "let p' = fst (po_step v ev (fst (po_run evs (po_init n)))) in
    po_phase p' = Asking_Issuer \<and> running_job p' = Some (key, j)"
proof -
  define p where "p = fst (po_run evs (po_init n))"
  have ok: "port_ok p" unfolding p_def by (intro po_run_ok po_init_ok assms)
  have st: "po_phase p = Asking_Issuer" "running_job p = Some (key, j)" using assms by (simp_all add: p_def)
  have "po_phase (fst (po_step v ev p)) = Asking_Issuer \<and> running_job (fst (po_step v ev p)) = Some (key, j)"
  proof (cases ev)
    case (Write_Request own origin r b)
    then show ?thesis using st
      by (auto simp: po_request_def running_job_def wq_enqueue_def wq_schedule_start_def Let_def
          split: option.split admission.split prod.split)
  next
    case (Approval_Heard c r a)
    then have "key_of c r \<notin> set (po_awaited p)" using assms(4) ok st by (auto simp: ends_question_def port_ok_def)
    then show ?thesis using st Approval_Heard by (simp add: po_approval_def)
  next
    case (Job_Expires k)
    then show ?thesis using st
      by (auto simp: po_expire_def po_answer_def wq_withdraw_def running_job_def split: option.split)
  next
    case Microtask_Runs
    then show ?thesis using st
      by (auto simp: po_microtask_def wq_microtask_def wq_start_next_def running_job_def queue_phase_def)
  next
    case Connection_Ends
    then show ?thesis using st by (simp add: po_connection_ends_def running_job_def split: option.split)
  qed (use st assms(4) in \<open>simp_all add: po_job_runs_def po_chunk_taken_def po_chunk_refused_def po_chunk_deadline_def
         po_opened_def ends_question_def running_job_def\<close>)
  then show ?thesis by (simp add: p_def Let_def)
qed

text \<open>
  C22. A write puts exactly its payload on the connection: if the device takes every chunk, the chunks
  sent from the one in flight on are, in order, the rest of the payload, and after at most one step
  per byte left and one more the write is reported finished without an error.
\<close>

theorem write_sends_its_payload:
  assumes "po_phase p = Writing_Chunk c written" and "running_job p = Some (key, j)" and "0 < pe_chunk_bytes v"
  shows "\<exists>m \<le> Suc (length (pj_payload j) - written).
    let es = snd (po_run (replicate m (v, Chunk_Taken)) p) in
    next_chunk v written j @ chunk_bytes es = drop written (pj_payload j) \<and>
    Write_Finished (pj_origin j) (pj_request j) None \<in> set es"
  using chunks_taken [OF assms] by (simp add: Let_def)

text \<open>
  What waits at the port is bounded: over any events at most \<open>MAX_WAITING_WRITES\<close> writes, and at
  most \<open>MAX_WAITING_WRITE_BYTES\<close> bytes of payload, have been accepted and not answered.
\<close>

theorem port_holds_bounded:
  "length (po_unanswered (fst (po_run evs (po_init n)))) \<le> 4096 \<and>
   unanswered_bytes (fst (po_run evs (po_init n))) \<le> 64 * 1024 * 1024"
  using po_run_bounded [of "po_init n" evs]
  by (simp add: holds_bounded_def unanswered_bytes_def po_init_def max_waiting_writes_def
      max_waiting_write_bytes_def max_payload_bytes_def)

definition ends_stall :: "port_event \<Rightarrow> bool" where
  "ends_stall ev = (case ev of Chunk_Taken \<Rightarrow> True | Chunk_Refused r \<Rightarrow> True | Connection_Ends \<Rightarrow> True
     | Let_Go \<Rightarrow> True | _ \<Rightarrow> False)"

lemma stalled_stays:
  assumes "po_phase p = Stalled_Chunk c n" and "running_job p \<noteq> None" and "\<not> ends_stall ev"
  shows "po_phase (fst (po_step v ev p)) = Stalled_Chunk c n \<and> running_job (fst (po_step v ev p)) = running_job p \<and>
    \<not> list_ex (\<lambda>e. \<exists>origin r. e = Write_Begun origin r) (snd (po_step v ev p))"
proof (cases ev)
  case (Write_Request own origin r b)
  then show ?thesis using assms
    by (auto simp: po_request_def running_job_def wq_enqueue_def wq_schedule_start_def Let_def
        split: option.split admission.split prod.split)
next
  case (Approval_Heard c' r a)
  then show ?thesis using assms by (simp add: po_approval_def Let_def running_job_def)
next
  case (Job_Expires key)
  then show ?thesis using assms
    by (auto simp: po_expire_def po_answer_def wq_withdraw_def running_job_def split: option.split)
next
  case Microtask_Runs
  then show ?thesis using assms
    by (auto simp: po_microtask_def wq_microtask_def wq_start_next_def running_job_def queue_phase_def)
qed (use assms in \<open>simp_all add: po_job_runs_def po_ask_ends_def po_chunk_deadline_def po_opened_def
       ends_stall_def running_job_def split: option.split\<close>)

text \<open>
  A chunk whose connection ended before the chunk's deadline holds the queue across the
  reconnect: once its deadline has passed, with a new connection open, no sequence of requests,
  approvals, answers and deadlines begins another write - only the chunk's own end, the end of the
  new connection, or letting go of the port moves the queue on.
\<close>

theorem ended_chunk_holds_queue:
  assumes "po_phase p = Writing_Chunk c written" and "running_job p = Some (key, j)" and "po_connection p = None"
    and "\<forall>(v, ev) \<in> set evs. \<not> ends_stall ev"
  shows "let p' = fst (po_run ((v, Connection_Opens c') # (v, Chunk_Deadline) # evs) p) in
    (\<exists>n. po_phase p' = Stalled_Chunk c n) \<and>
    \<not> list_ex (\<lambda>e. \<exists>origin r. e = Write_Begun origin r) (snd (po_run evs (fst (po_run [(v, Connection_Opens c'), (v, Chunk_Deadline)] p))))"
proof -
  let ?p = "fst (po_run [(v, Connection_Opens c'), (v, Chunk_Deadline)] p)"
  have start: "\<exists>n. po_phase ?p = Stalled_Chunk c n" "running_job ?p \<noteq> None"
    using assms(1-3) by (simp_all add: po_opened_def po_chunk_deadline_def po_answer_def running_job_def)
  have "(\<exists>n. po_phase (fst (po_run evs q)) = Stalled_Chunk c n) \<and>
      \<not> list_ex (\<lambda>e. \<exists>origin r. e = Write_Begun origin r) (snd (po_run evs q))"
    if "\<exists>n. po_phase q = Stalled_Chunk c n" "running_job q \<noteq> None" for q
    using that assms(4)
  proof (induction evs arbitrary: q)
    case (Cons a evs)
    obtain w ev where a: "a = (w, ev)" by fastforce
    obtain n where n: "po_phase q = Stalled_Chunk c n" using Cons.prems(1) by blast
    have "\<not> ends_stall ev" using Cons.prems(3) a by simp
    from stalled_stays [OF n Cons.prems(2) this, of w] show ?case
      using Cons.IH [of "fst (po_step w ev q)"] Cons.prems by (simp add: a)
  qed simp
  from this [OF start] show ?thesis by (simp add: Let_def)
qed

section \<open>The properties on a concrete port\<close>

definition sample_env :: port_env where
  "sample_env = \<lparr>pe_config = ''scale'', pe_write_timeout = 5000, pe_chunk_bytes = 2, pe_now = 0,
     pe_monotonic = 0, pe_status = ''open''\<rparr>"

definition sample_job :: port_job where
  "sample_job = \<lparr>pj_origin = ''tab'', pj_request = ''w1'', pj_payload = [1, 2, 3], pj_own = True, pj_queued_at = 0\<rparr>"

definition sample_begins :: "(port_env \<times> port_event) list" where
  "sample_begins = map (Pair sample_env)
     [Connection_Opens 1, Write_Request True ''tab'' ''w1'' [1, 2, 3], Microtask_Runs, Job_Runs True]"

definition sample_port :: port_writes where
  "sample_port = fst (po_run sample_begins (po_init 10))"

lemma sample_port_state:
  "po_phase sample_port = Writing_Chunk 1 0 \<and> running_job sample_port = Some (0, sample_job) \<and>
   po_connection sample_port = Some 1"
  by (simp add: sample_port_def sample_begins_def sample_env_def sample_job_def po_init_def wq_empty_def
      aw_empty_def po_opened_def po_request_def aw_is_known_def refusal_of_write_def Let_def
      max_waiting_writes_def max_waiting_write_bytes_def max_payload_bytes_def aw_admit_def wq_enqueue_def
      wq_schedule_start_def po_microtask_def wq_microtask_def wq_start_next_def queue_phase_def
      po_job_runs_def running_job_def po_answered_def po_write_chunk_def)

definition sample_asks :: "(port_env \<times> port_event) list" where
  "sample_asks = map (Pair sample_env)
     [Connection_Opens 1, Write_Request False ''tab'' ''w1'' [1, 2, 3], Microtask_Runs, Job_Runs False]"

lemma question_stays_open_witness:
  "po_phase (fst (po_step sample_env Connection_Ends (fst (po_run sample_asks (po_init 10))))) = Asking_Issuer"
proof -
  have "po_phase (fst (po_run sample_asks (po_init 10))) = Asking_Issuer \<and>
      (\<exists>key j. running_job (fst (po_run sample_asks (po_init 10))) = Some (key, j))"
    by (simp add: sample_asks_def sample_env_def po_init_def wq_empty_def
      aw_empty_def po_opened_def po_request_def aw_is_known_def refusal_of_write_def Let_def
      max_waiting_writes_def max_waiting_write_bytes_def max_payload_bytes_def aw_admit_def wq_enqueue_def
      wq_schedule_start_def po_microtask_def wq_microtask_def wq_start_next_def queue_phase_def
      po_job_runs_def running_job_def)
  then show ?thesis using question_stays_open [of 10 sample_asks _ _ Connection_Ends sample_env]
    by (auto simp: ends_question_def Let_def)
qed

lemma write_begins_on_yes_witness:
  "begins_on_yes (fst (po_run sample_asks (po_init 10))) (Approval_Heard ''tab'' ''w1'' True) ''tab'' ''w1''"
proof -
  have "Write_Begun ''tab'' ''w1'' \<in> set (snd (po_step sample_env (Approval_Heard ''tab'' ''w1'' True)
      (fst (po_run sample_asks (po_init 10)))))"
    by (simp add: sample_asks_def sample_env_def po_init_def wq_empty_def
      aw_empty_def po_opened_def po_request_def aw_is_known_def refusal_of_write_def Let_def
      max_waiting_writes_def max_waiting_write_bytes_def max_payload_bytes_def aw_admit_def wq_enqueue_def
      wq_schedule_start_def po_microtask_def wq_microtask_def wq_start_next_def queue_phase_def
      po_job_runs_def running_job_def po_answered_def po_write_chunk_def po_approval_def job_key_def js_add_def)
  from write_begins_on_yes [OF _ this] show ?thesis by simp
qed

lemma write_sends_its_payload_witness:
  "\<exists>m \<le> 4. next_chunk sample_env 0 sample_job @
     chunk_bytes (snd (po_run (replicate m (sample_env, Chunk_Taken)) sample_port)) = [1, 2, 3]"
  using write_sends_its_payload [of sample_port 1 0 0 sample_job sample_env] sample_port_state
  by (auto simp: sample_env_def sample_job_def Let_def eval_nat_numeral)

lemma ended_chunk_holds_queue_witness:
  "\<exists>n. po_phase (fst (po_run [(sample_env, Connection_Opens 2), (sample_env, Chunk_Deadline),
     (sample_env, Write_Request True ''tab'' ''w2'' [4]), (sample_env, Microtask_Runs)]
     (fst (po_run [(sample_env, Connection_Ends)] sample_port)))) = Stalled_Chunk 1 n"
  using ended_chunk_holds_queue [of "fst (po_run [(sample_env, Connection_Ends)] sample_port)" 1 0 0 sample_job
      "[(sample_env, Write_Request True ''tab'' ''w2'' [4]), (sample_env, Microtask_Runs)]" sample_env 2]
    sample_port_state
  by (simp add: po_connection_ends_def ends_stall_def Let_def)

end
