(* ===== verification/Delivery.thy ===== *)
theory Delivery
  imports Pending_Writes Port_Writes
begin

text \<open>
  One write, from the tab that issues it to the tabs that hold the port: the composition of
  \<open>client/pending-writes.ts\<close> (the issuer), \<open>client/configuration-session.ts\<close> (who sends what to
  whom) and \<open>owner/port-supervisor.ts\<close> (the port), for any number of terms, crashes and messages
  lost.

  The issuer is its entry in the pending writes, which \<open>entry_step\<close> moves; the port in each term is
  one of the states of \<open>request_move\<close>, which theory \<open>Port_Writes\<close> shows its operations to refine.
  What one tab posts to another arrives in the order it was posted, or not at all. A term's port
  hears nothing more once its tab let go of the port (\<open>#stopBeingOwner\<close>) or is gone.

  A write of the tab that holds the port goes no way over the bus: its messages are taken in the
  turn they are made, which is one of the orders below, and its beginning is \<open>own_write\<close>.
\<close>

section \<open>State\<close>

datatype to_port = Request_Msg | Approval_Msg bool

datatype from_port = Ready_Msg | Result_Msg "sb_error option"

record delivery =
  dv_entry :: "pending_write option"
  dv_issued :: bool
  dv_port :: "term_id \<Rightarrow> request_state"
  dv_to :: "term_id \<Rightarrow> to_port list"
  dv_from :: "term_id \<Rightarrow> from_port list"
  dv_closed :: "term_id set"
  dv_gone :: "term_id set"
  dv_begun :: "term_id list"
  dv_settled :: "sb_error option list"

definition dv_init :: delivery where
  "dv_init = \<lparr>dv_entry = None, dv_issued = False, dv_port = (\<lambda>t. Req_Unknown), dv_to = (\<lambda>t. []),
     dv_from = (\<lambda>t. []), dv_closed = {}, dv_gone = {}, dv_begun = [], dv_settled = []\<rparr>"

definition active :: "delivery \<Rightarrow> term_id \<Rightarrow> bool" where
  "active s t \<longleftrightarrow> t \<notin> dv_closed s \<and> t \<notin> dv_gone s"

section \<open>Steps\<close>

text \<open>What the issuer's effects put on the way: \<open>#dispatchWrite\<close> addresses the term's holder.\<close>

fun posted :: "term_id \<Rightarrow> pw_effect list \<Rightarrow> to_port list" where
  "posted t [] = []"
| "posted t (Dispatched r b t' # es) = (if t' = t then Request_Msg # posted t es else posted t es)"
| "posted t (Settled r err # es) = posted t es"

fun outcomes :: "pw_effect list \<Rightarrow> sb_error option list" where
  "outcomes [] = []"
| "outcomes (Dispatched r b t # es) = outcomes es"
| "outcomes (Settled r err # es) = err # outcomes es"

definition dv_issuer :: "pending_write option \<times> pw_effect list \<Rightarrow> delivery \<Rightarrow> delivery" where
  "dv_issuer x s = s\<lparr>dv_entry := fst x, dv_to := (\<lambda>t. dv_to s t @ posted t (snd x)),
     dv_settled := dv_settled s @ outcomes (snd x)\<rparr>"

text \<open>What a move of the port puts on the way: \<open>write-ready\<close> and \<open>write-result\<close>.\<close>

fun answers :: "request_label list \<Rightarrow> from_port list" where
  "answers [] = []"
| "answers (Asked # ls) = Ready_Msg # answers ls"
| "answers (Begun # ls) = answers ls"
| "answers (Answered err # ls) = Result_Msg err # answers ls"

definition dv_moves :: "term_id \<Rightarrow> request_label list \<Rightarrow> request_state \<Rightarrow> delivery \<Rightarrow> delivery" where
  "dv_moves t ls q s = s\<lparr>dv_port := (dv_port s)(t := q), dv_from := (dv_from s)(t := dv_from s t @ answers ls),
     dv_begun := dv_begun s @ (if Begun \<in> set ls then [t] else [])\<rparr>"

definition takes_to :: "term_id \<Rightarrow> to_port list \<Rightarrow> delivery \<Rightarrow> delivery" where
  "takes_to t ms s = s\<lparr>dv_to := (dv_to s)(t := ms)\<rparr>"

definition takes_from :: "term_id \<Rightarrow> from_port list \<Rightarrow> delivery \<Rightarrow> delivery" where
  "takes_from t ms s = s\<lparr>dv_from := (dv_from s)(t := ms)\<rparr>"

text \<open>The events of the issuer that no message of a port brings.\<close>

definition says_not_begun :: "sb_error option \<Rightarrow> bool" where
  "says_not_begun err = (case err of None \<Rightarrow> False
     | Some e \<Rightarrow> reported_started e = Some False \<or> err_code e = WRITE_QUEUE_FULL)"

definition true_view :: "delivery \<Rightarrow> host_view \<Rightarrow> bool" where
  "true_view s h \<longleftrightarrow> (\<forall>t. is_term_ended h t \<longrightarrow> t \<in> dv_gone s)"

fun local_event :: "delivery \<Rightarrow> pw_event \<Rightarrow> bool" where
  "local_event s (Term_Ended t) = (t \<in> dv_gone s)"
| "local_event s Resend_Unstarted = True"
| "local_event s Dispatch_Waiting = True"
| "local_event s (Deadline_Fires r) = True"
| "local_event s (Fail_All e) = (\<not> says_not_begun (Some e))"
| "local_event s _ = False"

text \<open>The questions still open with the port in term \<open>t\<close>, asked or answered, and on their way.\<close>

fun is_approval :: "to_port \<Rightarrow> bool" where
  "is_approval (Approval_Msg b) = True"
| "is_approval Request_Msg = False"

definition open_questions :: "delivery \<Rightarrow> term_id \<Rightarrow> nat" where
  "open_questions s t = length (filter (\<lambda>m. m = Ready_Msg) (dv_from s t)) + length (filter is_approval (dv_to s t))"

text \<open>
  A request heard again while the write waits or runs, and an answer nobody awaits, are dropped: for
  the write that is the loss of the message.

  \<open>timely\<close> says that the bus answers within the port's wait: the wait for an answer ends without one
  only when neither the question nor an answer is on its way. It says nothing else: the port may
  forget the outcome of a write at any time, as \<open>AcceptedWrites\<close> does once it has finished more writes
  than it keeps.
\<close>

definition may_leave :: "bool \<Rightarrow> delivery \<Rightarrow> term_id \<Rightarrow> request_state \<Rightarrow> bool" where
  "may_leave timely s t q \<longleftrightarrow> timely \<longrightarrow>
     (dv_port s t = Req_Asking \<and> q \<noteq> Req_Asking \<longrightarrow> \<not> active s t \<or> open_questions s t = 0)"

inductive dv_step :: "request_id \<Rightarrow> bool \<Rightarrow> delivery \<Rightarrow> delivery \<Rightarrow> bool"
  for r :: request_id and timely :: bool where
  issue: "\<not> dv_issued s \<Longrightarrow> true_view s h \<Longrightarrow>
    dv_step r timely s (dv_issuer (entry_step h (Add r b) r None) (s\<lparr>dv_issued := True\<rparr>))"
| issuer_acts: "true_view s h \<Longrightarrow> local_event s ev \<Longrightarrow>
    dv_step r timely s (dv_issuer (entry_step h ev r (dv_entry s)) s)"
| asked: "dv_from s t = Ready_Msg # ms \<Longrightarrow>
    dv_step r timely s
      (takes_to t (dv_to s t @ [Approval_Msg (\<exists>p. dv_entry s = Some p \<and> pw_addressed p = Some t)])
        (takes_from t ms (dv_issuer (entry_step h (Approve r t) r (dv_entry s)) s)))"
| answered: "dv_from s t = Result_Msg err # ms \<Longrightarrow> true_view s h \<Longrightarrow>
    dv_step r timely s (dv_issuer (entry_step h (Result r (Some t) err) r (dv_entry s)) (takes_from t ms s))"
| hears_request: "dv_to s t = Request_Msg # ms \<Longrightarrow> active s t \<Longrightarrow>
    request_move (dv_port s t) ls q \<Longrightarrow> dv_port s t = Req_Unknown \<or> dv_port s t = Req_Done err \<Longrightarrow>
    dv_step r timely s (dv_moves t ls q (takes_to t ms s))"
| hears_answer: "dv_to s t = Approval_Msg b # ms \<Longrightarrow> active s t \<Longrightarrow> dv_port s t = Req_Asking \<Longrightarrow>
    request_move Req_Asking ls q \<Longrightarrow> (Begun \<in> set ls \<longrightarrow> b) \<Longrightarrow> q \<noteq> Req_Asking \<Longrightarrow>
    dv_step r timely s (dv_moves t ls q (takes_to t ms s))"
| port_acts: "request_move (dv_port s t) ls q \<Longrightarrow> Begun \<notin> set ls \<Longrightarrow> (Asked \<in> set ls \<longrightarrow> active s t) \<Longrightarrow>
    dv_port s t \<noteq> Req_Unknown \<Longrightarrow> may_leave timely s t q  \<Longrightarrow>
    dv_step r timely s (dv_moves t ls q s)"
| own_write: "dv_port s t = Req_Queued \<Longrightarrow> active s t \<Longrightarrow> dv_to s t = [] \<Longrightarrow> dv_from s t = [] \<Longrightarrow>
    dv_entry s = Some p \<Longrightarrow> pw_addressed p = Some t \<Longrightarrow>
    dv_step r timely s (dv_moves t [Begun] Req_Begun (dv_issuer (entry_step h (Approve r t) r (dv_entry s)) s))"
| lets_go: "dv_step r timely s (s\<lparr>dv_closed := insert t (dv_closed s)\<rparr>)"
| goes: "dv_step r timely s (s\<lparr>dv_gone := insert t (dv_gone s)\<rparr>)"
| loses_to: "dv_to s t = xs @ m # ys \<Longrightarrow> dv_step r timely s (takes_to t (xs @ ys) s)"
| loses_from: "dv_from s t = xs @ m # ys \<Longrightarrow> dv_step r timely s (takes_from t (xs @ ys) s)"

inductive reachable :: "request_id \<Rightarrow> bool \<Rightarrow> delivery \<Rightarrow> bool" for r :: request_id and timely :: bool where
  start: "reachable r timely dv_init"
| step: "reachable r timely s \<Longrightarrow> dv_step r timely s s' \<Longrightarrow> reachable r timely s'"

section \<open>The shape of the steps\<close>

inductive_cases request_moveE: "request_move q ls q'"

lemma posted_not_approval [simp]: "filter is_approval (posted t es) = []" "Approval_Msg b \<notin> set (posted t es)"
  by (induction es rule: posted.induct) auto

lemma issuer_fields [simp]:
  "dv_entry (dv_issuer x s) = fst x" "dv_issued (dv_issuer x s) = dv_issued s"
  "dv_port (dv_issuer x s) = dv_port s" "dv_from (dv_issuer x s) = dv_from s"
  "dv_to (dv_issuer x s) t = dv_to s t @ posted t (snd x)"
  "dv_closed (dv_issuer x s) = dv_closed s" "dv_gone (dv_issuer x s) = dv_gone s"
  "dv_begun (dv_issuer x s) = dv_begun s" "dv_settled (dv_issuer x s) = dv_settled s @ outcomes (snd x)"
  by (simp_all add: dv_issuer_def)

lemma moves_fields [simp]:
  "dv_entry (dv_moves t ls q s) = dv_entry s" "dv_issued (dv_moves t ls q s) = dv_issued s"
  "dv_port (dv_moves t ls q s) = (dv_port s)(t := q)" "dv_to (dv_moves t ls q s) = dv_to s"
  "dv_from (dv_moves t ls q s) = (dv_from s)(t := dv_from s t @ answers ls)"
  "dv_closed (dv_moves t ls q s) = dv_closed s" "dv_gone (dv_moves t ls q s) = dv_gone s"
  "dv_begun (dv_moves t ls q s) = dv_begun s @ (if Begun \<in> set ls then [t] else [])"
  "dv_settled (dv_moves t ls q s) = dv_settled s"
  by (simp_all add: dv_moves_def)

lemma takes_fields [simp]:
  "dv_entry (takes_to t ms s) = dv_entry s" "dv_issued (takes_to t ms s) = dv_issued s"
  "dv_port (takes_to t ms s) = dv_port s" "dv_to (takes_to t ms s) = (dv_to s)(t := ms)"
  "dv_from (takes_to t ms s) = dv_from s" "dv_closed (takes_to t ms s) = dv_closed s"
  "dv_gone (takes_to t ms s) = dv_gone s" "dv_begun (takes_to t ms s) = dv_begun s"
  "dv_settled (takes_to t ms s) = dv_settled s"
  "dv_entry (takes_from t ms2 s) = dv_entry s" "dv_issued (takes_from t ms2 s) = dv_issued s"
  "dv_port (takes_from t ms2 s) = dv_port s" "dv_to (takes_from t ms2 s) = dv_to s"
  "dv_from (takes_from t ms2 s) = (dv_from s)(t := ms2)" "dv_closed (takes_from t ms2 s) = dv_closed s"
  "dv_gone (takes_from t ms2 s) = dv_gone s" "dv_begun (takes_from t ms2 s) = dv_begun s"
  "dv_settled (takes_from t ms2 s) = dv_settled s"
  by (simp_all add: takes_to_def takes_from_def)

lemma active_fields [simp]:
  "active (dv_issuer x s) = active s" "active (dv_moves t ls q s) = active s"
  "active (takes_to t ms s) = active s" "active (takes_from t ms2 s) = active s"
  by (simp_all add: active_def fun_eq_iff)

section \<open>The invariant\<close>

text \<open>One channel: at most one question is open, while the port asks, and nothing follows it.\<close>

definition channel_ok :: "delivery \<Rightarrow> term_id \<Rightarrow> bool" where
  "channel_ok s t \<longleftrightarrow> (active s t \<longrightarrow>
     (open_questions s t = 0 \<or> (open_questions s t = 1 \<and> dv_port s t = Req_Asking)) \<and>
     (Ready_Msg \<in> set (dv_from s t) \<longrightarrow> last (dv_from s t) = Ready_Msg) \<and>
     (filter is_approval (dv_to s t) \<noteq> [] \<longrightarrow> dv_from s t = []))"

text \<open>What a port says about a write tells whether it began there; the port may have forgotten it.\<close>

definition outcome_ok :: "delivery \<Rightarrow> term_id \<Rightarrow> bool" where
  "outcome_ok s t \<longleftrightarrow>
     (if t \<in> set (dv_begun s)
      then open_questions s t = 0 \<and> (\<forall>err. Result_Msg err \<in> set (dv_from s t) \<longrightarrow> begun_outcome err) \<and>
           (dv_port s t = Req_Begun \<or> dv_port s t = Req_Unknown \<or> (\<exists>err. dv_port s t = Req_Done err \<and> begun_outcome err))
      else dv_port s t \<noteq> Req_Begun \<and> (\<forall>err. dv_port s t = Req_Done err \<longrightarrow> not_begun_outcome err) \<and>
           (\<forall>err. Result_Msg err \<in> set (dv_from s t) \<longrightarrow> \<not> begun_outcome err))"

text \<open>A term that has begun the write, or holds a yes it can still use.\<close>

definition granted :: "delivery \<Rightarrow> term_id \<Rightarrow> bool" where
  "granted s t \<longleftrightarrow> (active s t \<and> Approval_Msg True \<in> set (dv_to s t)) \<or> t \<in> set (dv_begun s)"

definition entry_ok :: "delivery \<Rightarrow> bool" where
  "entry_ok s \<longleftrightarrow>
     (\<forall>p. dv_entry s = Some p \<longrightarrow> pw_entry_ok p \<and> dv_issued s \<and> (\<forall>t. granted s t \<longrightarrow> pw_started p = Some t)) \<and>
     (\<forall>t u. granted s t \<longrightarrow> granted s u \<longrightarrow> t = u) \<and> distinct (dv_begun s) \<and>
     (\<not> dv_issued s \<longrightarrow> (\<forall>t. \<not> granted s t))"

definition settled_ok :: "delivery \<Rightarrow> bool" where
  "settled_ok s \<longleftrightarrow>
     (list_ex says_not_begun (dv_settled s) \<longrightarrow> (\<forall>t. \<not> granted s t)) \<and>
     (None \<in> set (dv_settled s) \<longrightarrow> dv_begun s \<noteq> []) \<and>
     length (dv_settled s) + (if dv_entry s = None then 0 else 1) = (if dv_issued s then 1 else 0)"

text \<open>
  No request follows a yes, and none is on its way to a port that has begun the write: a write that
  may begin, or has begun, is sent to nobody. So a port that has forgotten the outcome does not take
  the write in again.
\<close>

fun none_behind :: "to_port list \<Rightarrow> bool" where
  "none_behind [] = True"
| "none_behind (Request_Msg # ms) = none_behind ms"
| "none_behind (Approval_Msg b # ms) = ((b \<longrightarrow> Request_Msg \<notin> set ms) \<and> none_behind ms)"

definition order_ok :: "delivery \<Rightarrow> term_id \<Rightarrow> bool" where
  "order_ok s t \<longleftrightarrow> (active s t \<longrightarrow> none_behind (dv_to s t)) \<and> (t \<in> set (dv_begun s) \<longrightarrow> Request_Msg \<notin> set (dv_to s t))"

definition delivery_ok :: "delivery \<Rightarrow> bool" where
  "delivery_ok s \<longleftrightarrow> (\<forall>t. channel_ok s t \<and> outcome_ok s t) \<and> entry_ok s \<and> settled_ok s"

lemma delivery_ok_init: "delivery_ok dv_init" "order_ok dv_init t"
  by (simp_all add: order_ok_def delivery_ok_def channel_ok_def outcome_ok_def entry_ok_def settled_ok_def granted_def
      dv_init_def open_questions_def)

text \<open>Only the port's own moves change the ports; the issuer's events change no question.\<close>

lemma open_questions_issuer [simp]: "open_questions (dv_issuer x s) t = open_questions s t"
  by (simp add: open_questions_def)

lemma granted_issuer [simp]: "granted (dv_issuer x s) t = granted s t"
  by (simp add: granted_def)

lemma terms_issuer [simp]:
  "channel_ok (dv_issuer x s) t = channel_ok s t" "outcome_ok (dv_issuer x s) t = outcome_ok s t"
  by (simp_all add: channel_ok_def outcome_ok_def)

lemma issued_fields [simp]:
  "channel_ok (s\<lparr>dv_issued := b\<rparr>) t = channel_ok s t" "outcome_ok (s\<lparr>dv_issued := b\<rparr>) t = outcome_ok s t"
  "granted (s\<lparr>dv_issued := b\<rparr>) t = granted s t"
  by (simp_all add: channel_ok_def outcome_ok_def granted_def open_questions_def active_def)

section \<open>The issuer's events keep the invariant\<close>

text \<open>What an event of the issuer leaves of a begun write, and what it says of one that it settles.\<close>

lemma dispatch_outcomes [simp]: "outcomes (snd (dispatch_e h r p)) = []"
  by (cases rule: dispatch_e_cases [of h p r]) simp_all

lemma dispatch_started: "fst (dispatch_e h r p) = Some p' \<Longrightarrow> pw_started p' = pw_started p"
  by (cases rule: dispatch_e_cases [of h p r]) auto

lemma owner_lost_says: "\<not> says_not_begun (Some (owner_lost_error h r p))"
  by (simp add: says_not_begun_def owner_lost_error_def reported_started_def)

lemma timeout_says: "says_not_begun (Some (write_timeout_error h r p)) \<longleftrightarrow> pw_started p = None"
  by (simp add: says_not_begun_def write_timeout_error_def reported_started_def)

lemma local_event_effect:
  assumes "local_event s ev" and "dv_entry s = Some p"
  shows "case fst (entry_step h ev r (Some p)) of
      None \<Rightarrow> (\<exists>err. outcomes (snd (entry_step h ev r (Some p))) = [err] \<and> err \<noteq> None \<and>
                (says_not_begun err \<longrightarrow> pw_started p = None))
    | Some p' \<Rightarrow> outcomes (snd (entry_step h ev r (Some p))) = [] \<and> pw_started p' = pw_started p"
proof -
  obtain q where q: "fst (dispatch_e h r p) = Some q" using dispatch_e_Some by blast
  obtain q' where q': "fst (dispatch_e h r (p\<lparr>pw_dispatched := False\<rparr>)) = Some q'" using dispatch_e_Some by blast
  show ?thesis using assms dispatch_started [OF q] dispatch_started [OF q']
    by (cases ev) (simp_all add: q q' resend_e_def owner_lost_says timeout_says)
qed

lemma issuer_acts_ok:
  assumes "delivery_ok s" and "local_event s ev"
  shows "delivery_ok (dv_issuer (entry_step h ev r (dv_entry s)) s)"
proof (cases "dv_entry s")
  case None
  then have "entry_step h ev r (dv_entry s) = (None, [])"
    using assms(2) by (cases ev) simp_all
  then show ?thesis using assms(1) None
    by (simp add: delivery_ok_def entry_ok_def settled_ok_def)
next
  case (Some p)
  note eff = local_event_effect [OF assms(2) Some, of h r]
  have ent: "pw_entry_ok p" "dv_issued s" "\<And>t. granted s t \<Longrightarrow> pw_started p = Some t"
    using assms(1) Some by (auto simp: delivery_ok_def entry_ok_def)
  have new: "pw_entry_ok p'" if "fst (entry_step h ev r (Some p)) = Some p'" for p'
    using entry_step_ok [of "Some p" h ev r p'] ent(1) that by simp
  show ?thesis
  proof (cases "fst (entry_step h ev r (Some p))")
    case None
    then show ?thesis using assms(1) Some eff ent
      by (auto simp: delivery_ok_def entry_ok_def settled_ok_def)
  next
    case (Some p')
    then show ?thesis using assms(1) \<open>dv_entry s = Some p\<close> eff ent new [OF Some]
      by (auto simp: delivery_ok_def entry_ok_def settled_ok_def)
  qed
qed

lemma issue_ok:
  assumes "delivery_ok s" and "\<not> dv_issued s"
  shows "delivery_ok (dv_issuer (entry_step h (Add r b) r None) (s\<lparr>dv_issued := True\<rparr>))"
proof -
  obtain p where p: "fst (dispatch_e h r (fresh_write h b)) = Some p" using dispatch_e_Some by blast
  have "pw_entry_ok p" using entry_step_ok [of None h "Add r b" r p] p by simp
  moreover have "\<not> granted s t" for t using assms by (auto simp: delivery_ok_def entry_ok_def)
  moreover have "dv_settled s = []" using assms by (simp add: delivery_ok_def settled_ok_def)
  ultimately show ?thesis using assms p
    by (simp add: delivery_ok_def entry_ok_def settled_ok_def)
qed

lemma answered_ok:
  assumes ok: "delivery_ok s" and msg: "dv_from s t = Result_Msg err # ms"
  shows "delivery_ok (dv_issuer (entry_step h (Result r (Some t) err) r (dv_entry s)) (takes_from t ms s))"
    (is "delivery_ok (dv_issuer ?x ?s)")
proof -
  have terms: "channel_ok ?s u \<and> outcome_ok ?s u" for u
    using ok msg by (cases "u = t")
      (auto simp: delivery_ok_def channel_ok_def outcome_ok_def open_questions_def split: if_splits dest!: spec [of _ u])
  have granted: "granted ?s u = granted s u" for u by (simp add: granted_def)
  have out: "t \<in> set (dv_begun s) \<longleftrightarrow> begun_outcome err" using ok msg
    by (auto simp: delivery_ok_def outcome_ok_def split: if_splits dest!: spec [of _ t])
  have none: "t \<in> set (dv_begun s)" if "granted s t"
  proof -
    have "channel_ok s t" using ok by (simp add: delivery_ok_def)
    then have "Approval_Msg True \<notin> set (dv_to s t)" if "active s t"
      using that msg by (auto simp: channel_ok_def filter_empty_conv)
    then show ?thesis using that by (auto simp: granted_def)
  qed
  show ?thesis
  proof (cases "\<exists>p. dv_entry s = Some p \<and> pw_addressed p = Some t")
    case False
    then have "?x = (dv_entry s, [])" by (cases "dv_entry s") auto
    then show ?thesis using ok terms granted by (simp add: delivery_ok_def entry_ok_def settled_ok_def)
  next
    case True
    then obtain p where p: "dv_entry s = Some p" "pw_addressed p = Some t" by blast
    have ent: "pw_entry_ok p" "dv_issued s" "\<And>u. granted s u \<Longrightarrow> pw_started p = Some u"
      using ok p by (auto simp: delivery_ok_def entry_ok_def)
    have only: "u = t" if "granted s u" for u
      using ent(1) ent(3) [OF that] p(2) by (simp add: pw_entry_ok_def)
    show ?thesis
    proof (cases "is_not_connected err")
      case True
      then have "\<not> begun_outcome err" by (auto simp: is_not_connected_def begun_outcome_def split: option.splits)
      then have no: "\<not> granted s u" for u using out none only [of u] by auto
      obtain p' where p': "fst (dispatch_e h r (p\<lparr>pw_started := None, pw_dispatched := False\<rparr>)) = Some p'"
        using dispatch_e_Some by blast
      have "pw_entry_ok p'" using entry_step_ok [of "Some p" h "Result r (Some t) err" r p'] ent(1) p True p' by simp
      then show ?thesis using ok terms granted no p p' True
        by (simp add: delivery_ok_def entry_ok_def settled_ok_def)
    next
      case False
      then have x: "?x = (None, [Settled r err])" using p by simp
      have "\<not> granted s u" if "says_not_begun err" for u
      proof -
        have "\<not> begun_outcome err" using that by (auto simp: says_not_begun_def begun_outcome_def split: option.splits)
        then show ?thesis using out none only [of u] by auto
      qed
      moreover have "dv_begun s \<noteq> []" if "err = None" using out that by (auto simp: begun_outcome_def)
      ultimately show ?thesis using ok terms granted p x
        by (auto simp: delivery_ok_def entry_ok_def settled_ok_def)
    qed
  qed
qed

lemma asked_ok:
  assumes ok: "delivery_ok s" and msg: "dv_from s t = Ready_Msg # ms"
  shows "delivery_ok (takes_to t (dv_to s t @ [Approval_Msg (\<exists>p. dv_entry s = Some p \<and> pw_addressed p = Some t)])
    (takes_from t ms (dv_issuer (entry_step h (Approve r t) r (dv_entry s)) s)))"
    (is "delivery_ok ?s")
proof -
  let ?yes = "\<exists>p. dv_entry s = Some p \<and> pw_addressed p = Some t"
  let ?x = "entry_step h (Approve r t) r (dv_entry s)"
  have eff: "snd ?x = []" by (cases "dv_entry s") auto
  have chan: "channel_ok s t" "outcome_ok s t" using ok by (simp_all add: delivery_ok_def)
  have questions: "open_questions ?s u = open_questions s u" for u using msg by (simp add: open_questions_def)
  have new: "t \<notin> set (dv_begun s)" using chan(2) msg by (auto simp: outcome_ok_def open_questions_def split: if_splits)
  have alone: "ms = [] \<and> filter is_approval (dv_to s t) = [] \<and> dv_port s t = Req_Asking" if "active s t"
  proof -
    have one: "open_questions s t = 1" "dv_port s t = Req_Asking" "last (dv_from s t) = Ready_Msg"
      using chan(1) that msg by (auto simp: channel_ok_def open_questions_def)
    then have "ms = []" using msg by (cases ms rule: rev_cases) (auto simp: open_questions_def)
    then show ?thesis using one msg by (simp add: open_questions_def)
  qed
  have terms: "channel_ok ?s u \<and> outcome_ok ?s u" for u
  proof (cases "u = t")
    case True
    have "channel_ok ?s t" unfolding channel_ok_def questions
      using chan(1) alone eff by (auto simp: channel_ok_def)
    moreover have "outcome_ok ?s t" unfolding outcome_ok_def questions
      using chan(2) new msg by (auto simp: outcome_ok_def)
    ultimately show ?thesis using True by simp
  next
    case False
    then show ?thesis unfolding channel_ok_def outcome_ok_def questions
      using ok eff by (simp add: delivery_ok_def channel_ok_def outcome_ok_def)
  qed
  have granted: "granted ?s u \<longleftrightarrow> granted s u \<or> (u = t \<and> active s t \<and> ?yes)" for u
    using eff by (auto simp: granted_def)
  define s' where "s' = ?s"
  have fields: "dv_entry s' = fst ?x" "dv_issued s' = dv_issued s" "dv_begun s' = dv_begun s" "dv_settled s' = dv_settled s"
    using eff by (simp_all add: s'_def)
  note terms' = terms [folded s'_def] and granted' = granted [folded s'_def]
  have "delivery_ok s'"
  proof (cases ?yes)
    case False
    then have "fst ?x = dv_entry s" by (cases "dv_entry s") auto
    then show ?thesis using ok terms' granted' False fields
      by (simp add: delivery_ok_def entry_ok_def settled_ok_def)
  next
    case True
    then obtain p where p: "dv_entry s = Some p" "pw_addressed p = Some t" by blast
    have ent: "pw_entry_ok p" "dv_issued s" "\<And>u. granted s u \<Longrightarrow> pw_started p = Some u"
      using ok p by (auto simp: delivery_ok_def entry_ok_def)
    have only: "u = t" if "granted s u" for u
      using ent(1) ent(3) [OF that] p(2) by (simp add: pw_entry_ok_def)
    have only': "u = t" if "granted s' u" for u using that only granted' by blast
    define p' where "p' = p\<lparr>pw_started := (case pw_started p of None \<Rightarrow> Some t | Some u \<Rightarrow> Some u)\<rparr>"
    have x: "?x = (Some p', [])" using p by (simp add: p'_def)
    have p': "pw_entry_ok p'" "pw_started p' = Some t"
      using ent(1) p(2) by (auto simp: p'_def pw_entry_ok_def split: option.splits)
    have "dv_settled s = []" using ok p(1) ent(2) by (simp add: delivery_ok_def settled_ok_def)
    moreover have "distinct (dv_begun s) \<and> (\<forall>u. channel_ok s' u \<and> outcome_ok s' u)"
      using ok terms' by (simp add: delivery_ok_def entry_ok_def)
    ultimately show ?thesis using p' x ent(2) only' fields
      by (auto simp: delivery_ok_def entry_ok_def settled_ok_def)
  qed
  then show ?thesis by (simp add: s'_def)
qed

section \<open>The port's moves keep the invariant\<close>

lemma outcome_classes:
  "begun_outcome err \<Longrightarrow> \<not> not_begun_outcome err" "begun_outcome err \<Longrightarrow> \<not> refused_outcome err"
  "begun_outcome err \<Longrightarrow> \<not> aw_not_connected err"
  by (auto simp: begun_outcome_def not_begun_outcome_def refused_outcome_def aw_not_connected_def split: option.splits)

lemma granted_moves [simp]: "Begun \<notin> set ls \<Longrightarrow> granted (dv_moves t ls q s) u = granted s u"
  by (simp add: granted_def)

lemma open_questions_moves: "open_questions (dv_moves t ls q s) u =
    open_questions s u + (if u = t then length (filter (\<lambda>l. l = Asked) ls) else 0)"
proof -
  have "length (filter (\<lambda>m. m = Ready_Msg) (answers ls)) = length (filter (\<lambda>l. l = Asked) ls)"
    by (induction ls rule: answers.induct) auto
  then show ?thesis by (simp add: open_questions_def)
qed

lemma quiet_no_ready: "open_questions s t = 0 \<Longrightarrow> Ready_Msg \<notin> set (dv_from s t) \<and> filter is_approval (dv_to s t) = []"
  by (auto simp: open_questions_def filter_empty_conv)

lemma no_question_channel:
  assumes "request_move (dv_port s t) ls q" and "open_questions s t = 0"
  shows "channel_ok (dv_moves t ls q s) t"
  using assms quiet_no_ready [OF assms(2)]
  by (auto simp: channel_ok_def open_questions_moves elim!: request_moveE)

lemma moved_outcome:
  assumes ok: "outcome_ok s t" and move: "request_move (dv_port s t) ls q" and quiet: "Begun \<notin> set ls"
    and new: "dv_port s t = Req_Unknown \<Longrightarrow> q = Req_Unknown \<or> t \<notin> set (dv_begun s)"
    and silent: "dv_port s t = Req_Unknown \<Longrightarrow> t \<in> set (dv_begun s) \<Longrightarrow> ls = []"
  shows "outcome_ok (dv_moves t ls q s) t"
proof (cases "t \<in> set (dv_begun s)")
  case True
  then show ?thesis using ok move quiet new silent
    by (auto simp: outcome_ok_def open_questions_moves outcome_classes elim!: request_moveE)
next
  case False
  then show ?thesis using ok move quiet
    by (auto simp: outcome_ok_def dest: outcome_classes elim!: request_moveE)
qed

lemma port_moves_ok:
  assumes ok: "delivery_ok s" and move: "request_move (dv_port s t) ls q" and quiet: "Begun \<notin> set ls"
    and leave: "may_leave True s t q" and new: "dv_port s t = Req_Unknown \<Longrightarrow> t \<notin> set (dv_begun s)"
  shows "delivery_ok (dv_moves t ls q s)"
proof -
  have chan: "channel_ok s t" "outcome_ok s t" using ok by (simp_all add: delivery_ok_def)
  have "channel_ok (dv_moves t ls q s) t"
  proof (cases "active s t \<and> open_questions s t \<noteq> 0")
    case True
    then have "dv_port s t = Req_Asking" "q = Req_Asking" using chan(1) leave by (auto simp: channel_ok_def may_leave_def)
    moreover from this move have "ls = []" by (auto elim: request_moveE)
    ultimately show ?thesis using chan(1) by (simp add: channel_ok_def open_questions_moves)
  next
    case False
    then show ?thesis using no_question_channel [OF move] by (auto simp: channel_ok_def)
  qed
  moreover have "outcome_ok (dv_moves t ls q s) t" 
    using chan(2) move quiet new by (intro moved_outcome) auto
  moreover have "channel_ok (dv_moves t ls q s) u \<and> outcome_ok (dv_moves t ls q s) u" if "u \<noteq> t" for u
    using that ok quiet by (simp add: delivery_ok_def channel_ok_def outcome_ok_def open_questions_moves)
  ultimately have "\<forall>u. channel_ok (dv_moves t ls q s) u \<and> outcome_ok (dv_moves t ls q s) u" by metis
  then show ?thesis using ok quiet by (simp add: delivery_ok_def entry_ok_def settled_ok_def)
qed

text \<open>Taking messages out of a channel, and a term that ends.\<close>

lemma takes_to_ok:
  assumes ok: "delivery_ok s" and "dv_to s t = xs @ m # ys"
  shows "delivery_ok (takes_to t (xs @ ys) s)"
proof -
  let ?s = "takes_to t (xs @ ys) s"
  have terms: "channel_ok ?s u \<and> outcome_ok ?s u" for u
  proof (cases "u = t \<and> is_approval m")
    case True
    have "open_questions s t = Suc (open_questions ?s t)" using True assms(2) by (simp add: open_questions_def)
    moreover have "filter is_approval (dv_to s t) \<noteq> []" using True assms(2) by simp
    moreover have "channel_ok s t" "outcome_ok s t" using ok by (simp_all add: delivery_ok_def)
    ultimately show ?thesis using True by (auto simp: channel_ok_def outcome_ok_def)
  next
    case False
    then have "filter is_approval (dv_to ?s u) = filter is_approval (dv_to s u)" using assms(2) by auto
    moreover from this have "open_questions ?s u = open_questions s u" by (simp add: open_questions_def)
    ultimately show ?thesis using ok by (simp add: delivery_ok_def channel_ok_def outcome_ok_def)
  qed
  have "granted (takes_to t (xs @ ys) s) u \<Longrightarrow> granted s u" for u
    using assms(2) by (auto simp: granted_def split: if_splits)
  then show ?thesis using ok terms
    by (simp add: delivery_ok_def entry_ok_def settled_ok_def) blast
qed

lemma takes_from_ok:
  assumes ok: "delivery_ok s" and from_t: "dv_from s t = xs @ m # ys"
  shows "delivery_ok (takes_from t (xs @ ys) s)"
proof -
  have fewer: "open_questions (takes_from t (xs @ ys) s) u \<le> open_questions s u" for u
    using from_t by (simp add: open_questions_def)
  have last: "last (xs @ ys) = Ready_Msg"
    if "Ready_Msg \<in> set (xs @ ys)" "last (xs @ m # ys) = Ready_Msg" "open_questions s t \<le> 1"
    using that from_t by (cases ys rule: rev_cases) (auto simp: open_questions_def filter_empty_conv split: if_splits)
  have terms: "channel_ok (takes_from t (xs @ ys) s) u \<and> outcome_ok (takes_from t (xs @ ys) s) u" for u
  proof (cases "u = t")
    case True
    have "channel_ok s t" "outcome_ok s t" using ok by (simp_all add: delivery_ok_def)
    then show ?thesis using True from_t last fewer [of t]
      by (auto simp: channel_ok_def outcome_ok_def)
  next
    case False
    then have "open_questions (takes_from t (xs @ ys) s) u = open_questions s u" by (simp add: open_questions_def)
    then show ?thesis using ok False by (simp add: delivery_ok_def channel_ok_def outcome_ok_def)
  qed
  have "granted (takes_from t (xs @ ys) s) u = granted s u" for u by (simp add: granted_def)
  then show ?thesis using ok terms by (simp add: delivery_ok_def entry_ok_def settled_ok_def)
qed

lemma ends_ok:
  assumes ok: "delivery_ok s"
  shows "dv_closed s \<subseteq> c \<Longrightarrow> delivery_ok (s\<lparr>dv_closed := c\<rparr>)"
    and "dv_gone s \<subseteq> g \<Longrightarrow> delivery_ok (s\<lparr>dv_gone := g\<rparr>)"
proof -
  have *: "delivery_ok s'"
    if same: "dv_entry s' = dv_entry s" "dv_issued s' = dv_issued s" "dv_port s' = dv_port s" "dv_to s' = dv_to s"
      "dv_from s' = dv_from s" "dv_begun s' = dv_begun s" "dv_settled s' = dv_settled s"
      and act: "\<And>u. active s' u \<Longrightarrow> active s u" for s'
  proof -
    have "open_questions s' u = open_questions s u" for u by (simp add: open_questions_def same)
    then have "channel_ok s' u \<and> outcome_ok s' u" for u
      using ok act [of u] by (simp add: delivery_ok_def channel_ok_def outcome_ok_def same)
    moreover have "granted s' u \<Longrightarrow> granted s u" for u using act by (auto simp: granted_def same)
    ultimately show ?thesis using ok by (simp add: delivery_ok_def entry_ok_def settled_ok_def same) blast
  qed
  show "dv_closed s \<subseteq> c \<Longrightarrow> delivery_ok (s\<lparr>dv_closed := c\<rparr>)"
    by (intro *) (auto simp: active_def)
  show "dv_gone s \<subseteq> g \<Longrightarrow> delivery_ok (s\<lparr>dv_gone := g\<rparr>)"
    by (intro *) (auto simp: active_def)
qed

section \<open>A beginning keeps the invariant\<close>

lemma begins_ok:
  assumes ok: "delivery_ok s" and quiet: "open_questions s t = 0" "dv_from s t = []" and new: "t \<notin> set (dv_begun s)"
    and only: "\<And>u. granted s u \<Longrightarrow> u = t" and "dv_issued s" and "\<not> list_ex says_not_begun (dv_settled s)"
    and mine: "\<And>p. dv_entry s = Some p \<Longrightarrow> pw_started p = Some t"
  shows "delivery_ok (dv_moves t [Begun] Req_Begun s)"
proof -
  let ?s = "dv_moves t [Begun] Req_Begun s"
  have "channel_ok ?s u \<and> outcome_ok ?s u" for u
    using ok quiet by (cases "u = t")
      (simp_all add: delivery_ok_def channel_ok_def outcome_ok_def open_questions_moves filter_empty_conv
         open_questions_def [of s t])
  moreover have g: "granted ?s u \<Longrightarrow> u = t" for u using only by (auto simp: granted_def)
  moreover have "entry_ok ?s" unfolding entry_ok_def
  proof (intro conjI allI impI)
    show "pw_started p = Some u" if "dv_entry ?s = Some p" "granted ?s u" for p u
      using mine [of p] g [OF that(2)] that(1) by simp
    show "t' = u" if "granted ?s t'" "granted ?s u" for t' u using g that by blast
  qed (use ok new assms(6) in \<open>simp_all add: delivery_ok_def entry_ok_def\<close>)
  moreover have "settled_ok ?s" using ok assms(7) by (simp add: delivery_ok_def settled_ok_def)
  ultimately show ?thesis by (simp add: delivery_ok_def)
qed

lemma hears_answer_ok:
  assumes ok: "delivery_ok s" and msg: "dv_to s t = Approval_Msg b # ms" and act: "active s t"
    and asking: "dv_port s t = Req_Asking" and move: "request_move Req_Asking ls q"
    and yes: "Begun \<in> set ls \<longrightarrow> b"
  shows "delivery_ok (dv_moves t ls q (takes_to t ms s))"
proof -
  let ?s = "takes_to t ms s"
  have ok': "delivery_ok ?s" using takes_to_ok [OF ok, of t "[]" "Approval_Msg b" ms] msg by simp
  have chan: "channel_ok s t" "outcome_ok s t" "channel_ok ?s t" using ok ok' by (simp_all add: delivery_ok_def)
  have quiet: "open_questions ?s t = 0" "dv_from ?s t = []"
    using chan(1) act msg by (auto simp: channel_ok_def open_questions_def)
  show ?thesis
  proof (cases "Begun \<in> set ls")
    case False
    then show ?thesis using ok' move asking quiet(1)
      by (intro port_moves_ok) (simp_all add: may_leave_def)
  next
    case True
    then have begins: "ls = [Begun]" "q = Req_Begun" using move by (auto elim: request_moveE)
    have given: "granted s t" using True yes msg act by (simp add: granted_def)
    have "granted ?s u \<Longrightarrow> granted s u" for u using msg by (auto simp: granted_def split: if_splits)
    then have "u = t" if "granted ?s u" for u using that given ok by (auto simp: delivery_ok_def entry_ok_def)
    moreover have "dv_issued s \<and> \<not> list_ex says_not_begun (dv_settled s) \<and>
        (\<forall>p. dv_entry s = Some p \<longrightarrow> pw_started p = Some t)"
      using given ok by (auto simp: delivery_ok_def entry_ok_def settled_ok_def)
    moreover have "t \<notin> set (dv_begun s)" using chan(2) asking by (auto simp: outcome_ok_def)
    ultimately show ?thesis unfolding begins using ok' quiet by (intro begins_ok) auto
  qed
qed

lemma own_write_ok:
  assumes ok: "delivery_ok s" and queued: "dv_port s t = Req_Queued" and act: "active s t"
    and empty: "dv_from s t = []" and entry: "dv_entry s = Some p" "pw_addressed p = Some t"
  shows "delivery_ok (dv_moves t [Begun] Req_Begun (dv_issuer (entry_step h (Approve r t) r (dv_entry s)) s))"
proof -
  let ?s = "dv_issuer (entry_step h (Approve r t) r (dv_entry s)) s"
  define p' where "p' = p\<lparr>pw_started := (case pw_started p of None \<Rightarrow> Some t | Some u \<Rightarrow> Some u)\<rparr>"
  have x: "entry_step h (Approve r t) r (dv_entry s) = (Some p', [])" using entry by (simp add: p'_def)
  have chan: "channel_ok s t" "outcome_ok s t" using ok by (simp_all add: delivery_ok_def)
  have ent: "pw_entry_ok p" "dv_issued s" "\<And>u. granted s u \<Longrightarrow> pw_started p = Some u"
    using ok entry by (auto simp: delivery_ok_def entry_ok_def)
  have p': "pw_entry_ok p'" "pw_started p' = Some t"
    using ent(1) entry(2) by (auto simp: p'_def pw_entry_ok_def split: option.splits)
  have only: "u = t" if "granted s u" for u
    using ent(1) ent(3) [OF that] entry(2) by (simp add: pw_entry_ok_def)
  have settled: "dv_settled s = []" using ok entry(1) ent(2) by (simp add: delivery_ok_def settled_ok_def)
  have "delivery_ok ?s" using ok x p' only ent(2) settled entry(1)
    by (auto simp: delivery_ok_def entry_ok_def settled_ok_def)
  moreover have "open_questions s t = 0" using chan(1) queued act by (auto simp: channel_ok_def)
  moreover have "t \<notin> set (dv_begun s)" using chan(2) queued by (auto simp: outcome_ok_def)
  ultimately show ?thesis using empty only ent(2) settled p'(2) x by (intro begins_ok) simp_all
qed

lemma dv_step_ok:
  "dv_step r True s s' \<Longrightarrow> delivery_ok s \<Longrightarrow> (\<And>t. order_ok s t) \<Longrightarrow> delivery_ok s'"
proof (induction rule: dv_step.induct)
  case (hears_request s t ms ls q err)
  have ok: "delivery_ok (takes_to t ms s)"
    using takes_to_ok [OF hears_request.prems(1), of t "[]" Request_Msg ms] hears_request.hyps(1) by simp
  have "Begun \<notin> set ls" using hears_request.hyps by (auto elim: request_moveE)
  moreover have "t \<notin> set (dv_begun s)"
    using hears_request.prems(2) [of t] hears_request.hyps(1) by (auto simp: order_ok_def)
  ultimately show ?case using ok hears_request.hyps
    by (intro port_moves_ok) (auto simp: may_leave_def)
next
  case (own_write s t p h)
  then show ?case using own_write_ok [of s t p h r] by simp
next
  case (port_acts s t ls q)
  then show ?case by (intro port_moves_ok) simp_all
next
  case (loses_to s t xs m ys)
  then show ?case by (blast intro: takes_to_ok)
next
  case (loses_from s t xs m ys)
  then show ?case by (blast intro: takes_from_ok)
next
  case (lets_go s t)
  then show ?case by (intro ends_ok) auto
next
  case (goes s t)
  then show ?case by (intro ends_ok) auto
qed (simp_all add: issue_ok issuer_acts_ok asked_ok answered_ok hears_answer_ok port_moves_ok own_write_ok
       del: entry_step.simps)

section \<open>The order on the way to a port\<close>

lemma none_behind_append:
  "none_behind (xs @ ys) \<longleftrightarrow> none_behind xs \<and> none_behind ys \<and>
     (Approval_Msg True \<in> set xs \<longrightarrow> Request_Msg \<notin> set ys)"
  by (induction xs rule: none_behind.induct) auto

lemma none_behind_no_yes: "Approval_Msg True \<notin> set xs \<Longrightarrow> none_behind xs"
  by (induction xs rule: none_behind.induct) auto

text \<open>Taking or losing a message keeps the order, and so does an end of a term.\<close>

lemma order_mono:
  assumes "order_ok s t" and "dv_begun s' = dv_begun s" and "active s' t \<Longrightarrow> active s t"
    and "set (dv_to s' t) \<subseteq> set (dv_to s t)" and "none_behind (dv_to s t) \<Longrightarrow> none_behind (dv_to s' t)"
  shows "order_ok s' t"
  using assms by (auto simp: order_ok_def)

lemma order_takes_to: "order_ok s u \<Longrightarrow> dv_to s t = xs @ m # ys \<Longrightarrow> order_ok (takes_to t (xs @ ys) s) u"
  by (rule order_mono [of s]) (cases m; auto simp: none_behind_append)+

lemma order_moves: "order_ok s u \<Longrightarrow> Begun \<notin> set ls \<Longrightarrow> order_ok (dv_moves t ls q s) u"
  by (rule order_mono [of s]) auto

text \<open>The issuer sends the write only when nobody holds a yes for it and nobody has begun it.\<close>

lemma sent_not_started:
  assumes "posted t (snd (entry_step h ev r p)) \<noteq> []"
  shows "\<exists>p'. fst (entry_step h ev r p) = Some p' \<and> pw_started p' = None"
proof -
  have *: "\<exists>p'. fst (dispatch_e h r q) = Some p' \<and> pw_started p' = None" if "posted t (snd (dispatch_e h r q)) \<noteq> []" for q
    using that by (cases rule: dispatch_e_cases [of h q r]) (auto dest: dispatch_target_Some)
  show ?thesis using assms
    by (cases ev; cases p) (auto split: if_splits option.splits simp: resend_e_def dest!: *)
qed

lemma order_issuer:
  assumes old: "order_ok s t" and ok: "delivery_ok (dv_issuer (entry_step h ev r p) s)"
  shows "order_ok (dv_issuer (entry_step h ev r p) s) t" (is "order_ok ?s t")
proof (cases "posted t (snd (entry_step h ev r p)) = []")
  case True
  then show ?thesis by (intro order_mono [OF old]) (simp_all del: entry_step.simps)
next
  case False
  then have "\<not> granted ?s u" for u
    using sent_not_started [OF False] ok by (auto simp: delivery_ok_def entry_ok_def simp del: entry_step.simps)
  then have "t \<notin> set (dv_begun ?s)" "active ?s t \<Longrightarrow> Approval_Msg True \<notin> set (dv_to ?s t)"
    by (auto simp: granted_def simp del: entry_step.simps)
  then show ?thesis using none_behind_no_yes by (auto simp: order_ok_def simp del: entry_step.simps)
qed

lemma order_asked: "order_ok s u \<Longrightarrow>
    order_ok (takes_to t (dv_to s t @ [Approval_Msg b]) (takes_from t ms (dv_issuer (entry_step h (Approve r t) r p) s))) u"
  by (rule order_mono [of "s\<lparr>dv_to := (dv_to s)(t := dv_to s t @ [Approval_Msg b])\<rparr>"])
     (cases p; auto simp: order_ok_def none_behind_append active_def)+

lemma order_step:
  "dv_step r True s s' \<Longrightarrow> delivery_ok s' \<Longrightarrow> order_ok s u \<Longrightarrow> order_ok s' u"
proof (induction rule: dv_step.induct)
  case (issue s h b)
  then have "order_ok (s\<lparr>dv_issued := True\<rparr>) u" by (simp add: order_ok_def active_def)
  then show ?case using issue by (simp add: order_issuer del: entry_step.simps)
next
  case (issuer_acts s h ev)
  then show ?case by (simp add: order_issuer del: entry_step.simps)
next
  case (asked s t ms h)
  then show ?case by (simp add: order_asked del: entry_step.simps)
next
  case (answered s t err ms h)
  then have "order_ok (takes_from t ms s) u" by (simp add: order_ok_def)
  then show ?case using answered by (simp add: order_issuer del: entry_step.simps)
next
  case (hears_request s t ms ls q err)
  have "Begun \<notin> set ls" using hears_request.hyps by (auto elim: request_moveE)
  then show ?case using hears_request order_takes_to [of s u t "[]"] by (simp add: order_moves)
next
  case (hears_answer s t b ms ls q)
  note taken = order_takes_to [of s u t "[]" "Approval_Msg b" ms]
  show ?case
  proof (cases "Begun \<in> set ls \<and> u = t")
    case True
    then show ?thesis using hears_answer taken by (auto simp: order_ok_def)
  next
    case False
    then show ?thesis using hears_answer taken by (auto simp: order_ok_def)
  qed
next
  case (port_acts s t ls q)
  then show ?case by (simp add: order_moves)
next
  case (own_write s t p h)
  then show ?case by (cases "u = t") (auto simp: order_ok_def)
next
  case (loses_to s t xs m ys)
  then show ?case by (blast intro: order_takes_to)
next
  case (loses_from s t xs m ys)
  then show ?case by (simp add: order_ok_def)
qed (auto simp: order_ok_def active_def)

lemma reachable_ok: "reachable r True s \<Longrightarrow> delivery_ok s"
proof -
  have "reachable r True s \<Longrightarrow> delivery_ok s \<and> (\<forall>t. order_ok s t)"
    by (induction rule: reachable.induct) (use delivery_ok_init dv_step_ok order_step in blast)+
  then show "reachable r True s \<Longrightarrow> delivery_ok s" by simp
qed

section \<open>What a write is promised\<close>

text \<open>
  C1. At most once, with a bus that answers within the port's wait (\<open>reachable r True\<close>): whatever else
  happens - requests sent again, messages lost, outcomes forgotten by the port, connections lost, tabs
  letting go of the port or crashing, terms ended - a write is begun at most once over all terms, so
  its bytes reach the device at most once. A bus that answers later is left out, and has to be:
  \<open>late_answer_defeats_both\<close>.
\<close>

theorem begun_at_most_once:
  assumes "reachable r True s"
  shows "length (dv_begun s) \<le> 1"
proof -
  have "distinct (dv_begun s)" "\<And>t u. t \<in> set (dv_begun s) \<Longrightarrow> u \<in> set (dv_begun s) \<Longrightarrow> t = u"
    using reachable_ok [OF assms] by (auto simp: delivery_ok_def entry_ok_def granted_def)
  then have "card (set (dv_begun s)) \<le> Suc 0" by (simp add: card_le_Suc0_iff_eq)
  then show ?thesis using \<open>distinct (dv_begun s)\<close> by (simp add: distinct_card)
qed

text \<open>
  A resolved write was written: the promise of a write resolves only after the write has begun at
  the port.
\<close>

theorem resolved_was_begun:
  assumes "reachable r True s" and "None \<in> set (dv_settled s)"
  shows "dv_begun s \<noteq> []"
  using reachable_ok [OF assms(1)] assms(2) by (simp add: delivery_ok_def settled_ok_def)


section \<open>Runs, and what a late answer does\<close>

text \<open>Some of the steps as a function, to walk through a run.\<close>

datatype walk_event =
    Walk_Issue host_view bytes
  | Walk_Issuer host_view pw_event
  | Walk_Asked host_view term_id
  | Walk_Answered host_view term_id "sb_error option"
  | Walk_Hears_Request term_id "request_label list" request_state
  | Walk_Hears_Answer term_id bool "request_label list" request_state
  | Walk_Port term_id "request_label list" request_state
  | Walk_Gone term_id

fun walk_step :: "request_id \<Rightarrow> walk_event \<Rightarrow> delivery \<Rightarrow> delivery" where
  "walk_step r (Walk_Issue h b) s = dv_issuer (entry_step h (Add r b) r None) (s\<lparr>dv_issued := True\<rparr>)"
| "walk_step r (Walk_Issuer h ev) s = dv_issuer (entry_step h ev r (dv_entry s)) s"
| "walk_step r (Walk_Asked h t) s =
     takes_to t (dv_to s t @ [Approval_Msg (\<exists>p. dv_entry s = Some p \<and> pw_addressed p = Some t)])
       (takes_from t (tl (dv_from s t)) (dv_issuer (entry_step h (Approve r t) r (dv_entry s)) s))"
| "walk_step r (Walk_Answered h t err) s =
     dv_issuer (entry_step h (Result r (Some t) err) r (dv_entry s)) (takes_from t (tl (dv_from s t)) s)"
| "walk_step r (Walk_Hears_Request t ls q) s = dv_moves t ls q (takes_to t (tl (dv_to s t)) s)"
| "walk_step r (Walk_Hears_Answer t b ls q) s = dv_moves t ls q (takes_to t (tl (dv_to s t)) s)"
| "walk_step r (Walk_Port t ls q) s = dv_moves t ls q s"
| "walk_step r (Walk_Gone t) s = s\<lparr>dv_gone := insert t (dv_gone s)\<rparr>"

fun walk_allowed :: "request_id \<Rightarrow> bool \<Rightarrow> walk_event \<Rightarrow> delivery \<Rightarrow> bool" where
  "walk_allowed r timely (Walk_Issue h b) s = (\<not> dv_issued s \<and> true_view s h)"
| "walk_allowed r timely (Walk_Issuer h ev) s = (true_view s h \<and> local_event s ev)"
| "walk_allowed r timely (Walk_Asked h t) s = (\<exists>ms. dv_from s t = Ready_Msg # ms)"
| "walk_allowed r timely (Walk_Answered h t err) s = (true_view s h \<and> (\<exists>ms. dv_from s t = Result_Msg err # ms))"
| "walk_allowed r timely (Walk_Hears_Request t ls q) s = ((\<exists>ms. dv_to s t = Request_Msg # ms) \<and> active s t \<and>
     request_move (dv_port s t) ls q \<and> dv_port s t = Req_Unknown)"
| "walk_allowed r timely (Walk_Hears_Answer t b ls q) s = ((\<exists>ms. dv_to s t = Approval_Msg b # ms) \<and> active s t \<and>
     dv_port s t = Req_Asking \<and> request_move Req_Asking ls q \<and> (Begun \<in> set ls \<longrightarrow> b) \<and> q \<noteq> Req_Asking)"
| "walk_allowed r timely (Walk_Port t ls q) s = (request_move (dv_port s t) ls q \<and> Begun \<notin> set ls \<and>
     (Asked \<in> set ls \<longrightarrow> active s t) \<and> dv_port s t \<noteq> Req_Unknown \<and> may_leave timely s t q)"
| "walk_allowed r timely (Walk_Gone t) s = True"

fun walk :: "request_id \<Rightarrow> bool \<Rightarrow> walk_event list \<Rightarrow> delivery \<Rightarrow> delivery option" where
  "walk r timely [] s = Some s"
| "walk r timely (ev # evs) s = (if walk_allowed r timely ev s then walk r timely evs (walk_step r ev s) else None)"

lemma walk_is_step: "walk_allowed r timely ev s \<Longrightarrow> dv_step r timely s (walk_step r ev s)"
proof (cases ev)
  case (Walk_Hears_Request t ls q)
  then show "walk_allowed r timely ev s \<Longrightarrow> dv_step r timely s (walk_step r ev s)"
    by (auto simp del: entry_step.simps intro!: hears_request)
qed (auto simp del: entry_step.simps intro: dv_step.intros)

lemma walk_reachable: "walk r timely evs s = Some s' \<Longrightarrow> reachable r timely s \<Longrightarrow> reachable r timely s'"
proof (induction evs arbitrary: s)
  case (Cons ev evs)
  then show ?case using walk_is_step [of r timely ev s]
    by (metis reachable.step option.discI walk.simps(2))
qed simp

inductive_simps request_move_simps: "request_move q ls q'"

text \<open>The issuer's view while term \<open>a\<close> lasts, and once \<open>a\<close> has ended and \<open>b\<close> has begun.\<close>

definition view_a :: host_view where
  "view_a = \<lparr>can_dispatch = True, current_term = Some ''a'', is_term_ended = (\<lambda>t. False),
     hv_config = ''scale'', hv_write_timeout = 5000, hv_now = 0, hv_monotonic = 0\<rparr>"

definition view_b :: host_view where
  "view_b = view_a\<lparr>current_term := Some ''b'', is_term_ended := (\<lambda>t. t = ''a''), hv_monotonic := 5500\<rparr>"

definition no_port_error :: sb_error where
  "no_port_error = mk_error NOT_CONNECTED ''The port is not open'' no_options"

definition not_let_begin :: sb_error where
  "not_let_begin = mk_error WRITE_TIMEOUT ''not begun'' (no_options\<lparr>opt_context := [(''started'', CBool False)]\<rparr>)"

lemma sample_errors:
  "aw_not_connected (Some no_port_error)" "is_not_connected (Some no_port_error)"
  "not_begun_outcome (Some not_let_begin)" "begun_outcome None" "\<not> is_not_connected (Some not_let_begin)"
  "says_not_begun (Some not_let_begin)" "\<not> is_not_connected None"
  by (simp_all add: no_port_error_def not_let_begin_def aw_not_connected_def is_not_connected_def
      not_begun_outcome_def begun_outcome_def says_not_begun_def reported_started_def)

text \<open>A write to term \<open>a\<close> that ends well.\<close>

definition good_walk :: "walk_event list" where
  "good_walk = [Walk_Issue view_a [7], Walk_Hears_Request ''a'' [] Req_Queued, Walk_Port ''a'' [Asked] Req_Asking,
     Walk_Asked view_a ''a'', Walk_Hears_Answer ''a'' True [Begun] Req_Begun,
     Walk_Port ''a'' [Answered None] (Req_Done None), Walk_Answered view_a ''a'' None]"


lemmas walk_defs = dv_init_def view_a_def view_b_def true_view_def active_def may_leave_def
  dv_issuer_def dv_moves_def takes_to_def takes_from_def request_move_simps dispatch_e_def dispatch_entry_def
  dispatch_target_def fresh_write_def resend_e_def resendable_def sample_errors schedule_deadline_def

lemma good_walk_runs: "\<exists>s. walk ''w'' True good_walk dv_init = Some s \<and> dv_settled s = [None] \<and> dv_begun s = [''a'']"
  by (simp add: good_walk_def walk_defs open_questions_def)


text \<open>
  The bus answers too late: the port, its connection lost, stops waiting while the issuer's yes is on
  its way, takes the write in again with a request sent again in the meantime, and takes the late yes
  for the second question. The issuer then hears the first \<open>NOT_CONNECTED\<close> and takes the write for
  one that was never begun.
\<close>

definition late_yes_walk :: "walk_event list" where
  "late_yes_walk = [Walk_Issue view_a [7], Walk_Issuer view_a Resend_Unstarted,
     Walk_Hears_Request ''a'' [] Req_Queued, Walk_Port ''a'' [Asked] Req_Asking, Walk_Asked view_a ''a'',
     Walk_Port ''a'' [Answered (Some no_port_error)] Req_Unknown,
     Walk_Hears_Request ''a'' [] Req_Queued, Walk_Port ''a'' [Asked] Req_Asking,
     Walk_Hears_Answer ''a'' True [Begun] Req_Begun, Walk_Answered view_a ''a'' (Some no_port_error)]"

definition begun_again_walk :: "walk_event list" where
  "begun_again_walk = [Walk_Gone ''a'', Walk_Issuer view_b (Term_Ended ''a''),
     Walk_Hears_Request ''b'' [] Req_Queued, Walk_Port ''b'' [Asked] Req_Asking, Walk_Asked view_b ''b'',
     Walk_Hears_Answer ''b'' True [Begun] Req_Begun]"

definition timed_out_walk :: "walk_event list" where
  "timed_out_walk = [Walk_Gone ''a'', Walk_Issuer view_b (Deadline_Fires ''w'')]"

lemma walk_append: "walk r timely (evs @ evs') s = Option.bind (walk r timely evs s) (walk r timely evs')"
  by (induction evs arbitrary: s) simp_all

definition late_yes_state :: delivery where
  "late_yes_state = \<lparr>dv_entry = Some \<lparr>pw_payload = [7], pw_started = None, pw_addressed = Some ''a'',
      pw_dispatched = True, pw_deadline = Armed 5000\<rparr>, dv_issued = True,
    dv_port = (\<lambda>t. Req_Unknown)(''a'' := Req_Begun), dv_to = (\<lambda>t. [])(''a'' := [Request_Msg]),
    dv_from = (\<lambda>t. [])(''a'' := [Ready_Msg]), dv_closed = {}, dv_gone = {}, dv_begun = [''a''], dv_settled = []\<rparr>"

lemma late_yes_runs: "walk ''w'' False late_yes_walk dv_init = Some late_yes_state"
  by (simp add: late_yes_walk_def walk_defs late_yes_state_def fun_eq_iff)

lemma begun_again_runs: "\<exists>s. walk ''w'' False begun_again_walk late_yes_state = Some s \<and> dv_begun s = [''a'', ''b'']"
  by (simp add: begun_again_walk_def walk_defs late_yes_state_def)

lemma timed_out_runs: "\<exists>s. walk ''w'' False timed_out_walk late_yes_state = Some s \<and>
    dv_begun s = [''a''] \<and> list_ex says_not_begun (dv_settled s)"
  by (simp add: timed_out_walk_def walk_defs late_yes_state_def timeout_says late_deadline_ms_def)

text \<open>
  The time a bus takes matters: where an answer may come after the port has stopped waiting for
  it, there is a run in which a write is begun in two terms, and one in which a write that was begun
  is rejected with \<open>started: false\<close>.
\<close>

theorem late_answer_defeats_both:
  "(\<exists>s. reachable ''w'' False s \<and> length (dv_begun s) = 2) \<and>
   (\<exists>s. reachable ''w'' False s \<and> length (dv_begun s) = 1 \<and> list_ex says_not_begun (dv_settled s))"
proof -
  have start: "reachable ''w'' False late_yes_state"
    using late_yes_runs by (rule walk_reachable) (rule reachable.start)
  obtain s s' where s: "walk ''w'' False begun_again_walk late_yes_state = Some s" "dv_begun s = [''a'', ''b'']"
    and s': "walk ''w'' False timed_out_walk late_yes_state = Some s'" "dv_begun s' = [''a'']"
      "list_ex says_not_begun (dv_settled s')"
    using begun_again_runs timed_out_runs by blast
  have "reachable ''w'' False s" "reachable ''w'' False s'"
    using walk_reachable [OF s(1) start] walk_reachable [OF s'(1) start] .
  then show ?thesis using s(2) s'(2,3) by force
qed

section \<open>The properties on concrete runs\<close>

lemma begun_at_most_once_witness:
  "\<exists>s. walk ''w'' True good_walk dv_init = Some s \<and> length (dv_begun s) \<le> 1"
  using good_walk_runs begun_at_most_once [OF walk_reachable [OF _ reachable.start]] by blast

lemma resolved_was_begun_witness:
  "\<exists>s. walk ''w'' True good_walk dv_init = Some s \<and> dv_begun s \<noteq> []"
proof -
  obtain s where s: "walk ''w'' True good_walk dv_init = Some s" "dv_settled s = [None]"
    using good_walk_runs by blast
  from resolved_was_begun [OF walk_reachable [OF s(1) reachable.start]] s show ?thesis by simp
qed


end
