(* ===== verification/Owner_Terms.thy ===== *)
theory Owner_Terms
  imports SB_Prelude
begin

text \<open>
  What one tab knows about the terms of holding the port (\<open>client/owner-terms.ts\<close>), and so who may
  say what about it.

  The browser's answers are events: \<open>Check_Answered\<close> is the answer of the lock request of
  \<open>#checkLock\<close>, \<open>Watch_Granted\<close> the grant of the request \<open>#watch\<close> queued together with the answer of
  \<open>#isEndingCleanly\<close>. Both name the entry they were asked for by a serial number, which stands for
  the identity of the entry the code compares (\<open>this.#terms.get(claim.term) !== entry\<close>). A closure
  that waits for a check is a value of \<open>waiting\<close>; the callbacks \<open>apply\<close> and \<open>host.onEnded\<close> and the
  requests made to the browser are effects, in the order the code makes them. \<open>'m\<close> is the message.
\<close>

section \<open>State\<close>

definition max_term_flood :: nat where
  "max_term_flood = 16"

text \<open>The tab limit is a number or, without a limit, infinite (\<open>None\<close>).\<close>

record term_claim =
  tc_term :: term_id
  tc_from :: client_id
  tc_max_tabs :: "nat option"

datatype term_phase = Checking | Live | Phase_Ended | Refused

text \<open>The protocol messages as \<open>authorize\<close> tells them apart.\<close>

datatype 'm term_message =
    Claim_Message term_claim 'm
  | Released_Message term_id client_id
  | Write_Message "term_id option" client_id 'm
  | Device_Message client_id 'm
  | Other_Message 'm

datatype 'm waiting =
    Wait_Observe term_claim 'm
  | Wait_Released term_id client_id
  | Wait_Authorize client_id 'm

record 'm known_term =
  kt_claim :: term_claim
  kt_phase :: term_phase
  kt_own :: bool
  kt_succeeded :: bool
  kt_ending :: bool
  kt_goodbye :: bool
  kt_waiting :: "'m waiting list"
  kt_serial :: nat

record 'm owner_terms =
  ot_terms :: "(term_id, 'm known_term) omap"
  ot_current :: "term_id option"
  ot_disposed :: bool
  ot_next :: nat

datatype 'm ot_effect =
    Applied "'m term_message"
  | Term_Over term_id bool
  | Check_Lock nat term_claim
  | Watch_Lock nat term_claim
  | Stop_Watching nat

type_synonym 'm ot_result = "'m owner_terms \<times> 'm ot_effect list"

definition ot_init :: "'m owner_terms" where
  "ot_init = \<lparr>ot_terms = [], ot_current = None, ot_disposed = False, ot_next = 0\<rparr>"

section \<open>Operations\<close>

definition ot_is_ended :: "'m owner_terms \<Rightarrow> term_id \<Rightarrow> bool" where
  "ot_is_ended s t = (case om_get (ot_terms s) t of Some e \<Rightarrow> kt_phase e = Phase_Ended | None \<Rightarrow> False)"

definition is_same_claim :: "term_claim \<Rightarrow> term_claim \<Rightarrow> bool" where
  "is_same_claim known claim \<longleftrightarrow> tc_from known = tc_from claim \<and> tc_max_tabs known = tc_max_tabs claim"

definition ot_is_from :: "'m owner_terms \<Rightarrow> term_id \<Rightarrow> client_id \<Rightarrow> bool" where
  "ot_is_from s t from =
     (case om_get (ot_terms s) t of
        None \<Rightarrow> False
      | Some e \<Rightarrow> kt_phase e \<noteq> Refused \<and> tc_from (kt_claim e) = from)"

definition speaks_for_live_term :: "'m owner_terms \<Rightarrow> client_id \<Rightarrow> bool" where
  "speaks_for_live_term s from =
     list_ex (\<lambda>(t, e). tc_from (kt_claim e) = from \<and> kt_phase e = Live) (ot_terms s)"

text \<open>\<open>#firstMatching\<close>, with the key of the entry it finds.\<close>

definition first_matching ::
  "('m known_term \<Rightarrow> bool) \<Rightarrow> (term_id, 'm known_term) omap \<Rightarrow> (term_id \<times> 'm known_term) option" where
  "first_matching P m = find (\<lambda>(t, e). P e) m"

definition checked_term_of :: "'m owner_terms \<Rightarrow> client_id \<Rightarrow> (term_id \<times> 'm known_term) option" where
  "checked_term_of s from =
     first_matching (\<lambda>e. tc_from (kt_claim e) = from \<and> kt_phase e = Checking) (ot_terms s)"

definition set_entry :: "term_id \<Rightarrow> 'm known_term \<Rightarrow> 'm owner_terms \<Rightarrow> 'm owner_terms" where
  "set_entry t e s = s\<lparr>ot_terms := om_set t e (ot_terms s)\<rparr>"

definition wait_for :: "term_id \<Rightarrow> 'm known_term \<Rightarrow> 'm waiting \<Rightarrow> 'm owner_terms \<Rightarrow> 'm owner_terms" where
  "wait_for t e w s =
     (if length (kt_waiting e) \<ge> max_term_flood then s
      else set_entry t (e\<lparr>kt_waiting := kt_waiting e @ [w]\<rparr>) s)"

definition make_current :: "term_id \<Rightarrow> 'm owner_terms \<Rightarrow> 'm owner_terms" where
  "make_current t s =
     (if ot_current s = Some t then s
      else (case ot_current s of
              None \<Rightarrow> s
            | Some c \<Rightarrow> (case om_get (ot_terms s) c of
                          None \<Rightarrow> s
                        | Some previous \<Rightarrow> set_entry c (previous\<lparr>kt_succeeded := True\<rparr>) s))
           \<lparr>ot_current := Some t\<rparr>)"

text \<open>What \<open>#remember\<close> gives up first.\<close>

definition forget_next ::
  "term_id option \<Rightarrow> (term_id, 'm known_term) omap \<Rightarrow> (term_id \<times> 'm known_term) option" where
  "forget_next current m =
     (case first_matching (\<lambda>e. kt_phase e = Phase_Ended \<or> kt_phase e = Refused) m of
        Some x \<Rightarrow> Some x
      | None \<Rightarrow> (case first_matching (\<lambda>e. kt_phase e = Checking) m of
                  Some x \<Rightarrow> Some x
                | None \<Rightarrow> first_matching (\<lambda>e. Some (tc_term (kt_claim e)) \<noteq> current) m))"

lemma first_matching_SomeD: "first_matching P m = Some (t, e) \<Longrightarrow> (t, e) \<in> set m \<and> P e"
  by (auto simp: first_matching_def find_Some_iff) (metis case_prodD nth_mem)

lemma forget_next_SomeD: "forget_next c m = Some (t, e) \<Longrightarrow> (t, e) \<in> set m"
  by (auto simp: forget_next_def dest: first_matching_SomeD split: option.splits)

lemma length_om_del_less: "(t, e) \<in> set m \<Longrightarrow> length (om_del t m) < length m"
  unfolding om_del_def by (rule length_filter_less [where x = "(t, e)"]) auto

function trim_terms ::
  "term_id option \<Rightarrow> (term_id, 'm known_term) omap \<Rightarrow> (term_id, 'm known_term) omap \<times> 'm ot_effect list" where
  "trim_terms current m =
     (if length m \<le> max_term_flood then (m, [])
      else case forget_next current m of
        None \<Rightarrow> (m, [])
      | Some (t, e) \<Rightarrow>
          (case trim_terms current (om_del t m) of (m', es) \<Rightarrow> (m', Stop_Watching (kt_serial e) # es)))"
  by pat_completeness auto

termination
  by (relation "measure (\<lambda>(c, m). length m)") (auto dest: forget_next_SomeD length_om_del_less)

declare trim_terms.simps [simp del]

definition ot_remember :: "'m known_term \<Rightarrow> 'm owner_terms \<Rightarrow> 'm ot_result" where
  "ot_remember e s =
     (case trim_terms (ot_current s) (om_set (tc_term (kt_claim e)) e (ot_terms s)) of
        (m, es) \<Rightarrow> (s\<lparr>ot_terms := m\<rparr>, es))"

definition new_entry :: "term_claim \<Rightarrow> term_phase \<Rightarrow> bool \<Rightarrow> nat \<Rightarrow> 'm known_term" where
  "new_entry claim phase own n =
     \<lparr>kt_claim = claim, kt_phase = phase, kt_own = own, kt_succeeded = False, kt_ending = False,
      kt_goodbye = False, kt_waiting = [], kt_serial = n\<rparr>"

text \<open>\<open>#end\<close> of an entry kept under its term.\<close>

definition ot_end :: "term_id \<Rightarrow> 'm known_term \<Rightarrow> 'm owner_terms \<Rightarrow> 'm ot_result" where
  "ot_end t e s =
     (if kt_phase e = Phase_Ended then (s, [])
      else (let was_current = (ot_current s = Some t);
                s' = set_entry t (e\<lparr>kt_phase := Phase_Ended, kt_waiting := []\<rparr>) s
            in (if was_current then s'\<lparr>ot_current := None\<rparr> else s',
                [Stop_Watching (kt_serial e), Term_Over t was_current])))"

definition ot_start_checking :: "term_claim \<Rightarrow> 'm \<Rightarrow> 'm owner_terms \<Rightarrow> 'm ot_result" where
  "ot_start_checking claim m s =
     (let e = (new_entry claim Checking False (ot_next s))\<lparr>kt_waiting := [Wait_Observe claim m]\<rparr> in
      case ot_remember e (s\<lparr>ot_next := ot_next s + 1\<rparr>) of
        (s', es) \<Rightarrow> (s', es @ [Check_Lock (ot_next s) claim]))"

definition ot_observe :: "term_claim \<Rightarrow> 'm \<Rightarrow> 'm owner_terms \<Rightarrow> 'm ot_result" where
  "ot_observe claim m s =
     (if ot_disposed s then (s, [])
      else case om_get (ot_terms s) (tc_term claim) of
        None \<Rightarrow> ot_start_checking claim m s
      | Some e \<Rightarrow>
          if kt_phase e = Refused \<or> kt_phase e = Phase_Ended \<or> \<not> is_same_claim (kt_claim e) claim
          then (s, [])
          else if kt_phase e = Checking
          then (wait_for (tc_term claim) e (Wait_Observe claim m) s, [])
          else if kt_succeeded e then (s, [])
          else (make_current (tc_term claim) s, [Applied (Claim_Message claim m)]))"

definition ot_heard_released :: "term_id \<Rightarrow> client_id \<Rightarrow> 'm owner_terms \<Rightarrow> 'm ot_result" where
  "ot_heard_released t from s =
     (case om_get (ot_terms s) t of
        None \<Rightarrow> (s, [])
      | Some e \<Rightarrow>
          if tc_from (kt_claim e) \<noteq> from then (s, [])
          else if kt_phase e = Checking then (wait_for t e (Wait_Released t from) s, [])
          else if kt_phase e \<noteq> Live \<or> kt_own e then (s, [])
          else (let e' = e\<lparr>kt_goodbye := True\<rparr>; s' = set_entry t e' s in
                if kt_ending e then ot_end t e' s' else (s', [])))"

definition ot_device_message :: "client_id \<Rightarrow> 'm \<Rightarrow> 'm owner_terms \<Rightarrow> 'm ot_result" where
  "ot_device_message from m s =
     (if ot_disposed s then (s, [])
      else if speaks_for_live_term s from then (s, [Applied (Device_Message from m)])
      else case checked_term_of s from of
        Some (t, e) \<Rightarrow> (wait_for t e (Wait_Authorize from m) s, [])
      | None \<Rightarrow> (s, []))"

fun ot_authorize :: "'m term_message \<Rightarrow> 'm owner_terms \<Rightarrow> 'm ot_result" where
  "ot_authorize (Claim_Message claim m) s = (if ot_disposed s then (s, []) else ot_observe claim m s)"
| "ot_authorize (Released_Message t from) s =
     (if ot_disposed s then (s, []) else ot_heard_released t from s)"
| "ot_authorize (Write_Message t from m) s =
     (if ot_disposed s then (s, [])
      else case t of
        None \<Rightarrow> (s, [])
      | Some t' \<Rightarrow> if ot_is_from s t' from then (s, [Applied (Write_Message t from m)]) else (s, []))"
| "ot_authorize (Device_Message from m) s = ot_device_message from m s"
| "ot_authorize (Other_Message m) s = (if ot_disposed s then (s, []) else (s, [Applied (Other_Message m)]))"

text \<open>Running what waited, in order.\<close>

fun run_waiting :: "'m waiting \<Rightarrow> 'm owner_terms \<Rightarrow> 'm ot_result" where
  "run_waiting (Wait_Observe claim m) s = ot_observe claim m s"
| "run_waiting (Wait_Released t from) s = ot_heard_released t from s"
| "run_waiting (Wait_Authorize from m) s = ot_device_message from m s"

fun run_all_waiting :: "'m waiting list \<Rightarrow> 'm owner_terms \<Rightarrow> 'm ot_result" where
  "run_all_waiting [] s = (s, [])"
| "run_all_waiting (w # ws) s =
     (case run_waiting w s of (s', es) \<Rightarrow> (case run_all_waiting ws s' of (s'', es') \<Rightarrow> (s'', es @ es')))"

definition ot_take_own :: "term_claim \<Rightarrow> 'm owner_terms \<Rightarrow> 'm ot_result" where
  "ot_take_own claim s =
     (case ot_remember (new_entry claim Live True (ot_next s)) (s\<lparr>ot_next := ot_next s + 1\<rparr>) of
        (s', es) \<Rightarrow> (make_current (tc_term claim) s', es))"

definition ot_end_own :: "term_id \<Rightarrow> 'm owner_terms \<Rightarrow> 'm ot_result" where
  "ot_end_own t s = (case om_get (ot_terms s) t of None \<Rightarrow> (s, []) | Some e \<Rightarrow> ot_end t e s)"

definition ot_dispose :: "'m owner_terms \<Rightarrow> 'm ot_result" where
  "ot_dispose s = (s\<lparr>ot_disposed := True, ot_terms := [], ot_current := None\<rparr>,
     map (\<lambda>(t, e). Stop_Watching (kt_serial e)) (ot_terms s))"

datatype lock_answer = Lock_Held | Lock_Free | Lock_Unknown

text \<open>\<open>#checkLock\<close> answers for the entry with serial \<open>n\<close>.\<close>

definition ot_check_answered :: "term_id \<Rightarrow> nat \<Rightarrow> lock_answer \<Rightarrow> 'm owner_terms \<Rightarrow> 'm ot_result" where
  "ot_check_answered t n ans s =
     (case om_get (ot_terms s) t of
        None \<Rightarrow> (s, [])
      | Some e \<Rightarrow>
          if kt_serial e \<noteq> n \<or> kt_phase e \<noteq> Checking then (s, [])
          else (case ans of
             Lock_Unknown \<Rightarrow> (s\<lparr>ot_terms := om_del t (ot_terms s)\<rparr>, [Stop_Watching n])
           | Lock_Free \<Rightarrow> (set_entry t (e\<lparr>kt_phase := Refused, kt_waiting := []\<rparr>) s, [])
           | Lock_Held \<Rightarrow>
               (case run_all_waiting (kt_waiting e) (set_entry t (e\<lparr>kt_phase := Live, kt_waiting := []\<rparr>) s) of
                  (s', es) \<Rightarrow> (s', Watch_Lock n (kt_claim e) # es))))"

text \<open>The request of \<open>#watch\<close> is granted, and \<open>#isEndingCleanly\<close> has answered \<open>ending\<close>.\<close>

definition ot_watch_granted :: "term_id \<Rightarrow> nat \<Rightarrow> bool \<Rightarrow> 'm owner_terms \<Rightarrow> 'm ot_result" where
  "ot_watch_granted t n ending s =
     (case om_get (ot_terms s) t of
        None \<Rightarrow> (s, [])
      | Some e \<Rightarrow>
          if kt_serial e \<noteq> n \<or> kt_phase e \<noteq> Live then (s, [])
          else if ending \<and> \<not> kt_goodbye e then (set_entry t (e\<lparr>kt_ending := True\<rparr>) s, [])
          else ot_end t e s)"

section \<open>Events and runs\<close>

datatype 'm ot_event =
    Hear "'m term_message"
  | Take_Own term_claim
  | End_Own term_id
  | Check_Answered term_id nat lock_answer
  | Watch_Granted term_id nat bool
  | Dispose_Terms

fun ot_step :: "'m ot_event \<Rightarrow> 'm owner_terms \<Rightarrow> 'm ot_result" where
  "ot_step (Hear m) s = ot_authorize m s"
| "ot_step (Take_Own c) s = ot_take_own c s"
| "ot_step (End_Own t) s = ot_end_own t s"
| "ot_step (Check_Answered t n ans) s = ot_check_answered t n ans s"
| "ot_step (Watch_Granted t n ending) s = ot_watch_granted t n ending s"
| "ot_step Dispose_Terms s = ot_dispose s"

fun ot_run :: "'m ot_event list \<Rightarrow> 'm owner_terms \<Rightarrow> 'm ot_result" where
  "ot_run [] s = (s, [])"
| "ot_run (ev # evs) s =
     (case ot_step ev s of (s', es) \<Rightarrow> (case ot_run evs s' of (s'', es') \<Rightarrow> (s'', es @ es')))"

lemma ot_run_Cons:
  "fst (ot_run (ev # evs) s) = fst (ot_run evs (fst (ot_step ev s)))"
  "snd (ot_run (ev # evs) s) = snd (ot_step ev s) @ snd (ot_run evs (fst (ot_step ev s)))"
  by (simp_all split: prod.split)

lemma run_all_Cons:
  "fst (run_all_waiting (w # ws) s) = fst (run_all_waiting ws (fst (run_waiting w s)))"
  "snd (run_all_waiting (w # ws) s) = snd (run_waiting w s) @ snd (run_all_waiting ws (fst (run_waiting w s)))"
  by (simp_all split: prod.split)

section \<open>How the tracker evolves\<close>

text \<open>
  An entry kept keeps its identity; it never becomes live again, and what is ended or succeeded
  stays so. \<open>grows E\<close> says this of two states between which the effects \<open>E\<close> happened; whatever
  entry is new is not live, and the check of its lock was asked for.
\<close>

definition entry_le :: "'m known_term \<Rightarrow> 'm known_term \<Rightarrow> bool" where
  "entry_le e e' \<longleftrightarrow> kt_serial e' = kt_serial e \<and> kt_claim e' = kt_claim e \<and> kt_own e' = kt_own e \<and>
     (kt_succeeded e \<longrightarrow> kt_succeeded e') \<and> (kt_ending e' \<longrightarrow> kt_ending e) \<and>
     (kt_phase e' = Live \<longrightarrow> kt_phase e = Live) \<and> (kt_phase e = Phase_Ended \<longrightarrow> kt_phase e' = Phase_Ended)"

definition fresh_entry :: "'m ot_effect set \<Rightarrow> nat \<Rightarrow> nat \<Rightarrow> term_id \<Rightarrow> 'm known_term \<Rightarrow> bool" where
  "fresh_entry E n n' t e \<longleftrightarrow> n \<le> kt_serial e \<and> kt_serial e < n' \<and> kt_phase e \<noteq> Live \<and> \<not> kt_ending e \<and>
     \<not> kt_own e \<and> tc_term (kt_claim e) = t \<and> Check_Lock (kt_serial e) (kt_claim e) \<in> E"

definition grows :: "'m ot_effect set \<Rightarrow> 'm owner_terms \<Rightarrow> 'm owner_terms \<Rightarrow> bool" where
  "grows E s s' \<longleftrightarrow> ot_next s \<le> ot_next s' \<and>
     (\<forall>t e'. om_get (ot_terms s') t = Some e' \<longrightarrow>
        (\<exists>e. om_get (ot_terms s) t = Some e \<and> entry_le e e') \<or> fresh_entry E (ot_next s) (ot_next s') t e')"

lemma entry_le_refl [simp]: "entry_le e e"
  by (simp add: entry_le_def)

lemma entry_le_trans: "entry_le e e' \<Longrightarrow> entry_le e' e'' \<Longrightarrow> entry_le e e''"
  unfolding entry_le_def by (intro conjI impI) simp_all

lemma fresh_entry_le:
  "fresh_entry E n n' t e \<Longrightarrow> entry_le e e' \<Longrightarrow> n' \<le> n'' \<Longrightarrow> fresh_entry E n n'' t e'"
  by (simp add: fresh_entry_def entry_le_def)

lemma grows_refl [simp]: "grows E s s"
  unfolding grows_def using entry_le_refl by blast

lemma grows_trans:
  assumes "grows E s s'" and "grows E s' s''"
  shows "grows E s s''"
  unfolding grows_def
proof (intro conjI allI impI)
  have n: "ot_next s \<le> ot_next s'" "ot_next s' \<le> ot_next s''" using assms by (simp_all add: grows_def)
  then show "ot_next s \<le> ot_next s''" by simp
  fix t e
  assume "om_get (ot_terms s'') t = Some e"
  then consider (old) e' where "om_get (ot_terms s') t = Some e'" "entry_le e' e"
    | (new) "fresh_entry E (ot_next s') (ot_next s'') t e"
    using assms(2) unfolding grows_def by blast
  then show "(\<exists>e0. om_get (ot_terms s) t = Some e0 \<and> entry_le e0 e) \<or>
      fresh_entry E (ot_next s) (ot_next s'') t e"
  proof cases
    case old
    consider e0 where "om_get (ot_terms s) t = Some e0" "entry_le e0 e'"
      | "fresh_entry E (ot_next s) (ot_next s') t e'"
      using assms(1) old(1) unfolding grows_def by blast
    then show ?thesis using old(2) entry_le_trans fresh_entry_le n(2) by cases blast+
  next
    case new
    then show ?thesis using n by (simp add: fresh_entry_def)
  qed
qed

lemma grows_mono: "grows E s s' \<Longrightarrow> E \<subseteq> E' \<Longrightarrow> grows E' s s'"
  unfolding grows_def fresh_entry_def by blast

text \<open>Each operation that a message runs evolves the state so.\<close>

lemma grows_set_entry:
  "om_get (ot_terms s) t = Some e \<Longrightarrow> entry_le e e' \<Longrightarrow> grows E s (set_entry t e' s)"
  unfolding grows_def set_entry_def using entry_le_refl by (simp split: if_splits)

lemma grows_current [simp]:
  "grows E s (s'\<lparr>ot_current := c\<rparr>) = grows E s s'" "grows E (s\<lparr>ot_current := c\<rparr>) s' = grows E s s'"
  by (simp_all add: grows_def)

lemma wait_for_grows: "om_get (ot_terms s) t = Some e \<Longrightarrow> grows E s (wait_for t e w s)"
  by (auto simp: wait_for_def intro!: grows_set_entry simp: entry_le_def)

lemma make_current_grows: "grows E s (make_current t s)"
  by (auto simp: make_current_def entry_le_def split: option.split intro!: grows_set_entry)

lemma end_grows: "om_get (ot_terms s) t = Some e \<Longrightarrow> grows E s (fst (ot_end t e s))"
  by (auto simp: ot_end_def Let_def entry_le_def intro!: grows_set_entry)

lemma trim_stops:
  "length m \<le> max_term_flood \<or> forget_next c m = None \<Longrightarrow> trim_terms c m = (m, [])"
  by (subst trim_terms.simps) (auto split: option.split)

lemma trim_step:
  "\<not> length m \<le> max_term_flood \<Longrightarrow> forget_next c m = Some (t, e) \<Longrightarrow>
     trim_terms c m = (fst (trim_terms c (om_del t m)), Stop_Watching (kt_serial e) # snd (trim_terms c (om_del t m)))"
  by (subst trim_terms.simps) (simp split: prod.split)

lemma trim_submap_effects:
  "(om_get (fst (trim_terms c m)) t = Some e \<longrightarrow> om_get m t = Some e) \<and>
   (eff \<in> set (snd (trim_terms c m)) \<longrightarrow> (\<exists>n. eff = Stop_Watching n))"
proof (induction c m rule: trim_terms.induct)
  case (1 c m)
  show ?case
  proof (cases "length m \<le> max_term_flood \<or> forget_next c m = None")
    case True
    then show ?thesis by (simp add: trim_stops)
  next
    case False
    then obtain t' e' where f: "forget_next c m = Some (t', e')" by auto
    show ?thesis
      using "1.IH" [OF _ f refl] False by (auto simp: trim_step [OF _ f] split: if_splits)
  qed
qed

lemmas trim_submap = trim_submap_effects [THEN conjunct1, rule_format]
lemmas trim_effects = trim_submap_effects [THEN conjunct2, rule_format]

lemma remember_forms:
  "fst (ot_remember e s) = s\<lparr>ot_terms := fst (trim_terms (ot_current s) (om_set (tc_term (kt_claim e)) e (ot_terms s)))\<rparr>"
  "snd (ot_remember e s) = snd (trim_terms (ot_current s) (om_set (tc_term (kt_claim e)) e (ot_terms s)))"
  by (simp_all add: ot_remember_def split: prod.split)

lemma remember_get:
  "om_get (ot_terms (fst (ot_remember e s))) t = Some e' \<Longrightarrow>
     t = tc_term (kt_claim e) \<and> e' = e \<or> om_get (ot_terms s) t = Some e'"
  by (auto simp: remember_forms dest!: trim_submap split: if_splits)

lemma start_checking_forms:
  "fst (ot_start_checking c m s) =
     fst (ot_remember ((new_entry c Checking False (ot_next s))\<lparr>kt_waiting := [Wait_Observe c m]\<rparr>)
            (s\<lparr>ot_next := ot_next s + 1\<rparr>))"
  by (simp add: ot_start_checking_def Let_def split: prod.split)

lemma start_checking_effects:
  "snd (ot_start_checking c m s) =
     snd (ot_remember ((new_entry c Checking False (ot_next s))\<lparr>kt_waiting := [Wait_Observe c m]\<rparr>)
            (s\<lparr>ot_next := ot_next s + 1\<rparr>)) @ [Check_Lock (ot_next s) c]"
  by (simp add: ot_start_checking_def Let_def split: prod.split)

lemma start_checking_grows:
  "set (snd (ot_start_checking c m s)) \<subseteq> E \<Longrightarrow> grows E s (fst (ot_start_checking c m s))"
  unfolding grows_def start_checking_forms start_checking_effects
  using remember_get [of "(new_entry c Checking False (ot_next s))\<lparr>kt_waiting := [Wait_Observe c m]\<rparr>"
      "s\<lparr>ot_next := ot_next s + 1\<rparr>"]
  by (fastforce simp: new_entry_def remember_forms fresh_entry_def)

lemma observe_grows: "set (snd (ot_observe c m s)) \<subseteq> E \<Longrightarrow> grows E s (fst (ot_observe c m s))"
  by (auto simp: ot_observe_def start_checking_grows wait_for_grows make_current_grows
      split: option.splits if_splits)

lemma heard_released_grows: "grows E s (fst (ot_heard_released t from s))"
proof (cases "om_get (ot_terms s) t")
  case (Some e)
  let ?s = "set_entry t (e\<lparr>kt_goodbye := True\<rparr>) s"
  have g: "grows E s ?s" using Some by (auto intro!: grows_set_entry simp: entry_le_def)
  moreover have "grows E ?s (fst (ot_end t (e\<lparr>kt_goodbye := True\<rparr>) ?s))"
    by (rule end_grows) (simp add: set_entry_def)
  ultimately have "grows E s (fst (ot_end t (e\<lparr>kt_goodbye := True\<rparr>) ?s))" by (rule grows_trans)
  then show ?thesis using Some g by (simp add: ot_heard_released_def Let_def wait_for_grows)
qed (simp add: ot_heard_released_def)

text \<open>The map stays well-formed.\<close>

lemma set_entry_inv: "om_inv (ot_terms s) \<Longrightarrow> om_inv (ot_terms (set_entry t e s))"
  by (simp add: set_entry_def)

lemma wait_for_inv: "om_inv (ot_terms s) \<Longrightarrow> om_inv (ot_terms (wait_for t e w s))"
  by (simp add: wait_for_def set_entry_inv)

lemma make_current_inv: "om_inv (ot_terms s) \<Longrightarrow> om_inv (ot_terms (make_current t s))"
  by (simp add: make_current_def set_entry_inv split: option.split)

lemma end_inv: "om_inv (ot_terms s) \<Longrightarrow> om_inv (ot_terms (fst (ot_end t e s)))"
  by (simp add: ot_end_def set_entry_inv Let_def)

lemma trim_inv: "om_inv m \<Longrightarrow> om_inv (fst (trim_terms c m))"
proof (induction c m rule: trim_terms.induct)
  case (1 c m)
  show ?case
  proof (cases "length m \<le> max_term_flood \<or> forget_next c m = None")
    case True
    then show ?thesis using 1 by (simp add: trim_stops)
  next
    case False
    then obtain t' e' where f: "forget_next c m = Some (t', e')" by auto
    show ?thesis using "1.IH" [OF _ f refl] False 1 by (simp add: trim_step [OF _ f])
  qed
qed

lemma remember_inv: "om_inv (ot_terms s) \<Longrightarrow> om_inv (ot_terms (fst (ot_remember e s)))"
  by (simp add: remember_forms trim_inv)

lemma observe_inv: "om_inv (ot_terms s) \<Longrightarrow> om_inv (ot_terms (fst (ot_observe c m s)))"
  by (simp add: ot_observe_def start_checking_forms remember_inv wait_for_inv make_current_inv split: option.split)

lemma heard_released_inv: "om_inv (ot_terms s) \<Longrightarrow> om_inv (ot_terms (fst (ot_heard_released t from s)))"
  by (simp add: ot_heard_released_def Let_def set_entry_inv end_inv wait_for_inv split: option.split)

lemma device_message_inv: "om_inv (ot_terms s) \<Longrightarrow> om_inv (ot_terms (fst (ot_device_message from m s)))"
  by (simp add: ot_device_message_def wait_for_inv split: option.split)

lemma run_waiting_inv: "om_inv (ot_terms s) \<Longrightarrow> om_inv (ot_terms (fst (run_waiting w s)))"
  by (cases w) (simp_all add: observe_inv heard_released_inv device_message_inv)

lemma run_all_inv: "om_inv (ot_terms s) \<Longrightarrow> om_inv (ot_terms (fst (run_all_waiting ws s)))"
  by (induction ws arbitrary: s) (simp_all add: run_all_Cons run_waiting_inv del: run_all_waiting.simps(2))

lemma take_own_forms:
  "fst (ot_take_own c s) =
     make_current (tc_term c) (fst (ot_remember (new_entry c Live True (ot_next s)) (s\<lparr>ot_next := ot_next s + 1\<rparr>)))"
  "snd (ot_take_own c s) =
     snd (ot_remember (new_entry c Live True (ot_next s)) (s\<lparr>ot_next := ot_next s + 1\<rparr>))"
  by (simp_all add: ot_take_own_def split: prod.split)

lemma check_answered_cases:
  obtains (stale) "ot_check_answered t n ans s = (s, [])"
  | (unknown) e where "om_get (ot_terms s) t = Some e" "kt_phase e = Checking"
      "ot_check_answered t n ans s = (s\<lparr>ot_terms := om_del t (ot_terms s)\<rparr>, [Stop_Watching n])"
  | (free) e where "om_get (ot_terms s) t = Some e" "kt_phase e = Checking"
      "ot_check_answered t n ans s = (set_entry t (e\<lparr>kt_phase := Refused, kt_waiting := []\<rparr>) s, [])"
  | (held) e s1 where "om_get (ot_terms s) t = Some e" "kt_phase e = Checking" "kt_serial e = n" "ans = Lock_Held"
      "s1 = set_entry t (e\<lparr>kt_phase := Live, kt_waiting := []\<rparr>) s"
      "ot_check_answered t n ans s =
         (fst (run_all_waiting (kt_waiting e) s1), Watch_Lock n (kt_claim e) # snd (run_all_waiting (kt_waiting e) s1))"
proof (cases "om_get (ot_terms s) t")
  case None
  then show ?thesis using stale by (simp add: ot_check_answered_def)
next
  case (Some e)
  show ?thesis
  proof (cases "kt_serial e \<noteq> n \<or> kt_phase e \<noteq> Checking")
    case True
    then show ?thesis using stale Some by (simp add: ot_check_answered_def)
  next
    case False
    then show ?thesis using unknown free held Some
      by (cases ans) (simp_all add: ot_check_answered_def split: prod.splits)
  qed
qed

lemma watch_granted_cases:
  obtains (stale) "ot_watch_granted t n ending s = (s, [])"
  | (ending) e where "om_get (ot_terms s) t = Some e" "kt_phase e = Live" "kt_serial e = n" "ending"
      "ot_watch_granted t n ending s = (set_entry t (e\<lparr>kt_ending := True\<rparr>) s, [])"
  | (over) e where "om_get (ot_terms s) t = Some e" "kt_phase e = Live" "kt_serial e = n"
      "ot_watch_granted t n ending s = ot_end t e s"
proof (cases "om_get (ot_terms s) t")
  case None
  then show ?thesis using stale by (simp add: ot_watch_granted_def)
next
  case (Some e)
  then show ?thesis using stale ending over
    by (cases "kt_serial e \<noteq> n \<or> kt_phase e \<noteq> Live"; cases "ending \<and> \<not> kt_goodbye e")
       (simp_all add: ot_watch_granted_def)
qed

lemma step_inv:
  assumes "om_inv (ot_terms s)"
  shows "om_inv (ot_terms (fst (ot_step ev s)))"
proof (cases ev)
  case (Hear m)
  then show ?thesis using assms
    by (cases m) (simp_all add: observe_inv heard_released_inv device_message_inv split: option.split)
next
  case (Check_Answered t n ans)
  then show ?thesis using assms
    by (cases rule: check_answered_cases [of t n ans s]) (simp_all add: set_entry_inv run_all_inv)
next
  case (Watch_Granted t n ending)
  then show ?thesis using assms
    by (cases rule: watch_granted_cases [of t n ending s]) (simp_all add: set_entry_inv end_inv)
qed (use assms in \<open>simp_all add: take_own_forms ot_end_own_def ot_dispose_def make_current_inv
       remember_inv end_inv split: option.split\<close>)

text \<open>What the messages and what waited do.\<close>

lemma first_matching_get:
  "om_inv m \<Longrightarrow> first_matching P m = Some (t, e) \<Longrightarrow> om_get m t = Some e \<and> P e"
  using first_matching_SomeD [of P m t e] by (simp add: om_get_iff_in_set)

lemma device_message_grows: "om_inv (ot_terms s) \<Longrightarrow> grows E s (fst (ot_device_message from m s))"
  by (auto simp: ot_device_message_def checked_term_of_def wait_for_grows dest: first_matching_get split: option.split)

lemma run_waiting_grows:
  "om_inv (ot_terms s) \<Longrightarrow> set (snd (run_waiting w s)) \<subseteq> E \<Longrightarrow> grows E s (fst (run_waiting w s))"
  by (cases w) (simp_all add: observe_grows heard_released_grows device_message_grows)

lemma run_all_grows:
  "om_inv (ot_terms s) \<Longrightarrow> set (snd (run_all_waiting ws s)) \<subseteq> E \<Longrightarrow> grows E s (fst (run_all_waiting ws s))"
proof (induction ws arbitrary: s)
  case (Cons w ws)
  have "grows E s (fst (run_waiting w s))"
    using Cons.prems by (simp add: run_waiting_grows run_all_Cons del: run_all_waiting.simps)
  moreover have "grows E (fst (run_waiting w s)) (fst (run_all_waiting ws (fst (run_waiting w s))))"
    using Cons.prems by (intro Cons.IH) (simp_all add: run_waiting_inv run_all_Cons del: run_all_waiting.simps)
  ultimately show ?case by (simp add: run_all_Cons grows_trans del: run_all_waiting.simps)
qed simp

lemma authorize_grows:
  "om_inv (ot_terms s) \<Longrightarrow> set (snd (ot_authorize m s)) \<subseteq> E \<Longrightarrow> grows E s (fst (ot_authorize m s))"
  by (cases m) (auto simp: observe_grows heard_released_grows device_message_grows split: option.split if_splits)

text \<open>Who is known to hold a term's lock, and the effects that rest on it.\<close>

definition live_for :: "'m owner_terms \<Rightarrow> term_id \<Rightarrow> client_id \<Rightarrow> bool" where
  "live_for s t from = (case om_get (ot_terms s) t of
     None \<Rightarrow> False | Some e \<Rightarrow> kt_phase e = Live \<and> tc_from (kt_claim e) = from)"

definition sound_effect :: "'m owner_terms \<Rightarrow> 'm ot_effect \<Rightarrow> bool" where
  "sound_effect s eff = (case eff of
     Applied (Claim_Message c m) \<Rightarrow> live_for s (tc_term c) (tc_from c)
   | Applied (Device_Message from m) \<Rightarrow> (\<exists>t. live_for s t from)
   | Applied (Released_Message t from) \<Rightarrow> False
   | Term_Over t w \<Rightarrow> (\<exists>e. om_get (ot_terms s) t = Some e \<and> kt_ending e)
   | _ \<Rightarrow> True)"

lemma live_for_back: "grows E s s' \<Longrightarrow> live_for s' t from \<Longrightarrow> live_for s t from"
  unfolding live_for_def grows_def fresh_entry_def entry_le_def
  by (fastforce split: option.splits)

lemma sound_effect_back: "grows E s s' \<Longrightarrow> sound_effect s' eff \<Longrightarrow> sound_effect s eff"
proof -
  assume g: "grows E s s'" and "sound_effect s' eff"
  moreover have "\<exists>e. om_get (ot_terms s) t = Some e \<and> kt_ending e"
    if "om_get (ot_terms s') t = Some e" "kt_ending e" for t e
    using g that unfolding grows_def fresh_entry_def entry_le_def by blast
  ultimately show ?thesis using live_for_back [OF g]
    unfolding sound_effect_def by (simp split: ot_effect.splits term_message.splits) blast+
qed

lemma remember_effects: "eff \<in> set (snd (ot_remember e s)) \<Longrightarrow> \<exists>n. eff = Stop_Watching n"
  by (simp add: remember_forms trim_effects)

lemma observe_sound: "eff \<in> set (snd (ot_observe c m s)) \<Longrightarrow> sound_effect s eff"
  by (auto simp: ot_observe_def start_checking_effects sound_effect_def live_for_def is_same_claim_def
      dest!: remember_effects split: option.splits if_splits term_phase.splits)
     (metis term_phase.exhaust)

lemma heard_released_sound: "eff \<in> set (snd (ot_heard_released t from s)) \<Longrightarrow> sound_effect s eff"
  by (auto simp: ot_heard_released_def Let_def ot_end_def sound_effect_def split: option.splits if_splits)

lemma speaks_live: "om_inv (ot_terms s) \<Longrightarrow> speaks_for_live_term s from \<Longrightarrow> \<exists>t. live_for s t from"
proof -
  assume inv: "om_inv (ot_terms s)" and "speaks_for_live_term s from"
  then obtain t e where "(t, e) \<in> set (ot_terms s)" "tc_from (kt_claim e) = from" "kt_phase e = Live"
    by (auto simp: speaks_for_live_term_def list_ex_iff)
  then have "live_for s t from" using inv by (simp add: live_for_def flip: om_get_iff_in_set)
  then show ?thesis by blast
qed

lemma device_message_sound: "eff \<in> set (snd (ot_device_message from m s)) \<Longrightarrow> om_inv (ot_terms s) \<Longrightarrow> sound_effect s eff"
  using speaks_live [of s "from"]
  by (auto simp: ot_device_message_def sound_effect_def split: option.splits if_splits)

lemma run_waiting_sound: "eff \<in> set (snd (run_waiting w s)) \<Longrightarrow> om_inv (ot_terms s) \<Longrightarrow> sound_effect s eff"
  by (cases w) (simp_all add: observe_sound heard_released_sound device_message_sound)

lemma run_all_sound:
  "eff \<in> set (snd (run_all_waiting ws s)) \<Longrightarrow> om_inv (ot_terms s) \<Longrightarrow> sound_effect s eff"
proof (induction ws arbitrary: s)
  case (Cons w ws)
  consider "eff \<in> set (snd (run_waiting w s))"
    | "eff \<in> set (snd (run_all_waiting ws (fst (run_waiting w s))))"
    using Cons.prems(1) by (auto simp: run_all_Cons simp del: run_all_waiting.simps)
  then show ?case
  proof cases
    case 2
    then have "sound_effect (fst (run_waiting w s)) eff"
      using Cons.IH Cons.prems(2) by (simp add: run_waiting_inv)
    then show ?thesis
      using sound_effect_back [OF run_waiting_grows [OF Cons.prems(2) subset_UNIV]] by blast
  qed (use Cons.prems in \<open>simp add: run_waiting_sound\<close>)
qed simp

text \<open>What the events so far, and the requests made for them, say about every entry.\<close>

definition vouched :: "'m ot_event list \<Rightarrow> 'm ot_effect list \<Rightarrow> term_id \<Rightarrow> client_id \<Rightarrow> bool" where
  "vouched evs es t from \<longleftrightarrow> (\<exists>c. tc_term c = t \<and> tc_from c = from \<and>
     (Take_Own c \<in> set evs \<or> (\<exists>n. Check_Lock n c \<in> set es \<and> Check_Answered t n Lock_Held \<in> set evs)))"

definition entry_hist :: "'m ot_event list \<Rightarrow> 'm ot_effect list \<Rightarrow> nat \<Rightarrow> term_id \<Rightarrow> 'm known_term \<Rightarrow> bool" where
  "entry_hist evs es n t e \<longleftrightarrow> kt_serial e < n \<and> tc_term (kt_claim e) = t \<and>
     (if kt_own e then Take_Own (kt_claim e) \<in> set evs else Check_Lock (kt_serial e) (kt_claim e) \<in> set es) \<and>
     (kt_phase e = Live \<and> \<not> kt_own e \<longrightarrow> Check_Answered t (kt_serial e) Lock_Held \<in> set evs) \<and>
     (kt_ending e \<longrightarrow> Watch_Granted t (kt_serial e) True \<in> set evs)"

definition ot_hist :: "'m ot_event list \<Rightarrow> 'm ot_effect list \<Rightarrow> 'm owner_terms \<Rightarrow> bool" where
  "ot_hist evs es s \<longleftrightarrow> om_inv (ot_terms s) \<and>
     (\<forall>t e. om_get (ot_terms s) t = Some e \<longrightarrow> entry_hist evs es (ot_next s) t e)"

lemma entry_hist_mono:
  "entry_hist evs es n t e \<Longrightarrow> set evs \<subseteq> set evs' \<Longrightarrow> set es \<subseteq> set es' \<Longrightarrow> n \<le> n' \<Longrightarrow> entry_hist evs' es' n' t e"
  unfolding entry_hist_def by auto

lemma entry_hist_le:
  "entry_hist evs es n t e \<Longrightarrow> entry_le e e' \<Longrightarrow> entry_hist evs es n t e'"
  by (auto simp: entry_hist_def entry_le_def)

lemma hist_mono: "ot_hist evs es s \<Longrightarrow> set evs \<subseteq> set evs' \<Longrightarrow> set es \<subseteq> set es' \<Longrightarrow> ot_hist evs' es' s"
  unfolding ot_hist_def using entry_hist_mono [OF _ _ _ order_refl] by blast

lemma hist_grows:
  assumes "ot_hist evs es s" and "grows (set es) s s'" and "om_inv (ot_terms s')"
  shows "ot_hist evs es s'"
  unfolding ot_hist_def
proof (intro conjI allI impI)
  have n: "ot_next s \<le> ot_next s'" using assms(2) by (simp add: grows_def)
  fix t e
  assume "om_get (ot_terms s') t = Some e"
  then consider e0 where "om_get (ot_terms s) t = Some e0" "entry_le e0 e"
    | "fresh_entry (set es) (ot_next s) (ot_next s') t e"
    using assms(2) unfolding grows_def by blast
  then show "entry_hist evs es (ot_next s') t e"
  proof cases
    case 1
    then have "entry_hist evs es (ot_next s) t e"
      using assms(1) entry_hist_le unfolding ot_hist_def by blast
    then show ?thesis using n entry_hist_mono by blast
  next
    case 2
    then show ?thesis by (simp add: fresh_entry_def entry_hist_def)
  qed
qed (rule assms(3))

lemma hist_set_entry:
  "ot_hist evs es s \<Longrightarrow> entry_hist evs es (ot_next s) t e \<Longrightarrow> ot_hist evs es (set_entry t e s)"
  by (simp add: ot_hist_def set_entry_def)

lemma hist_live: "ot_hist evs es s \<Longrightarrow> live_for s t from \<Longrightarrow> vouched evs es t from"
  unfolding ot_hist_def live_for_def vouched_def entry_hist_def
  by (auto split: option.splits if_splits)

lemma step_hist:
  assumes "ot_hist evs es s" and "set evs \<subseteq> set evs'" and "ev \<in> set evs'"
    and "set es \<subseteq> set es'" and "set (snd (ot_step ev s)) \<subseteq> set es'"
  shows "ot_hist evs' es' (fst (ot_step ev s))"
proof -
  have h: "ot_hist evs' es' s" using assms hist_mono by blast
  then have inv: "om_inv (ot_terms s)" by (simp add: ot_hist_def)
  note grow = hist_grows [OF h _ step_inv [OF inv]]
  show ?thesis
  proof (cases ev)
    case (Hear m)
    then show ?thesis using assms(5) inv by (intro grow) (simp add: authorize_grows)
  next
    case (End_Own t)
    then show ?thesis by (intro grow) (simp add: ot_end_own_def end_grows split: option.split)
  next
    case Dispose_Terms
    then show ?thesis by (intro grow) (simp add: ot_dispose_def grows_def)
  next
    case (Take_Own c)
    let ?s = "fst (ot_remember (new_entry c Live True (ot_next s)) (s\<lparr>ot_next := ot_next s + 1\<rparr>))"
    have "ot_hist evs' es' ?s"
      unfolding ot_hist_def
    proof (intro conjI allI impI)
      show "om_inv (ot_terms ?s)" using inv by (simp add: remember_inv)
      fix t e
      assume "om_get (ot_terms ?s) t = Some e"
      from remember_get [OF this]
      consider "t = tc_term c" "e = new_entry c Live True (ot_next s)" | "om_get (ot_terms s) t = Some e"
        by (auto simp: new_entry_def)
      then show "entry_hist evs' es' (ot_next ?s) t e"
      proof cases
        case 1
        then show ?thesis using assms(3) Take_Own by (simp add: remember_forms entry_hist_def new_entry_def)
      next
        case 2
        then show ?thesis using h entry_hist_mono [of evs' es' "ot_next s" t e evs' es' "ot_next ?s"]
          by (simp add: remember_forms ot_hist_def)
      qed
    qed
    then show ?thesis
      using hist_grows [OF _ make_current_grows] make_current_inv Take_Own
      by (metis ot_hist_def ot_step.simps(2) take_own_forms(1))
  next
    case (Check_Answered t n ans)
    then show ?thesis
    proof (cases rule: check_answered_cases [of t n ans s])
      case stale
      then show ?thesis using h Check_Answered by simp
    next
      case unknown
      then show ?thesis using Check_Answered by (intro grow) (simp add: grows_def)
    next
      case (free e)
      then show ?thesis using Check_Answered by (intro grow) (auto simp: entry_le_def intro!: grows_set_entry)
    next
      case (held e s1)
      have "entry_hist evs' es' (ot_next s) t (e\<lparr>kt_phase := Live, kt_waiting := []\<rparr>)"
        using h held assms(3) Check_Answered by (auto simp: ot_hist_def entry_hist_def)
      then have "ot_hist evs' es' s1" using hist_set_entry [OF h] held by simp
      then have "ot_hist evs' es' (fst (run_all_waiting (kt_waiting e) s1))"
        using assms(5) held Check_Answered
        by (intro hist_grows [OF _ run_all_grows run_all_inv]) (auto simp: ot_hist_def)
      then show ?thesis using held Check_Answered by simp
    qed
  next
    case (Watch_Granted t n ending)
    then show ?thesis
    proof (cases rule: watch_granted_cases [of t n ending s])
      case stale
      then show ?thesis using h Watch_Granted by simp
    next
      case (ending e)
      have "entry_hist evs' es' (ot_next s) t (e\<lparr>kt_ending := True\<rparr>)"
        using h ending assms(3) Watch_Granted by (auto simp: ot_hist_def entry_hist_def)
      then show ?thesis using hist_set_entry [OF h] ending Watch_Granted by simp
    next
      case (over e)
      then show ?thesis using Watch_Granted by (intro grow) (simp add: end_grows)
    qed
  qed
qed

text \<open>An effect is justified by the events up to it and the requests made for them.\<close>

definition justified :: "'m ot_event list \<Rightarrow> 'm ot_effect list \<Rightarrow> 'm ot_effect \<Rightarrow> bool" where
  "justified evs es eff = (case eff of
     Applied (Claim_Message c m) \<Rightarrow> vouched evs es (tc_term c) (tc_from c)
   | Applied (Device_Message from m) \<Rightarrow> (\<exists>t. vouched evs es t from)
   | Applied (Released_Message t from) \<Rightarrow> False
   | Term_Over t w \<Rightarrow> End_Own t \<in> set evs \<or> (\<exists>n ending. Watch_Granted t n ending \<in> set evs)
   | _ \<Rightarrow> True)"

lemma justified_mono: "justified evs es eff \<Longrightarrow> set evs \<subseteq> set evs' \<Longrightarrow> set es \<subseteq> set es' \<Longrightarrow> justified evs' es' eff"
  unfolding justified_def vouched_def
  by (auto split: ot_effect.splits term_message.splits)

lemma sound_justified: "ot_hist evs es s \<Longrightarrow> sound_effect s eff \<Longrightarrow> justified evs es eff"
proof -
  assume h: "ot_hist evs es s" and "sound_effect s eff"
  moreover have "Watch_Granted t (kt_serial e) True \<in> set evs"
    if "om_get (ot_terms s) t = Some e" "kt_ending e" for t e
    using h that by (simp add: ot_hist_def entry_hist_def)
  ultimately show ?thesis using hist_live [OF h]
    unfolding sound_effect_def justified_def
    by (simp split: ot_effect.splits term_message.splits) blast+
qed

lemma end_effects:
  "eff \<in> set (snd (ot_end t e s)) \<Longrightarrow> (\<exists>n. eff = Stop_Watching n) \<or> (\<exists>w. eff = Term_Over t w)"
  by (auto simp: ot_end_def Let_def split: if_splits)

lemma step_justified:
  assumes "ot_hist evs es s" and "set evs \<subseteq> set evs'" and "ev \<in> set evs'"
    and "set es \<subseteq> set es'" and "eff \<in> set (snd (ot_step ev s))"
  shows "justified evs' es' eff"
proof -
  have h: "ot_hist evs' es' s" using assms hist_mono by blast
  then have inv: "om_inv (ot_terms s)" by (simp add: ot_hist_def)
  note just = sound_justified [OF h]
  have triv: "justified evs' es' (Stop_Watching n)" "justified evs' es' (Check_Lock n c)"
    "justified evs' es' (Watch_Lock n c)" for n c
    by (simp_all add: justified_def)
  show ?thesis
  proof (cases ev)
    case (Hear m)
    then show ?thesis using assms(5) just inv
      by (cases m)
         (auto simp: observe_sound heard_released_sound device_message_sound justified_def
            split: if_splits option.splits)
  next
    case (Take_Own c)
    then show ?thesis using assms(5) triv by (auto simp: take_own_forms dest: remember_effects)
  next
    case (End_Own t)
    then show ?thesis using assms(3,5) triv
      by (auto simp: ot_end_own_def justified_def dest!: end_effects split: option.splits)
  next
    case Dispose_Terms
    then show ?thesis using assms(5) triv by (auto simp: ot_dispose_def)
  next
    case (Watch_Granted t n ending)
    then show ?thesis using assms(3,5) triv
      by (cases rule: watch_granted_cases [of t n ending s]) (auto simp: justified_def dest!: end_effects)
  next
    case (Check_Answered t n ans)
    then show ?thesis
    proof (cases rule: check_answered_cases [of t n ans s])
      case (held e s1)
      have "entry_hist evs' es' (ot_next s) t (e\<lparr>kt_phase := Live, kt_waiting := []\<rparr>)"
        using h held assms(3) Check_Answered by (auto simp: ot_hist_def entry_hist_def)
      then have h1: "ot_hist evs' es' s1" using hist_set_entry [OF h] held by simp
      then have "sound_effect s1 eff" if "eff \<in> set (snd (run_all_waiting (kt_waiting e) s1))"
        using run_all_sound [OF that] by (simp add: ot_hist_def)
      then show ?thesis using assms(5) Check_Answered held triv sound_justified [OF h1] by auto
    qed (use assms(5) Check_Answered triv in auto)
  qed
qed

lemma run_justified:
  assumes "ot_hist pre es s" and "eff \<in> set (snd (ot_run evs s))"
  shows "justified (pre @ evs) (es @ snd (ot_run evs s)) eff"
  using assms
proof (induction evs arbitrary: pre es s)
  case (Cons ev evs)
  let ?s = "fst (ot_step ev s)" and ?es = "snd (ot_step ev s)"
  have h: "ot_hist (pre @ [ev]) (es @ ?es) ?s" by (rule step_hist [OF Cons.prems(1)]) auto
  consider "eff \<in> set ?es" | "eff \<in> set (snd (ot_run evs ?s))"
    using Cons.prems(2) by (auto simp: ot_run_Cons simp del: ot_run.simps)
  then show ?case
  proof cases
    case 1
    then have "justified (pre @ [ev]) (es @ ?es) eff"
      by (intro step_justified [OF Cons.prems(1)]) auto
    then show ?thesis
      by (rule justified_mono) (auto simp: ot_run_Cons simp del: ot_run.simps)
  next
    case 2
    from Cons.IH [OF h this] show ?thesis
      by (rule justified_mono) (auto simp: ot_run_Cons simp del: ot_run.simps)
  qed
qed simp

lemma init_hist: "ot_hist [] [] ot_init"
  by (simp add: ot_hist_def ot_init_def)

section \<open>What the component promises\<close>

text \<open>
  C28. Nothing that is said about the port is believed without its term's lock: over any events, a claim
  or a status is acted on only if the browser answered the request for the lock named after that
  term, sender and tab limit that it is held - or the tab took that term itself - and device data or
  an error only if that is so of some term its sender speaks for.
\<close>

theorem believed_only_with_lock:
  assumes "Applied m \<in> set (snd (ot_run evs ot_init))"
  shows "case m of
      Claim_Message c x \<Rightarrow> vouched evs (snd (ot_run evs ot_init)) (tc_term c) (tc_from c)
    | Device_Message from x \<Rightarrow> (\<exists>t. vouched evs (snd (ot_run evs ot_init)) t from)
    | Released_Message t from \<Rightarrow> False
    | _ \<Rightarrow> True"
  using run_justified [OF init_hist assms]
  by (simp add: justified_def split: term_message.splits)

text \<open>
  C29. No message ends a term: whatever is heard, and in whatever order, a term is reported over only
  if the browser granted the request that watches its lock, or the tab ended its own term itself.
\<close>

theorem term_ends_with_its_lock:
  assumes "Term_Over t was_current \<in> set (snd (ot_run evs ot_init))"
  shows "End_Own t \<in> set evs \<or> (\<exists>n ending. Watch_Granted t n ending \<in> set evs)"
  using run_justified [OF init_hist assms] by (simp add: justified_def)

section \<open>Bounds, and the current term\<close>

definition terms_ok :: "(term_id, 'm known_term) omap \<Rightarrow> bool" where
  "terms_ok m \<longleftrightarrow> om_inv m \<and>
     (\<forall>t e. om_get m t = Some e \<longrightarrow> tc_term (kt_claim e) = t \<and> length (kt_waiting e) \<le> max_term_flood)"

definition current_ok :: "'m owner_terms \<Rightarrow> bool" where
  "current_ok s \<longleftrightarrow> (\<forall>c. ot_current s = Some c \<longrightarrow>
     (\<exists>e. om_get (ot_terms s) c = Some e \<and> kt_phase e = Live \<and> \<not> kt_succeeded e))"

definition ot_ok :: "'m owner_terms \<Rightarrow> bool" where
  "ot_ok s \<longleftrightarrow> terms_ok (ot_terms s) \<and> length (ot_terms s) \<le> max_term_flood \<and> current_ok s"

lemma terms_ok_set:
  "terms_ok m \<Longrightarrow> tc_term (kt_claim e) = t \<Longrightarrow> length (kt_waiting e) \<le> max_term_flood \<Longrightarrow> terms_ok (om_set t e m)"
  by (auto simp: terms_ok_def)

lemma terms_ok_del: "terms_ok m \<Longrightarrow> terms_ok (om_del t m)"
  by (auto simp: terms_ok_def)

lemma set_entry_ok:
  assumes "ot_ok s" and "om_get (ot_terms s) t = Some e" and "kt_claim e' = kt_claim e"
    and "length (kt_waiting e') \<le> max_term_flood"
    and "ot_current s = Some t \<Longrightarrow> kt_phase e' = Live \<and> \<not> kt_succeeded e'"
  shows "ot_ok (set_entry t e' s)"
proof -
  have k: "t \<in> set (om_keys (ot_terms s))" using assms(2) by (rule om_get_Some_key)
  have "terms_ok (om_set t e' (ot_terms s))"
    using assms by (intro terms_ok_set) (auto simp: ot_ok_def terms_ok_def)
  then show ?thesis using assms k
    by (auto simp: ot_ok_def set_entry_def length_om_set current_ok_def)
qed

lemma waiting_bound: "ot_ok s \<Longrightarrow> om_get (ot_terms s) t = Some e \<Longrightarrow> length (kt_waiting e) \<le> max_term_flood"
  by (simp add: ot_ok_def terms_ok_def)

lemma current_entry:
  "ot_ok s \<Longrightarrow> ot_current s = Some t \<Longrightarrow> om_get (ot_terms s) t = Some e \<Longrightarrow> kt_phase e = Live \<and> \<not> kt_succeeded e"
  by (auto simp: ot_ok_def current_ok_def)

lemma wait_for_ok: "ot_ok s \<Longrightarrow> om_get (ot_terms s) t = Some e \<Longrightarrow> ot_ok (wait_for t e w s)"
  unfolding wait_for_def using current_entry [of s t e] by (auto intro!: set_entry_ok)

lemma end_ok: "ot_ok s \<Longrightarrow> om_get (ot_terms s) t = Some e \<Longrightarrow> ot_ok (fst (ot_end t e s))"
proof -
  assume ok: "ot_ok s" and e: "om_get (ot_terms s) t = Some e"
  let ?e = "e\<lparr>kt_phase := Phase_Ended, kt_waiting := []\<rparr>"
  have "t \<in> set (om_keys (ot_terms s))" using e by (rule om_get_Some_key)
  moreover have "terms_ok (om_set t ?e (ot_terms s))"
    using ok e by (intro terms_ok_set) (auto simp: ot_ok_def terms_ok_def)
  ultimately show ?thesis using ok
    by (auto simp: ot_end_def Let_def set_entry_def ot_ok_def length_om_set current_ok_def)
qed

lemma make_current_ok:
  assumes "ot_ok s" and "om_get (ot_terms s) t = Some e" and "kt_phase e = Live" and "\<not> kt_succeeded e"
  shows "ot_ok (make_current t s)"
proof (cases "ot_current s = Some t")
  case True
  then show ?thesis using assms by (simp add: make_current_def)
next
  case False
  have flip: "ot_ok (s'\<lparr>ot_current := Some t\<rparr>)"
    if "terms_ok (ot_terms s')" "length (ot_terms s') \<le> max_term_flood"
      "om_get (ot_terms s') t = Some e" for s' :: "'a owner_terms"
    using that assms by (simp add: ot_ok_def current_ok_def)
  show ?thesis
  proof (cases "ot_current s")
    case None
    then show ?thesis using assms flip [of s] by (simp add: make_current_def ot_ok_def)
  next
    case (Some c)
    then obtain p where p: "om_get (ot_terms s) c = Some p"
      using assms(1) by (auto simp: ot_ok_def current_ok_def)
    have "c \<in> set (om_keys (ot_terms s))" using p by (rule om_get_Some_key)
    moreover have "terms_ok (om_set c (p\<lparr>kt_succeeded := True\<rparr>) (ot_terms s))"
      using assms(1) p by (intro terms_ok_set) (auto simp: ot_ok_def terms_ok_def)
    ultimately show ?thesis
      using assms(1,2) Some p False flip [of "set_entry c (p\<lparr>kt_succeeded := True\<rparr>) s"]
      by (simp add: make_current_def set_entry_def length_om_set ot_ok_def)
  qed
qed

text \<open>\<open>#remember\<close> keeps the bound, and gives up neither the current term nor a term just taken.\<close>

lemma first_matching_None: "first_matching P m = None \<Longrightarrow> (t, e) \<in> set m \<Longrightarrow> \<not> P e"
  by (auto simp: first_matching_def find_None_iff)

lemma forget_next_exists:
  assumes "terms_ok m" and "length m > 1"
  shows "forget_next c m \<noteq> None"
proof
  assume none: "forget_next c m = None"
  have "Some t = c" if "(t, e) \<in> set m" for t e
    using none that first_matching_None [of "\<lambda>e. Some (tc_term (kt_claim e)) \<noteq> c" m t e] assms(1)
    by (auto simp: forget_next_def terms_ok_def om_get_iff_in_set split: option.splits)
  then have "set (map Some (om_keys m)) \<subseteq> {c}" by (auto simp: om_keys_def)
  then have "card (set (map Some (om_keys m))) \<le> 1"
    by (metis card_mono card.empty card_insert_disjoint empty_iff finite.emptyI finite.insertI One_nat_def)
  moreover have "distinct (map Some (om_keys m))" using assms(1) by (simp add: terms_ok_def om_inv_def distinct_map)
  ultimately show False using assms(2) by (metis distinct_card length_map not_le om_length_keys)
qed

lemma trim_bound: "terms_ok m \<Longrightarrow> length (fst (trim_terms c m)) \<le> max_term_flood \<and> terms_ok (fst (trim_terms c m))"
proof (induction c m rule: trim_terms.induct)
  case (1 c m)
  show ?case
  proof (cases "length m \<le> max_term_flood")
    case True
    then show ?thesis using 1 by (simp add: trim_stops)
  next
    case False
    then have "forget_next c m \<noteq> None" using "1.prems" by (intro forget_next_exists) (simp_all add: max_term_flood_def)
    then obtain t' e' where f: "forget_next c m = Some (t', e')" by auto
    show ?thesis using "1.IH" [OF _ f refl] False 1 by (simp add: trim_step [OF _ f] terms_ok_del)
  qed
qed

lemma trim_keeps:
  assumes "terms_ok m" and "om_get m t = Some e" and "kt_phase e = Live" and "c = Some t"
  shows "om_get (fst (trim_terms c m)) t = Some e"
  using assms
proof (induction c m rule: trim_terms.induct)
  case (1 c m)
  show ?case
  proof (cases "length m \<le> max_term_flood \<or> forget_next c m = None")
    case True
    then show ?thesis using 1 by (simp add: trim_stops)
  next
    case False
    then obtain t' e' where f: "forget_next c m = Some (t', e')" by auto
    have "om_get m t' = Some e'"
      using forget_next_SomeD [OF f] "1.prems"(1) by (simp add: terms_ok_def om_get_iff_in_set)
    moreover have "kt_phase e' \<noteq> Live \<or> Some (tc_term (kt_claim e')) \<noteq> c"
      using f by (auto simp: forget_next_def dest!: first_matching_SomeD split: option.splits)
    ultimately have ne: "t' \<noteq> t" using "1.prems" by (auto simp: terms_ok_def)
    have "om_get (fst (trim_terms c (om_del t' m))) t = Some e"
      using "1.prems" ne False by (intro "1.IH" [OF _ f refl]) (simp_all add: terms_ok_del)
    then show ?thesis using False by (simp add: trim_step [OF _ f])
  qed
qed

lemma remember_ok:
  assumes "ot_ok s" and "tc_term (kt_claim e) = t" and "length (kt_waiting e) \<le> max_term_flood"
    and "ot_current s = Some t \<Longrightarrow> kt_phase e = Live \<and> \<not> kt_succeeded e"
  shows "ot_ok (fst (ot_remember e s))"
proof -
  let ?m = "om_set t e (ot_terms s)"
  have m: "terms_ok ?m" using assms by (intro terms_ok_set) (auto simp: ot_ok_def)
  have "\<exists>e'. om_get (fst (trim_terms (ot_current s) ?m)) c = Some e' \<and> kt_phase e' = Live \<and> \<not> kt_succeeded e'"
    if c: "ot_current s = Some c" for c
  proof -
    obtain e' where "om_get ?m c = Some e'" "kt_phase e' = Live" "\<not> kt_succeeded e'"
      using assms(1,4) c by (cases "c = t") (auto simp: ot_ok_def current_ok_def)
    then show ?thesis using trim_keeps [OF m _ _ c] by blast
  qed
  then show ?thesis using trim_bound [OF m] assms(2)
    by (simp add: ot_ok_def current_ok_def remember_forms)
qed

text \<open>A term just taken is kept, whatever else has to go.\<close>


lemma first_matching_append:
  "first_matching P (m @ m') =
     (case first_matching P m of None \<Rightarrow> first_matching P m' | Some x \<Rightarrow> Some x)"
  unfolding first_matching_def by (induction m) auto

lemma forget_next_append:
  "kt_phase e = Live \<Longrightarrow> forget_next c m = Some x \<Longrightarrow> forget_next c (m @ [(t, e)]) = Some x"
  by (auto simp: forget_next_def first_matching_append split: option.splits)
     (auto simp: first_matching_def split: option.splits)

lemma remember_own_kept:
  assumes ok: "ot_ok s" and t: "tc_term (kt_claim e) = t" and live: "kt_phase e = Live"
  shows "om_get (ot_terms (fst (ot_remember e s))) t = Some e"
proof (cases "t \<in> set (om_keys (ot_terms s)) \<or> length (ot_terms s) < max_term_flood")
  case True
  then have "length (om_set t e (ot_terms s)) \<le> max_term_flood" using ok by (auto simp: length_om_set ot_ok_def)
  then show ?thesis using t by (simp add: remember_forms trim_stops)
next
  case False
  let ?c = "ot_current s" and ?m = "ot_terms s @ [(t, e)]"
  have full: "length (ot_terms s) = max_term_flood" and new: "t \<notin> set (om_keys (ot_terms s))"
    using False ok by (auto simp: ot_ok_def)
  obtain t' e' where f: "forget_next ?c (ot_terms s) = Some (t', e')"
    using forget_next_exists [of "ot_terms s" ?c] ok full by (auto simp: max_term_flood_def ot_ok_def)
  have "(t', e') \<in> set (ot_terms s)" using f by (rule forget_next_SomeD)
  then have t': "t' \<noteq> t" "(t', e') \<in> set ?m" using new by (force simp: om_keys_def)+
  then have "length (om_del t' ?m) \<le> max_term_flood" using length_om_del_less [OF t'(2)] full by simp
  then have "fst (trim_terms ?c ?m) = om_del t' ?m"
    using full by (simp add: trim_step [OF _ forget_next_append [OF live f]] trim_stops)
  moreover have "om_get ?m t = Some e" using om_get_set [of t e "ot_terms s"] new by (simp add: om_set_append)
  ultimately show ?thesis using t t' new by (simp add: remember_forms om_set_append)
qed

lemma observe_ok: "ot_ok s \<Longrightarrow> ot_ok (fst (ot_observe c m s))"
proof -
  assume ok: "ot_ok s"
  show ?thesis
  proof (cases "om_get (ot_terms s) (tc_term c)")
    case None
    have "ot_ok (s\<lparr>ot_next := ot_next s + 1\<rparr>)" using ok by (simp add: ot_ok_def current_ok_def)
    moreover have "ot_current s \<noteq> Some (tc_term c)" using ok None by (auto simp: ot_ok_def current_ok_def)
    ultimately have "ot_ok (fst (ot_start_checking c m s))"
      unfolding start_checking_forms by (intro remember_ok) (auto simp: new_entry_def max_term_flood_def)
    then show ?thesis using None ok by (simp add: ot_observe_def)
  next
    case (Some e)
    then show ?thesis using ok make_current_ok [OF ok Some] wait_for_ok [OF ok Some]
      by (cases "kt_phase e") (simp_all add: ot_observe_def)
  qed
qed

lemma heard_released_ok: "ot_ok s \<Longrightarrow> ot_ok (fst (ot_heard_released t from s))"
proof (cases "om_get (ot_terms s) t")
  case (Some e)
  assume ok: "ot_ok s"
  let ?s = "set_entry t (e\<lparr>kt_goodbye := True\<rparr>) s"
  have s': "ot_ok ?s" using current_entry [OF ok _ Some] waiting_bound [OF ok Some]
    by (intro set_entry_ok [OF ok Some]) auto
  then have "ot_ok (fst (ot_end t (e\<lparr>kt_goodbye := True\<rparr>) ?s))" by (rule end_ok) (simp add: set_entry_def)
  then show ?thesis using Some ok s' wait_for_ok [OF ok Some]
    by (simp add: ot_heard_released_def Let_def)
qed (simp add: ot_heard_released_def)

lemma device_message_ok: "ot_ok s \<Longrightarrow> ot_ok (fst (ot_device_message from m s))"
proof -
  assume ok: "ot_ok s"
  then have inv: "om_inv (ot_terms s)" by (simp add: ot_ok_def terms_ok_def)
  show ?thesis using ok first_matching_get [OF inv] wait_for_ok [OF ok]
    by (auto simp: ot_device_message_def checked_term_of_def split: option.split)
qed

lemma run_all_ok: "ot_ok s \<Longrightarrow> ot_ok (fst (run_all_waiting ws s))"
proof (induction ws arbitrary: s)
  case (Cons w ws)
  have "ot_ok (fst (run_waiting w s))" using Cons.prems
    by (cases w) (simp_all add: observe_ok heard_released_ok device_message_ok)
  then show ?case using Cons.IH by (simp add: run_all_Cons del: run_all_waiting.simps)
qed simp

lemma ot_step_ok:
  assumes ok: "ot_ok s"
  shows "ot_ok (fst (ot_step ev s))"
proof (cases ev)
  case (Hear m)
  then show ?thesis using ok
    by (cases m) (simp_all add: observe_ok heard_released_ok device_message_ok split: option.split)
next
  case (Take_Own c)
  let ?e = "new_entry c Live True (ot_next s)" and ?s = "s\<lparr>ot_next := ot_next s + 1\<rparr>"
  have s: "ot_ok ?s" using ok by (simp add: ot_ok_def current_ok_def)
  have e: "tc_term (kt_claim ?e) = tc_term c" "kt_phase ?e = Live" "\<not> kt_succeeded ?e"
    by (simp_all add: new_entry_def)
  have "ot_ok (fst (ot_remember ?e ?s))"
    using s by (intro remember_ok) (simp_all add: new_entry_def max_term_flood_def)
  from make_current_ok [OF this remember_own_kept [OF s e(1,2)] e(2,3)]
  show ?thesis by (simp add: Take_Own take_own_forms)
next
  case (End_Own t)
  then show ?thesis using ok end_ok by (auto simp: ot_end_own_def split: option.split)
next
  case (Check_Answered t n ans)
  then show ?thesis
  proof (cases rule: check_answered_cases [of t n ans s])
    case (unknown e)
    have "ot_current s \<noteq> Some t" using current_entry [OF ok _ unknown(1)] unknown(2) by auto
    moreover have "length (om_del t (ot_terms s)) \<le> length (ot_terms s)" by (simp add: om_del_def)
    ultimately have "ot_ok (s\<lparr>ot_terms := om_del t (ot_terms s)\<rparr>)"
      using ok by (auto simp: ot_ok_def current_ok_def terms_ok_del)
    then show ?thesis using unknown Check_Answered by simp
  next
    case (free e)
    have "ot_current s \<noteq> Some t" using current_entry [OF ok _ free(1)] free(2) by auto
    then show ?thesis using free Check_Answered
      by (auto simp: max_term_flood_def intro!: set_entry_ok [OF ok free(1)])
  next
    case (held e s1)
    have "ot_current s \<noteq> Some t" using current_entry [OF ok _ held(1)] held(2) by auto
    then have "ot_ok s1" unfolding held(5) by (intro set_entry_ok [OF ok held(1)]) simp_all
    then show ?thesis using held Check_Answered run_all_ok by simp
  qed (use ok in simp)
next
  case (Watch_Granted t n ending)
  then show ?thesis
  proof (cases rule: watch_granted_cases [of t n ending s])
    case (ending e)
    then have "ot_ok (set_entry t (e\<lparr>kt_ending := True\<rparr>) s)"
      using current_entry [OF ok _ ending(1)] waiting_bound [OF ok ending(1)]
      by (intro set_entry_ok [OF ok ending(1)]) auto
    then show ?thesis using ending Watch_Granted by simp
  qed (use ok end_ok Watch_Granted in auto)
next
  case Dispose_Terms
  then show ?thesis by (simp add: ot_dispose_def ot_ok_def current_ok_def terms_ok_def)
qed

lemma ot_run_ok: "ot_ok s \<Longrightarrow> ot_ok (fst (ot_run evs s))"
  by (induction evs arbitrary: s) (simp_all add: ot_run_Cons ot_step_ok del: ot_run.simps(2))

lemma ot_init_ok: "ot_ok ot_init"
  by (simp add: ot_ok_def ot_init_def terms_ok_def current_ok_def)

text \<open>
  A flood of messages cannot make a tab keep more than a handful of terms, nor lose the one that
  holds the port: after any events at most \<open>MAX_TERM_FLOOD\<close> terms are kept, each with at most as many
  messages waiting, and the current term is among them, live and not succeeded by another.
\<close>

theorem owner_terms_bounded:
  "let s = fst (ot_run evs ot_init) in
     length (ot_terms s) \<le> 16 \<and> list_all (\<lambda>(t, e). length (kt_waiting e) \<le> 16) (ot_terms s) \<and>
     (case ot_current s of
        None \<Rightarrow> True
      | Some c \<Rightarrow> (case om_get (ot_terms s) c of
                    None \<Rightarrow> False
                  | Some e \<Rightarrow> kt_phase e = Live \<and> \<not> kt_succeeded e))"
proof -
  have "ot_ok (fst (ot_run evs ot_init))" using ot_init_ok by (rule ot_run_ok)
  moreover from this have "length (kt_waiting e) \<le> 16" if "(t, e) \<in> set (ot_terms (fst (ot_run evs ot_init)))" for t e
    using that by (auto simp: ot_ok_def terms_ok_def max_term_flood_def simp flip: om_get_iff_in_set)
  ultimately show ?thesis
    by (fastforce simp: Let_def ot_ok_def max_term_flood_def current_ok_def list_all_iff split: option.split)
qed

section \<open>The properties on concrete terms\<close>

definition sample_claim :: "term_id \<Rightarrow> term_claim" where
  "sample_claim t = \<lparr>tc_term = t, tc_from = ''tab'', tc_max_tabs = None\<rparr>"

definition sample_hearing :: "string ot_event list" where
  "sample_hearing = [Hear (Device_Message ''tab'' ''data''), Hear (Claim_Message (sample_claim ''t1'') ''claim''),
     Hear (Device_Message ''tab'' ''more''), Check_Answered ''t1'' 0 Lock_Held, Watch_Granted ''t1'' 0 False]"

lemmas ot_eval = sample_hearing_def sample_claim_def ot_init_def ot_observe_def ot_start_checking_def
  new_entry_def ot_remember_def trim_terms.simps max_term_flood_def ot_device_message_def
  speaks_for_live_term_def checked_term_of_def first_matching_def wait_for_def set_entry_def
  ot_check_answered_def is_same_claim_def make_current_def ot_watch_granted_def ot_end_def

lemma sample_hearing_effects:
  "snd (ot_run sample_hearing ot_init) =
     [Check_Lock 0 (sample_claim ''t1''), Watch_Lock 0 (sample_claim ''t1''),
      Applied (Claim_Message (sample_claim ''t1'') ''claim''), Applied (Device_Message ''tab'' ''more''),
      Stop_Watching 0, Term_Over ''t1'' True]"
  by (simp add: ot_eval)

lemma believed_only_with_lock_witness:
  "\<exists>t. vouched sample_hearing (snd (ot_run sample_hearing ot_init)) t ''tab''"
  using believed_only_with_lock [of "Device_Message ''tab'' ''more''" sample_hearing]
  by (simp add: sample_hearing_effects)

lemma term_ends_with_its_lock_witness:
  "End_Own ''t1'' \<in> set sample_hearing \<or> (\<exists>n ending. Watch_Granted ''t1'' n ending \<in> set sample_hearing)"
  using term_ends_with_its_lock [of "''t1''" True sample_hearing]
  by (simp add: sample_hearing_effects)

end
