(* ===== verification/Configuration.thy ===== *)
theory Configuration
  imports Errors
begin

text \<open>
  The configuration the rest of the program works with (\<open>core/defaults.ts\<close>), the device a filter
  names, and how ports are matched against it (\<open>owner/port-matcher.ts\<close>).
\<close>

section \<open>Settings\<close>

text \<open>A count that may be \<open>Infinity\<close>.\<close>

datatype limit = Limit int | Unlimited

datatype resolved_device = Usb int int | Non_Usb

datatype explicit_device = Resolved resolved_device | Any_Device

datatype device_filter = Explicit explicit_device | Auto "resolved_device option"

record serial_settings =
  ss_baud_rate :: int
  ss_data_bits :: int
  ss_stop_bits :: int
  ss_parity :: js_string
  ss_buffer_size :: int
  ss_flow_control :: js_string

record connection_settings =
  cs_initial_delay :: int
  cs_factor :: rat
  cs_max_delay :: int
  cs_jitter :: rat
  cs_max_attempts :: limit
  cs_stable_after :: int
  cs_open_timeout :: int
  cs_write_timeout :: int
  cs_max_chunk :: int
  cs_auto_reconnect :: bool

record receive_settings =
  rs_idle :: int
  rs_max_wait :: int

record encoding_settings =
  es_encoding :: js_string
  es_decode_text :: bool

record configuration =
  nc_name :: js_string
  nc_device :: device_filter
  nc_serial :: serial_settings
  nc_connection :: connection_settings
  nc_encoding :: encoding_settings
  nc_receive :: receive_settings
  nc_remember :: bool
  nc_max_tabs :: limit

definition max_config_name_length :: nat where
  "max_config_name_length = 128"

definition default_connection :: connection_settings where
  "default_connection = \<lparr>cs_initial_delay = 250, cs_factor = 2, cs_max_delay = 30000, cs_jitter = 1/2,
     cs_max_attempts = Unlimited, cs_stable_after = 5000, cs_open_timeout = 10000,
     cs_write_timeout = 5000, cs_max_chunk = 4096, cs_auto_reconnect = True\<rparr>"

definition default_receive :: receive_settings where
  "default_receive = \<lparr>rs_idle = 50, rs_max_wait = 500\<rparr>"

definition default_encoding :: encoding_settings where
  "default_encoding = \<lparr>es_encoding = js ''utf-8'', es_decode_text = False\<rparr>"

section \<open>The device in effect\<close>

fun effective_device :: "device_filter \<Rightarrow> explicit_device option" where
  "effective_device (Explicit d) = Some d"
| "effective_device (Auto r) = map_option Resolved r"

text \<open>The public statuses of a configuration.\<close>

datatype status = Status_Idle | Status_Queued | Status_Awaiting_Permission | Status_Connecting | Status_Open
  | Status_Reconnecting | Status_Failed | Status_Released

fun status_name :: "status \<Rightarrow> string" where
  "status_name Status_Idle = ''idle''"
| "status_name Status_Queued = ''queued''"
| "status_name Status_Awaiting_Permission = ''awaiting-permission''"
| "status_name Status_Connecting = ''connecting''"
| "status_name Status_Open = ''open''"
| "status_name Status_Reconnecting = ''reconnecting''"
| "status_name Status_Failed = ''failed''"
| "status_name Status_Released = ''released''"

definition all_statuses :: "status list" where
  "all_statuses = [Status_Idle, Status_Queued, Status_Awaiting_Permission, Status_Connecting, Status_Open,
     Status_Reconnecting, Status_Failed, Status_Released]"

lemma all_statuses_complete: "set all_statuses = UNIV"
proof -
  have "st \<in> set all_statuses" for st by (cases st) (simp_all add: all_statuses_def)
  then show ?thesis by blast
qed

text \<open>What a port reports of itself (\<open>getInfo()\<close>): its USB IDs, if it has them.\<close>

record port_info =
  pi_vendor :: "int option"
  pi_product :: "int option"

definition has_usb_identity :: "port_info \<Rightarrow> bool" where
  "has_usb_identity i \<longleftrightarrow> pi_vendor i \<noteq> None \<and> pi_product i \<noteq> None"

fun matches_device :: "device_filter \<Rightarrow> port_info \<Rightarrow> bool" where
  "matches_device f i = (case effective_device f of
     None \<Rightarrow> False
   | Some Any_Device \<Rightarrow> True
   | Some (Resolved Non_Usb) \<Rightarrow> \<not> has_usb_identity i
   | Some (Resolved (Usb v p)) \<Rightarrow> pi_vendor i = Some v \<and> pi_product i = Some p)"

definition resolve_device :: "port_info \<Rightarrow> resolved_device" where
  "resolve_device i = (case (pi_vendor i, pi_product i) of (Some v, Some p) \<Rightarrow> Usb v p | _ \<Rightarrow> Non_Usb)"

text \<open>\<open>findGrantedPort\<close>: the first granted port that matches, of those \<open>getPorts()\<close> lists.\<close>

definition find_granted_port :: "('p \<Rightarrow> port_info) \<Rightarrow> 'p list \<Rightarrow> device_filter \<Rightarrow> 'p option" where
  "find_granted_port info ports f =
     (case filter (\<lambda>p. matches_device f (info p)) ports of [] \<Rightarrow> None | p # _ \<Rightarrow> Some p)"

text \<open>The filters handed to the browser's picker: none, or one USB identity.\<close>

definition to_request_options :: "device_filter \<Rightarrow> (int \<times> int) list option" where
  "to_request_options f = (case effective_device f of
     Some (Resolved (Usb v p)) \<Rightarrow> Some [(v, p)]
   | _ \<Rightarrow> None)"

record device_description =
  dd_kind :: string
  dd_vendor :: "int option"
  dd_product :: "int option"

definition describe_device :: "device_filter \<Rightarrow> device_description" where
  "describe_device f = (case effective_device f of
     None \<Rightarrow> \<lparr>dd_kind = ''auto'', dd_vendor = None, dd_product = None\<rparr>
   | Some Any_Device \<Rightarrow> \<lparr>dd_kind = ''any'', dd_vendor = None, dd_product = None\<rparr>
   | Some (Resolved Non_Usb) \<Rightarrow> \<lparr>dd_kind = ''non-usb'', dd_vendor = None, dd_product = None\<rparr>
   | Some (Resolved (Usb v p)) \<Rightarrow> \<lparr>dd_kind = ''usb'', dd_vendor = Some v, dd_product = Some p\<rparr>)"

section \<open>Whether two configurations may share a connection\<close>

fun same_explicit :: "explicit_device \<Rightarrow> explicit_device \<Rightarrow> bool" where
  "same_explicit (Resolved (Usb v p)) (Resolved (Usb v' p')) = (v = v' \<and> p = p')"
| "same_explicit (Resolved Non_Usb) (Resolved Non_Usb) = True"
| "same_explicit Any_Device Any_Device = True"
| "same_explicit _ _ = False"

fun same_device :: "device_filter \<Rightarrow> device_filter \<Rightarrow> bool" where
  "same_device (Auto r) b = (case b of Auto _ \<Rightarrow> True
     | Explicit e \<Rightarrow> (case r of None \<Rightarrow> True | Some d \<Rightarrow> same_explicit (Resolved d) e))"
| "same_device (Explicit d) (Auto r) = (case r of None \<Rightarrow> True | Some e \<Rightarrow> same_explicit d (Resolved e))"
| "same_device (Explicit d) (Explicit e) = same_explicit d e"

definition is_device_compatible :: "configuration \<Rightarrow> configuration \<Rightarrow> bool" where
  "is_device_compatible a b \<longleftrightarrow>
     same_device (nc_device a) (nc_device b) \<and>
     ss_baud_rate (nc_serial a) = ss_baud_rate (nc_serial b) \<and>
     ss_buffer_size (nc_serial a) = ss_buffer_size (nc_serial b) \<and>
     ss_data_bits (nc_serial a) = ss_data_bits (nc_serial b) \<and>
     ss_stop_bits (nc_serial a) = ss_stop_bits (nc_serial b) \<and>
     ss_parity (nc_serial a) = ss_parity (nc_serial b) \<and>
     ss_flow_control (nc_serial a) = ss_flow_control (nc_serial b) \<and>
     nc_max_tabs a = nc_max_tabs b"

lemma same_explicit_iff: "same_explicit d e \<longleftrightarrow> d = e"
  by (induction d e rule: same_explicit.induct) auto

text \<open>
  A chosen port is found again: the device that auto mode resolves a port to matches that port,
  whatever IDs it reports, so the port found among the granted ones is the first that resolves to the
  same device; and an auto-mode filter that has not resolved finds none.
\<close>

theorem resolved_port_found:
  "find_granted_port info ports (Auto (Some (resolve_device i))) =
     List.find (\<lambda>p. resolve_device (info p) = resolve_device i) ports \<and>
   find_granted_port info ports (Auto None) = None"
proof -
  have same: "matches_device (Auto (Some (resolve_device i))) j \<longleftrightarrow> resolve_device j = resolve_device i" for j
    by (cases "pi_vendor i"; cases "pi_product i"; cases "pi_vendor j"; cases "pi_product j")
      (auto simp: resolve_device_def has_usb_identity_def)
  have first: "(case filter P xs of [] \<Rightarrow> None | x # _ \<Rightarrow> Some x) = List.find P xs" for P and xs :: "'a list"
    by (induction xs) auto
  have none: "\<not> matches_device (Auto None) j" for j by simp
  show ?thesis by (simp add: find_granted_port_def same first none del: matches_device.simps)
qed

text \<open>Compatibility of devices is symmetric.\<close>

lemma same_device_sym: "same_device a b = same_device b a"
  by (cases a; cases b) (auto simp: same_explicit_iff split: option.splits)

end
