(* ===== verification/Validation.thy ===== *)
theory Validation
  imports Configuration
begin

text \<open>
  The validation of what the application passes (\<open>core/validation.ts\<close>): every option is read, checked
  and turned into the \<open>configuration\<close> the rest of the program trusts, or refused with an
  \<open>INVALID_ARGUMENT\<close> that names it; and \<open>toSetupOptions\<close>, which turns a configuration back into options.

  The checks run in the code's order, so the error of several wrong options is the first one's. What
  the platform's \<open>TextDecoder\<close> makes of a label is the argument \<open>canon\<close>: its canonical name, or
  nothing for a label it refuses.
\<close>

section \<open>Bounds\<close>

definition usb_id_max :: int where "usb_id_max = 65535"
definition max_baud_rate :: int where "max_baud_rate = 20000000"
definition max_buffer_bytes :: int where "max_buffer_bytes = 16 * 1024 * 1024"
definition max_delay_ms :: int where "max_delay_ms = 3600000"
definition max_timeout_ms :: int where "max_timeout_ms = 600000"
definition max_attempts_limit :: int where "max_attempts_limit = 1000000"
definition max_tab_limit :: int where "max_tab_limit = 100"

lemmas bound_defs = usb_id_max_def max_baud_rate_def max_buffer_bytes_def max_delay_ms_def
  max_timeout_ms_def max_attempts_limit_def max_tab_limit_def

section \<open>Errors\<close>

definition is_loggable :: "js_value \<Rightarrow> bool" where
  "is_loggable v = (case v of JString s \<Rightarrow> True | JNumber n \<Rightarrow> True | JBool b \<Rightarrow> True | _ \<Rightarrow> False)"

definition invalid_argument :: "string \<Rightarrow> string \<Rightarrow> js_value \<Rightarrow> sb_error" where
  "invalid_argument arg expected v = mk_error INVALID_ARGUMENT (arg @ '' must be '' @ expected)
     (no_options\<lparr>opt_context := [(''argumentName'', CText arg), (''expected'', CText expected),
        (''actualType'', CText (type_name v)),
        (''actualValue'', if is_loggable v then CValue v else CAbsent)]\<rparr>)"

type_synonym 'a checked = "sb_error + 'a"

section \<open>Names\<close>

definition is_high :: "16 word \<Rightarrow> bool" where "is_high c \<longleftrightarrow> 0xd800 \<le> c \<and> c \<le> 0xdbff"
definition is_low :: "16 word \<Rightarrow> bool" where "is_low c \<longleftrightarrow> 0xdc00 \<le> c \<and> c \<le> 0xdfff"

fun has_unpaired_surrogate :: "js_string \<Rightarrow> bool" where
  "has_unpaired_surrogate [] = False"
| "has_unpaired_surrogate [c] = (is_high c \<or> is_low c)"
| "has_unpaired_surrogate (c # d # s) =
     (if is_high c then (if is_low d then has_unpaired_surrogate s else True)
      else if is_low c then True
      else has_unpaired_surrogate (d # s))"

definition is_control :: "16 word \<Rightarrow> bool" where
  "is_control c \<longleftrightarrow> c < 0x20 \<or> (0x7f \<le> c \<and> c \<le> 0x9f)"

definition validate_name :: "js_value \<Rightarrow> string \<Rightarrow> js_string checked" where
  "validate_name v arg = (case v of
     JString s \<Rightarrow>
       if s = [] then Inl (invalid_argument arg ''a non-empty string'' v)
       else if length s > max_config_name_length
       then Inl (invalid_argument arg (''at most '' @ nat_digits max_config_name_length @ '' characters'')
                  (js_int (int (length s))))
       else if list_ex is_control s then Inl (invalid_argument arg ''free of control characters'' v)
       else if has_unpaired_surrogate s
       then Inl (invalid_argument arg ''well-formed Unicode, without unpaired surrogates'' v)
       else Inr s
   | _ \<Rightarrow> Inl (invalid_argument arg ''a string'' v))"

section \<open>Single values\<close>

definition range_text :: "int \<Rightarrow> int \<Rightarrow> string" where
  "range_text low high = ''between '' @ nat_digits (nat low) @ '' and '' @ nat_digits (nat high)"

fun require_integer :: "js_value \<Rightarrow> string \<Rightarrow> int \<Rightarrow> int \<Rightarrow> int checked" where
  "require_integer (JNumber n) arg low high =
     (if \<not> is_integer n then Inl (invalid_argument arg ''an integer'' (JNumber n))
      else if int_value n < low \<or> int_value n > high
      then Inl (invalid_argument arg (''an integer '' @ range_text low high) (JNumber n))
      else Inr (int_value n))"
| "require_integer v arg low high = Inl (invalid_argument arg ''an integer'' v)"

fun require_integer_or_infinity :: "js_value \<Rightarrow> string \<Rightarrow> int \<Rightarrow> int \<Rightarrow> limit checked" where
  "require_integer_or_infinity (JNumber n) arg low high =
     (if n = Pos_Infinity then Inr Unlimited
      else if \<not> is_integer n \<or> int_value n < low \<or> int_value n > high
      then Inl (invalid_argument arg (''an integer '' @ range_text low high @ '', or Infinity'') (JNumber n))
      else Inr (Limit (int_value n)))"
| "require_integer_or_infinity v arg low high =
     Inl (invalid_argument arg (''an integer '' @ range_text low high @ '', or Infinity'') v)"

fun require_finite_number :: "js_value \<Rightarrow> string \<Rightarrow> int \<Rightarrow> int \<Rightarrow> rat checked" where
  "require_finite_number (JNumber (Finite q)) arg low high =
     (if q < of_int low \<or> q > of_int high
      then Inl (invalid_argument arg (range_text low high) (JNumber (Finite q)))
      else Inr q)"
| "require_finite_number v arg low high = Inl (invalid_argument arg ''a finite number'' v)"

text \<open>\<open>requireOneOf\<close>: the values allowed, each with its text.\<close>

definition require_one_of :: "js_value \<Rightarrow> string \<Rightarrow> (string \<times> js_value) list \<Rightarrow> js_value checked" where
  "require_one_of v arg allowed =
     (if v \<in> snd ` set allowed then Inr v
      else Inl (invalid_argument arg (''one of '' @ concat (map (\<lambda>(i, a). (if i = 0 then '''' else '', '') @ fst a)
        (enumerate 0 allowed))) v))"

fun require_boolean :: "js_value \<Rightarrow> string \<Rightarrow> bool checked" where
  "require_boolean (JBool b) arg = Inr b"
| "require_boolean v arg = Inl (invalid_argument arg ''a boolean'' v)"

definition or_default :: "js_value \<Rightarrow> js_value \<Rightarrow> js_value" where
  "or_default v d = (if v = JUndefined then d else v)"

fun require_object :: "js_value \<Rightarrow> string \<Rightarrow> (string \<times> js_value) list checked" where
  "require_object (JObject ps) arg = Inr ps"
| "require_object (JHost tag ps) arg = Inr ps"
| "require_object v arg = Inl (invalid_argument arg ''an object'' v)"

definition optional_object :: "js_value \<Rightarrow> string \<Rightarrow> (string \<times> js_value) list checked" where
  "optional_object v arg = (if v = JUndefined then Inr [] else require_object v arg)"

fun string_value :: "js_value \<Rightarrow> js_string" where
  "string_value (JString s) = s"
| "string_value _ = []"

fun number_value :: "js_value \<Rightarrow> int" where
  "number_value (JNumber n) = int_value n"
| "number_value _ = 0"

definition validate_encoding_label ::
  "(js_string \<Rightarrow> js_string option) \<Rightarrow> js_value \<Rightarrow> string \<Rightarrow> js_string checked" where
  "validate_encoding_label canon v arg =
     (let refused = Inl (invalid_argument arg ''an encoding label that TextDecoder accepts'' v) in
      case v of JString s \<Rightarrow> if s = [] then refused else (case canon s of None \<Rightarrow> refused | Some e \<Rightarrow> Inr e)
      | _ \<Rightarrow> refused)"

section \<open>The device\<close>

definition normalize_usb_device :: "js_value \<Rightarrow> js_value \<Rightarrow> string \<Rightarrow> resolved_device checked" where
  "normalize_usb_device v p arg =
     check (require_integer v (arg @ ''.vendorId'') 0 usb_id_max) (\<lambda>vendor.
     check (require_integer p (arg @ ''.productId'') 0 usb_id_max) (\<lambda>product. Inr (Usb vendor product)))"

definition normalize_resolved_device :: "js_value \<Rightarrow> resolved_device checked" where
  "normalize_resolved_device v =
     (let arg = ''options.device.resolved'' in
      check (require_object v arg) (\<lambda>raw.
        if prop_of raw ''nonUsb'' \<noteq> JUndefined then
          if prop_of raw ''nonUsb'' \<noteq> JBool True
          then Inl (invalid_argument (arg @ ''.nonUsb'') ''true, or absent'' (prop_of raw ''nonUsb''))
          else if prop_of raw ''vendorId'' \<noteq> JUndefined \<or> prop_of raw ''productId'' \<noteq> JUndefined
          then Inl (invalid_argument arg ''either { vendorId, productId } or { nonUsb: true }, not both'' v)
          else Inr Non_Usb
        else normalize_usb_device (prop_of raw ''vendorId'') (prop_of raw ''productId'') arg))"

definition device_shapes :: string where
  "device_shapes = ''one of { vendorId, productId }, { any: true }, { nonUsb: true } or { auto: true }, not a mixture''"

text \<open>A flag is true or absent; the first of three that is neither is the error's.\<close>

fun check_flags :: "(string \<times> js_value) list \<Rightarrow> unit checked" where
  "check_flags [] = Inr ()"
| "check_flags ((flag, v) # rest) =
     (if v \<noteq> JUndefined \<and> v \<noteq> JBool True
      then Inl (invalid_argument (''options.device.'' @ flag) ''true, or absent'' v)
      else check_flags rest)"

definition normalize_device_filter :: "js_value \<Rightarrow> device_filter checked" where
  "normalize_device_filter device =
     (if device = JUndefined then Inr (Auto None)
      else check (require_object device ''options.device'') (\<lambda>raw.
        let auto = prop_of raw ''auto''; any = prop_of raw ''any''; non_usb = prop_of raw ''nonUsb'';
            vendor = prop_of raw ''vendorId''; product = prop_of raw ''productId'';
            resolved = prop_of raw ''resolved'';
            ids = (if vendor \<noteq> JUndefined \<or> product \<noteq> JUndefined then JBool True else JUndefined);
            shapes = length (filter (\<lambda>v. v \<noteq> JUndefined) [auto, any, non_usb, ids])
        in check (check_flags [(''auto'', auto), (''any'', any), (''nonUsb'', non_usb)]) (\<lambda>_.
           if shapes > 1 \<or> (resolved \<noteq> JUndefined \<and> auto = JUndefined)
           then Inl (invalid_argument ''options.device'' device_shapes device)
           else if auto = JBool True
           then (if resolved = JUndefined then Inr (Auto None)
                 else check (normalize_resolved_device resolved) (\<lambda>d. Inr (Auto (Some d))))
           else if any = JBool True then Inr (Explicit Any_Device)
           else if non_usb = JBool True then Inr (Explicit (Resolved Non_Usb))
           else check (normalize_usb_device vendor product ''options.device'') (\<lambda>d. Inr (Explicit (Resolved d))))))"

section \<open>Options of single calls\<close>

definition normalize_release_options :: "js_value \<Rightarrow> (bool \<times> bool) checked" where
  "normalize_release_options options =
     check (optional_object options ''options'') (\<lambda>raw.
     check (require_boolean (or_default (prop_of raw ''forget'') (JBool False)) ''options.forget'') (\<lambda>forget.
     check (require_boolean (or_default (prop_of raw ''forgetDevice'') (JBool False)) ''options.forgetDevice'')
       (\<lambda>forget_device. Inr (forget, forget_device))))"

definition normalize_request_access_options :: "js_value \<Rightarrow> bool checked" where
  "normalize_request_access_options options =
     check (optional_object options ''options'') (\<lambda>raw.
     require_boolean (or_default (prop_of raw ''chooseAgain'') (JBool False)) ''options.chooseAgain'')"

definition transport_kinds :: "(string \<times> js_value) list" where
  "transport_kinds = map (\<lambda>k. (k, JString (js k))) [''auto'', ''sharedworker'', ''broadcastchannel'']"

fun is_url :: "js_value \<Rightarrow> bool" where
  "is_url (JHost tag ps) = (tag = ''URL'')"
| "is_url _ = False"

text \<open>The member of a value that may be an object.\<close>

fun member_of :: "js_value \<Rightarrow> string \<Rightarrow> js_value" where
  "member_of (JObject ps) k = prop_of ps k"
| "member_of (JHost tag ps) k = prop_of ps k"
| "member_of _ k = JUndefined"

text \<open>\<open>normalizeGlobalOptions\<close>: the documented options that are there, in the order they are checked.\<close>

definition keep_option ::
  "(string \<times> js_value) list \<Rightarrow> string \<Rightarrow> (js_value \<Rightarrow> js_value checked) \<Rightarrow>
     (string \<times> js_value) list \<Rightarrow> (string \<times> js_value) list checked" where
  "keep_option raw k f result =
     (if k \<in> fst ` set raw then check (f (prop_of raw k)) (\<lambda>v. Inr (result @ [(k, v)])) else Inr result)"

definition normalize_global_options :: "js_value \<Rightarrow> (string \<times> js_value) list checked" where
  "normalize_global_options options =
     check (require_object options ''options'') (\<lambda>raw.
     check (keep_option raw ''workerUrl'' (\<lambda>v.
       if v \<noteq> JUndefined \<and> \<not> (\<exists>s. v = JString s \<and> s \<noteq> []) \<and> \<not> is_url v
       then Inl (invalid_argument ''options.workerUrl'' ''a non-empty string or a URL'' v) else Inr v) []) (\<lambda>r.
     check (keep_option raw ''transport'' (\<lambda>v.
       if v = JUndefined then Inr JUndefined else require_one_of v ''options.transport'' transport_kinds) r) (\<lambda>r.
     check (keep_option raw ''logger'' (\<lambda>v.
       if v \<noteq> JUndefined \<and> member_of v ''log'' \<noteq> JFunction
       then Inl (invalid_argument ''options.logger'' ''an object with a log(level, message, fields) method'' v)
       else Inr v) r) (\<lambda>r.
     keep_option raw ''logPayloads'' (\<lambda>v.
       if v = JUndefined then Inr JUndefined
       else check (require_boolean v ''options.logPayloads'') (\<lambda>b. Inr (JBool b))) r))))"

section \<open>The configuration\<close>

definition named_strings :: "string list \<Rightarrow> (string \<times> js_value) list" where
  "named_strings ks = map (\<lambda>k. (k, JString (js k))) ks"

definition named_ints :: "int list \<Rightarrow> (string \<times> js_value) list" where
  "named_ints is = map (\<lambda>i. (nat_digits (nat i), js_int i)) is"

definition valid_parity :: "string list" where "valid_parity = [''none'', ''even'', ''odd'']"
definition valid_flow_control :: "string list" where "valid_flow_control = [''none'', ''hardware'']"

definition normalize_serial :: "js_value \<Rightarrow> serial_settings checked" where
  "normalize_serial v =
     check (require_object v ''options.serial'') (\<lambda>raw.
     check (require_integer (prop_of raw ''baudRate'') ''options.serial.baudRate'' 1 max_baud_rate) (\<lambda>baud.
     check (require_one_of (or_default (prop_of raw ''dataBits'') (js_int 8)) ''options.serial.dataBits''
       (named_ints [7, 8])) (\<lambda>data.
     check (require_one_of (or_default (prop_of raw ''stopBits'') (js_int 1)) ''options.serial.stopBits''
       (named_ints [1, 2])) (\<lambda>stop.
     check (require_one_of (or_default (prop_of raw ''parity'') (JString (js ''none''))) ''options.serial.parity''
       (named_strings valid_parity)) (\<lambda>parity.
     check (require_integer (or_default (prop_of raw ''bufferSize'') (js_int 255)) ''options.serial.bufferSize''
       1 max_buffer_bytes) (\<lambda>buffer.
     check (require_one_of (or_default (prop_of raw ''flowControl'') (JString (js ''none'')))
       ''options.serial.flowControl'' (named_strings valid_flow_control)) (\<lambda>flow.
     Inr \<lparr>ss_baud_rate = baud, ss_data_bits = number_value data, ss_stop_bits = number_value stop,
       ss_parity = string_value parity, ss_buffer_size = buffer, ss_flow_control = string_value flow\<rparr>)))))))"

fun limit_value :: "limit \<Rightarrow> js_value" where
  "limit_value (Limit i) = js_int i"
| "limit_value Unlimited = JNumber Pos_Infinity"

definition connection_option :: "(string \<times> js_value) list \<Rightarrow> string \<Rightarrow> js_value \<Rightarrow> js_value \<times> string" where
  "connection_option raw k d = (or_default (prop_of raw k) d, ''options.connection.'' @ k)"

definition normalize_connection :: "(string \<times> js_value) list \<Rightarrow> connection_settings checked" where
  "normalize_connection raw =
     (let opt = (\<lambda>k d. or_default (prop_of raw k) d); d = default_connection in
      check (require_integer (opt ''initialDelayMs'' (js_int (cs_initial_delay d)))
        ''options.connection.initialDelayMs'' 0 max_delay_ms) (\<lambda>initial.
      check (require_finite_number (opt ''factor'' (JNumber (Finite (cs_factor d))))
        ''options.connection.factor'' 1 100) (\<lambda>factor.
      check (require_integer (opt ''maxDelayMs'' (js_int (cs_max_delay d)))
        ''options.connection.maxDelayMs'' 0 max_delay_ms) (\<lambda>max_delay.
      check (require_finite_number (opt ''jitter'' (JNumber (Finite (cs_jitter d))))
        ''options.connection.jitter'' 0 1) (\<lambda>jitter.
      check (require_integer_or_infinity (opt ''maxAttempts'' (limit_value (cs_max_attempts d)))
        ''options.connection.maxAttempts'' 1 max_attempts_limit) (\<lambda>attempts.
      check (require_integer (opt ''stableAfterMs'' (js_int (cs_stable_after d)))
        ''options.connection.stableAfterMs'' 0 max_delay_ms) (\<lambda>stable.
      check (require_integer (opt ''openTimeoutMs'' (js_int (cs_open_timeout d)))
        ''options.connection.openTimeoutMs'' 1 max_timeout_ms) (\<lambda>open.
      check (require_integer (opt ''writeTimeoutMs'' (js_int (cs_write_timeout d)))
        ''options.connection.writeTimeoutMs'' 1 max_timeout_ms) (\<lambda>write.
      check (require_integer (opt ''maxWriteChunkBytes'' (js_int (cs_max_chunk d)))
        ''options.connection.maxWriteChunkBytes'' 1 max_buffer_bytes) (\<lambda>chunk.
      check (require_boolean (opt ''autoReconnect'' (JBool (cs_auto_reconnect d)))
        ''options.connection.autoReconnect'') (\<lambda>auto.
      Inr \<lparr>cs_initial_delay = initial, cs_factor = factor, cs_max_delay = max_delay, cs_jitter = jitter,
        cs_max_attempts = attempts, cs_stable_after = stable, cs_open_timeout = open,
        cs_write_timeout = write, cs_max_chunk = chunk, cs_auto_reconnect = auto\<rparr>)))))))))))"

definition normalize_receive :: "(string \<times> js_value) list \<Rightarrow> receive_settings checked" where
  "normalize_receive raw =
     check (require_integer (or_default (prop_of raw ''idleMs'') (js_int (rs_idle default_receive)))
       ''options.receive.idleMs'' 0 max_delay_ms) (\<lambda>idle.
     check (require_integer (or_default (prop_of raw ''maxWaitMs'') (js_int (rs_max_wait default_receive)))
       ''options.receive.maxWaitMs'' 1 max_delay_ms) (\<lambda>wait. Inr \<lparr>rs_idle = idle, rs_max_wait = wait\<rparr>))"

definition normalize_encoding ::
  "(js_string \<Rightarrow> js_string option) \<Rightarrow> (string \<times> js_value) list \<Rightarrow> encoding_settings checked" where
  "normalize_encoding canon raw =
     check (validate_encoding_label canon (or_default (prop_of raw ''encoding'')
       (JString (es_encoding default_encoding))) ''options.encoding.encoding'') (\<lambda>encoding.
     check (require_boolean (or_default (prop_of raw ''decodeText'') (JBool (es_decode_text default_encoding)))
       ''options.encoding.decodeText'') (\<lambda>decode. Inr \<lparr>es_encoding = encoding, es_decode_text = decode\<rparr>))"

text \<open>\<open>normalizeConfiguration\<close>: the groups of options are read before any of their fields is checked.\<close>

definition normalize_configuration ::
  "(js_string \<Rightarrow> js_string option) \<Rightarrow> js_value \<Rightarrow> js_value \<Rightarrow> configuration checked" where
  "normalize_configuration canon name options =
     check (validate_name name ''name'') (\<lambda>valid_name.
     check (require_object options ''options'') (\<lambda>raw.
     check (require_object (prop_of raw ''serial'') ''options.serial'') (\<lambda>_.
     check (optional_object (prop_of raw ''connection'') ''options.connection'') (\<lambda>connection.
     check (optional_object (prop_of raw ''encoding'') ''options.encoding'') (\<lambda>encoding.
     check (optional_object (prop_of raw ''receive'') ''options.receive'') (\<lambda>receive.
     check (normalize_device_filter (prop_of raw ''device'')) (\<lambda>device.
     check (normalize_serial (prop_of raw ''serial'')) (\<lambda>serial.
     check (normalize_connection connection) (\<lambda>conn.
     check (normalize_receive receive) (\<lambda>recv.
     check (normalize_encoding canon encoding) (\<lambda>enc.
     check (require_boolean (or_default (prop_of raw ''remember'') (JBool True)) ''options.remember'') (\<lambda>remember.
     check (require_integer_or_infinity (or_default (prop_of raw ''maxTabs'') (JNumber Pos_Infinity))
       ''options.maxTabs'' 1 max_tab_limit) (\<lambda>max_tabs.
     Inr \<lparr>nc_name = valid_name, nc_device = device, nc_serial = serial, nc_connection = conn,
       nc_encoding = enc, nc_receive = recv, nc_remember = remember, nc_max_tabs = max_tabs\<rparr>)))))))))))))"

section \<open>Back to options\<close>

fun resolved_options :: "resolved_device \<Rightarrow> js_value" where
  "resolved_options (Usb v p) = JObject [(''vendorId'', js_int v), (''productId'', js_int p)]"
| "resolved_options Non_Usb = JObject [(''nonUsb'', JBool True)]"

fun to_device_options :: "device_filter \<Rightarrow> js_value" where
  "to_device_options (Explicit (Resolved d)) = resolved_options d"
| "to_device_options (Explicit Any_Device) = JObject [(''any'', JBool True)]"
| "to_device_options (Auto None) = JObject [(''auto'', JBool True)]"
| "to_device_options (Auto (Some d)) = JObject [(''auto'', JBool True), (''resolved'', resolved_options d)]"

definition to_setup_options :: "configuration \<Rightarrow> js_value" where
  "to_setup_options c = JObject
     [(''device'', to_device_options (nc_device c)),
      (''serial'', JObject
        [(''baudRate'', js_int (ss_baud_rate (nc_serial c))), (''dataBits'', js_int (ss_data_bits (nc_serial c))),
         (''stopBits'', js_int (ss_stop_bits (nc_serial c))), (''parity'', JString (ss_parity (nc_serial c))),
         (''bufferSize'', js_int (ss_buffer_size (nc_serial c))),
         (''flowControl'', JString (ss_flow_control (nc_serial c)))]),
      (''connection'', JObject
        [(''initialDelayMs'', js_int (cs_initial_delay (nc_connection c))),
         (''factor'', JNumber (Finite (cs_factor (nc_connection c)))),
         (''maxDelayMs'', js_int (cs_max_delay (nc_connection c))),
         (''jitter'', JNumber (Finite (cs_jitter (nc_connection c)))),
         (''maxAttempts'', limit_value (cs_max_attempts (nc_connection c))),
         (''stableAfterMs'', js_int (cs_stable_after (nc_connection c))),
         (''openTimeoutMs'', js_int (cs_open_timeout (nc_connection c))),
         (''writeTimeoutMs'', js_int (cs_write_timeout (nc_connection c))),
         (''maxWriteChunkBytes'', js_int (cs_max_chunk (nc_connection c))),
         (''autoReconnect'', JBool (cs_auto_reconnect (nc_connection c)))]),
      (''encoding'', JObject
        [(''encoding'', JString (es_encoding (nc_encoding c))),
         (''decodeText'', JBool (es_decode_text (nc_encoding c)))]),
      (''receive'', JObject
        [(''idleMs'', js_int (rs_idle (nc_receive c))), (''maxWaitMs'', js_int (rs_max_wait (nc_receive c)))]),
      (''remember'', JBool (nc_remember c)),
      (''maxTabs'', limit_value (nc_max_tabs c))]"

section \<open>What a configuration satisfies\<close>

definition int_between :: "int \<Rightarrow> int \<Rightarrow> int \<Rightarrow> bool" where
  "int_between low high i \<longleftrightarrow> low \<le> i \<and> i \<le> high"

fun limit_between :: "int \<Rightarrow> int \<Rightarrow> limit \<Rightarrow> bool" where
  "limit_between low high (Limit i) = (low \<le> i \<and> i \<le> high)"
| "limit_between low high Unlimited = True"

fun valid_resolved :: "resolved_device \<Rightarrow> bool" where
  "valid_resolved (Usb v p) = (int_between 0 usb_id_max v \<and> int_between 0 usb_id_max p)"
| "valid_resolved Non_Usb = True"

fun valid_device :: "device_filter \<Rightarrow> bool" where
  "valid_device (Explicit (Resolved d)) = valid_resolved d"
| "valid_device (Explicit Any_Device) = True"
| "valid_device (Auto r) = (case r of None \<Rightarrow> True | Some d \<Rightarrow> valid_resolved d)"

definition valid_name :: "js_string \<Rightarrow> bool" where
  "valid_name s \<longleftrightarrow> s \<noteq> [] \<and> length s \<le> max_config_name_length \<and> \<not> list_ex is_control s \<and>
     \<not> has_unpaired_surrogate s"

definition valid_serial :: "serial_settings \<Rightarrow> bool" where
  "valid_serial s \<longleftrightarrow> int_between 1 max_baud_rate (ss_baud_rate s) \<and> ss_data_bits s \<in> {7, 8} \<and>
     ss_stop_bits s \<in> {1, 2} \<and> ss_parity s \<in> js ` set valid_parity \<and>
     int_between 1 max_buffer_bytes (ss_buffer_size s) \<and> ss_flow_control s \<in> js ` set valid_flow_control"

definition valid_connection :: "connection_settings \<Rightarrow> bool" where
  "valid_connection c \<longleftrightarrow> int_between 0 max_delay_ms (cs_initial_delay c) \<and> 1 \<le> cs_factor c \<and>
     cs_factor c \<le> 100 \<and> int_between 0 max_delay_ms (cs_max_delay c) \<and> 0 \<le> cs_jitter c \<and>
     cs_jitter c \<le> 1 \<and> limit_between 1 max_attempts_limit (cs_max_attempts c) \<and>
     int_between 0 max_delay_ms (cs_stable_after c) \<and> int_between 1 max_timeout_ms (cs_open_timeout c) \<and>
     int_between 1 max_timeout_ms (cs_write_timeout c) \<and> int_between 1 max_buffer_bytes (cs_max_chunk c)"

definition valid_receive :: "receive_settings \<Rightarrow> bool" where
  "valid_receive r \<longleftrightarrow> int_between 0 max_delay_ms (rs_idle r) \<and> int_between 1 max_delay_ms (rs_max_wait r)"

definition valid_configuration :: "(js_string \<Rightarrow> js_string option) \<Rightarrow> configuration \<Rightarrow> bool" where
  "valid_configuration canon c \<longleftrightarrow> valid_name (nc_name c) \<and> valid_device (nc_device c) \<and>
     valid_serial (nc_serial c) \<and> valid_connection (nc_connection c) \<and> valid_receive (nc_receive c) \<and>
     (\<exists>l. canon l = Some (es_encoding (nc_encoding c))) \<and> limit_between 1 max_tab_limit (nc_max_tabs c)"

section \<open>Reading an option, and writing it back\<close>

text \<open>
  The contract of every reader of an option: what it accepts is valid, what it refuses it refuses with
  \<open>INVALID_ARGUMENT\<close>, and a valid value written as an option is read back as it was.
\<close>

locale option_codec =
  fixes parse :: "js_value \<Rightarrow> 'a checked"
    and unparse :: "'a \<Rightarrow> js_value"
    and valid :: "'a \<Rightarrow> bool"
  assumes read_write: "valid a \<Longrightarrow> parse (unparse a) = Inr a"
    and read_valid: "parse v = Inr a \<Longrightarrow> valid a"
    and read_error: "parse v = Inl e \<Longrightarrow> err_code e = INVALID_ARGUMENT"
    and write_given: "unparse a \<noteq> JUndefined"
begin

lemma read_default: "valid a \<Longrightarrow> parse (or_default (unparse a) d) = Inr a"
  by (simp add: or_default_def write_given read_write)

lemma read_total: "case parse v of Inl e \<Rightarrow> err_code e = INVALID_ARGUMENT | Inr a \<Rightarrow> valid a \<and> parse (unparse a) = Inr a"
  by (cases "parse v") (auto dest: read_error read_valid simp: read_write)

end

lemma invalid_argument_code [simp]: "err_code (invalid_argument arg expected v) = INVALID_ARGUMENT"
  by (simp add: invalid_argument_def)

lemma integer_codec: "option_codec (\<lambda>v. require_integer v arg low high) js_int (int_between low high)"
proof
  show "require_integer (js_int a) arg low high = Inr a" if "int_between low high a" for a
    using that by (simp add: js_int_def int_between_def)
  show "int_between low high a" if "require_integer v arg low high = Inr a" for v a
    using that by (cases v) (auto simp: int_between_def split: if_splits)
  show "err_code e = INVALID_ARGUMENT" if "require_integer v arg low high = Inl e" for v e
    using that by (cases v) (auto split: if_splits)
  show "js_int a \<noteq> JUndefined" for a by (simp add: js_int_def)
qed

lemma limit_codec: "option_codec (\<lambda>v. require_integer_or_infinity v arg low high) limit_value (limit_between low high)"
proof
  show "require_integer_or_infinity (limit_value a) arg low high = Inr a" if "limit_between low high a" for a
    using that by (cases a) (simp_all add: js_int_def)
  show "limit_between low high a" if "require_integer_or_infinity v arg low high = Inr a" for v a
    using that by (cases v) (auto split: if_splits)
  show "err_code e = INVALID_ARGUMENT" if "require_integer_or_infinity v arg low high = Inl e" for v e
    using that by (cases v) (auto split: if_splits)
  show "limit_value a \<noteq> JUndefined" for a by (cases a) (simp_all add: js_int_def)
qed

lemma finite_codec:
  "option_codec (\<lambda>v. require_finite_number v arg low high) (\<lambda>q. JNumber (Finite q)) (\<lambda>q. of_int low \<le> q \<and> q \<le> of_int high)"
proof
  show "of_int low \<le> a \<and> a \<le> of_int high" if "require_finite_number v arg low high = Inr a" for v a
    using that by (cases "(v, arg, low, high)" rule: require_finite_number.cases) (auto split: if_splits)
  show "err_code e = INVALID_ARGUMENT" if "require_finite_number v arg low high = Inl e" for v e
    using that by (cases "(v, arg, low, high)" rule: require_finite_number.cases) (auto split: if_splits)
qed auto

lemma boolean_codec: "option_codec (\<lambda>v. require_boolean v arg) JBool (\<lambda>b. True)"
proof
  show "err_code e = INVALID_ARGUMENT" if "require_boolean v arg = Inl e" for v e
    using that by (cases v) auto
qed simp_all

lemma one_of_results:
  "require_one_of v arg allowed = Inr w \<longleftrightarrow> v \<in> snd ` set allowed \<and> w = v"
  "require_one_of v arg allowed = Inl e \<Longrightarrow> err_code e = INVALID_ARGUMENT"
  by (auto simp: require_one_of_def split: if_splits)

lemma named_values:
  "snd ` set (named_ints is) = js_int ` set is" "snd ` set (named_strings ks) = (\<lambda>k. JString (js k)) ` set ks"
  by (simp_all add: named_ints_def named_strings_def image_image)

lemma number_value_int [simp]: "number_value (js_int i) = i"
  by (simp add: js_int_def)

lemma choice_int_codec: "option_codec (\<lambda>v. check (require_one_of v arg (named_ints is)) (\<lambda>x. Inr (number_value x))) js_int (\<lambda>i. i \<in> set is)"
  by unfold_locales (auto simp: one_of_results named_values check_Inr check_Inl, simp add: js_int_def)

lemma choice_string_codec:
  "option_codec (\<lambda>v. check (require_one_of v arg (named_strings ks)) (\<lambda>x. Inr (string_value x))) JString (\<lambda>s. s \<in> js ` set ks)"
  by unfold_locales (auto simp: one_of_results named_values check_Inr check_Inl)

interpretation int_opt: option_codec "\<lambda>v. require_integer v arg low high" js_int "int_between low high" for arg low high
  by (rule integer_codec)

interpretation limit_opt: option_codec "\<lambda>v. require_integer_or_infinity v arg low high" limit_value "limit_between low high" for arg low high
  by (rule limit_codec)

interpretation finite_opt: option_codec "\<lambda>v. require_finite_number v arg low high" "\<lambda>q. JNumber (Finite q)"
  "\<lambda>q. of_int low \<le> q \<and> q \<le> of_int high" for arg low high
  by (rule finite_codec)

interpretation bool_opt: option_codec "\<lambda>v. require_boolean v arg" JBool "\<lambda>b. True" for arg
  by (rule boolean_codec)

lemmas option_errors = int_opt.read_error limit_opt.read_error finite_opt.read_error bool_opt.read_error one_of_results(2)
lemmas option_valid = int_opt.read_valid limit_opt.read_valid finite_opt.read_valid

section \<open>Groups of options\<close>

lemma object_error: "require_object v arg = Inl e \<Longrightarrow> err_code e = INVALID_ARGUMENT"
  by (cases v) auto

lemma optional_error: "optional_object v arg = Inl e \<Longrightarrow> err_code e = INVALID_ARGUMENT"
  by (auto simp: optional_object_def object_error split: if_splits)

lemma usb_device_results:
  "normalize_usb_device v p arg = Inr d \<Longrightarrow> valid_resolved d"
  "normalize_usb_device v p arg = Inl e \<Longrightarrow> err_code e = INVALID_ARGUMENT"
  by (auto simp: normalize_usb_device_def check_Inr check_Inl dest: option_valid option_errors)

lemma resolved_device_results:
  "normalize_resolved_device v = Inr d \<Longrightarrow> valid_resolved d"
  "normalize_resolved_device v = Inl e \<Longrightarrow> err_code e = INVALID_ARGUMENT"
  by (auto simp: normalize_resolved_device_def Let_def check_Inr check_Inl
      dest: usb_device_results object_error split: if_splits)

lemma flags_error: "check_flags fs = Inl e \<Longrightarrow> err_code e = INVALID_ARGUMENT"
  by (induction fs rule: check_flags.induct) (auto split: if_splits)

lemma device_filter_results:
  "normalize_device_filter v = Inr d \<Longrightarrow> valid_device d"
  "normalize_device_filter v = Inl e \<Longrightarrow> err_code e = INVALID_ARGUMENT"
  unfolding normalize_device_filter_def Let_def
  by (auto simp: check_Inr check_Inl dest: usb_device_results resolved_device_results object_error flags_error
      split: if_splits)

lemma name_results:
  "validate_name v arg = Inr s \<Longrightarrow> valid_name s \<and> v = JString s"
  "validate_name v arg = Inl e \<Longrightarrow> err_code e = INVALID_ARGUMENT"
  by (auto simp: validate_name_def valid_name_def split: js_value.splits if_splits)

lemma encoding_label_results:
  "validate_encoding_label canon v arg = Inr s \<Longrightarrow> \<exists>l. canon l = Some s"
  "validate_encoding_label canon v arg = Inl e \<Longrightarrow> err_code e = INVALID_ARGUMENT"
  by (auto simp: validate_encoding_label_def Let_def split: js_value.splits if_splits option.splits)

lemma serial_results:
  "normalize_serial v = Inr s \<Longrightarrow> valid_serial s"
  "normalize_serial v = Inl e \<Longrightarrow> err_code e = INVALID_ARGUMENT"
proof -
  show "valid_serial s" if "normalize_serial v = Inr s"
    using that unfolding normalize_serial_def
    by (clarsimp simp: check_Inr one_of_results named_values valid_serial_def dest!: option_valid)
       (auto)
  show "err_code e = INVALID_ARGUMENT" if "normalize_serial v = Inl e"
    using that unfolding normalize_serial_def
    by (auto simp: check_Inl dest: option_errors object_error)
qed

lemma connection_results:
  "normalize_connection raw = Inr c \<Longrightarrow> valid_connection c"
  "normalize_connection raw = Inl e \<Longrightarrow> err_code e = INVALID_ARGUMENT"
proof -
  show "valid_connection c" if "normalize_connection raw = Inr c"
    using that unfolding normalize_connection_def Let_def
    by (clarsimp simp: check_Inr valid_connection_def dest!: option_valid)
  show "err_code e = INVALID_ARGUMENT" if "normalize_connection raw = Inl e"
    using that unfolding normalize_connection_def Let_def
    by (auto simp: check_Inl dest: option_errors)
qed

lemma receive_results:
  "normalize_receive raw = Inr r \<Longrightarrow> valid_receive r"
  "normalize_receive raw = Inl e \<Longrightarrow> err_code e = INVALID_ARGUMENT"
  by (auto simp: normalize_receive_def check_Inr check_Inl valid_receive_def dest: option_valid option_errors)

lemma encoding_results:
  "normalize_encoding canon raw = Inr r \<Longrightarrow> \<exists>l. canon l = Some (es_encoding r)"
  "normalize_encoding canon raw = Inl e \<Longrightarrow> err_code e = INVALID_ARGUMENT"
  by (auto simp: normalize_encoding_def check_Inr check_Inl dest: encoding_label_results option_errors)

lemmas group_valid = serial_results(1) connection_results(1) receive_results(1) encoding_results(1)
  device_filter_results(1) name_results(1)
lemmas group_errors = serial_results(2) connection_results(2) receive_results(2) encoding_results(2)
  device_filter_results(2) name_results(2) object_error optional_error option_errors

section \<open>What validation promises\<close>

lemma normalized_results:
  "normalize_configuration canon name options = Inr c \<Longrightarrow> valid_configuration canon c"
  "normalize_configuration canon name options = Inr c \<Longrightarrow> name = JString (nc_name c)"
  "normalize_configuration canon name options = Inl e \<Longrightarrow> err_code e = INVALID_ARGUMENT"
proof -
  show "valid_configuration canon c" if "normalize_configuration canon name options = Inr c"
    using that unfolding normalize_configuration_def
    by (clarsimp simp: check_Inr valid_configuration_def) (blast dest: group_valid limit_opt.read_valid)
  show "name = JString (nc_name c)" if "normalize_configuration canon name options = Inr c"
    using that unfolding normalize_configuration_def by (auto simp: check_Inr dest: name_results(1))
  show "err_code e = INVALID_ARGUMENT" if "normalize_configuration canon name options = Inl e"
    using that unfolding normalize_configuration_def by (auto simp: check_Inl dest: group_errors)
qed

text \<open>
  C39. Validation is a boundary: whatever the application passes, it is either refused with
  \<open>INVALID_ARGUMENT\<close>, or becomes a configuration in which every field is within its documented range -
  a well-formed name, a known device, line settings and delays in range, an encoding the platform
  decodes.
\<close>

theorem configuration_validated:
  "case normalize_configuration canon name options of
     Inl e \<Rightarrow> err_code e = INVALID_ARGUMENT
   | Inr c \<Rightarrow> valid_configuration canon c"
  using normalized_results by (auto split: sum.split)

lemma or_default_values [simp]:
  "or_default (js_int i) d = js_int i" "or_default (JString s) d = JString s" "or_default (JBool b) d = JBool b"
  "or_default (JNumber n) d = JNumber n" "or_default (limit_value l) d = limit_value l"
  by (cases l; simp add: or_default_def js_int_def)+

lemma usb_roundtrip:
  "valid_resolved (Usb v p) \<Longrightarrow> normalize_usb_device (js_int v) (js_int p) arg = Inr (Usb v p)"
  by (simp add: normalize_usb_device_def int_opt.read_write)

lemma js_int_given [simp]: "js_int i \<noteq> JUndefined" "js_int i \<noteq> JBool b"
  by (simp_all add: js_int_def)

lemma resolved_roundtrip: "valid_resolved d \<Longrightarrow> normalize_resolved_device (resolved_options d) = Inr d"
  by (cases d) (simp_all add: normalize_resolved_device_def Let_def usb_roundtrip del: valid_resolved.simps)

lemma device_roundtrip: "valid_device d \<Longrightarrow> normalize_device_filter (to_device_options d) = Inr d"
proof (cases d rule: to_device_options.cases)
  case (1 r)
  then show "valid_device d \<Longrightarrow> normalize_device_filter (to_device_options d) = Inr d"
    by (cases r) (simp_all add: normalize_device_filter_def Let_def usb_roundtrip del: valid_resolved.simps)
next
  case (4 r)
  have given: "resolved_options r \<noteq> JUndefined" by (cases r) simp_all
  with 4 show "valid_device d \<Longrightarrow> normalize_device_filter (to_device_options d) = Inr d"
    by (simp add: normalize_device_filter_def Let_def resolved_roundtrip del: valid_resolved.simps)
qed (simp_all add: normalize_device_filter_def Let_def)

lemma one_of_read: "v \<in> snd ` set allowed \<Longrightarrow> require_one_of v arg allowed = Inr v"
  by (simp add: require_one_of_def)

lemma name_roundtrip: "valid_name s \<Longrightarrow> validate_name (JString s) arg = Inr s"
  by (simp add: validate_name_def valid_name_def)

definition canonical_labels :: "(js_string \<Rightarrow> js_string option) \<Rightarrow> bool" where
  "canonical_labels canon \<longleftrightarrow> (\<forall>l s. canon l = Some s \<longrightarrow> s \<noteq> [] \<and> canon s = Some s)"

lemma serial_roundtrip:
  assumes "valid_serial s"
  shows "normalize_serial (JObject
        [(''baudRate'', js_int (ss_baud_rate s)), (''dataBits'', js_int (ss_data_bits s)),
         (''stopBits'', js_int (ss_stop_bits s)), (''parity'', JString (ss_parity s)),
         (''bufferSize'', js_int (ss_buffer_size s)), (''flowControl'', JString (ss_flow_control s))]) = Inr s"
  using assms
  by (auto simp: normalize_serial_def valid_serial_def int_opt.read_write one_of_read named_values)

lemma connection_roundtrip:
  assumes "valid_connection c"
  shows "normalize_connection
        [(''initialDelayMs'', js_int (cs_initial_delay c)), (''factor'', JNumber (Finite (cs_factor c))),
         (''maxDelayMs'', js_int (cs_max_delay c)), (''jitter'', JNumber (Finite (cs_jitter c))),
         (''maxAttempts'', limit_value (cs_max_attempts c)), (''stableAfterMs'', js_int (cs_stable_after c)),
         (''openTimeoutMs'', js_int (cs_open_timeout c)), (''writeTimeoutMs'', js_int (cs_write_timeout c)),
         (''maxWriteChunkBytes'', js_int (cs_max_chunk c)), (''autoReconnect'', JBool (cs_auto_reconnect c))] = Inr c"
  using assms
  by (simp add: normalize_connection_def Let_def valid_connection_def int_opt.read_write limit_opt.read_write)

text \<open>
  Back and forth: the options made from a configuration - restored from storage, shown in a
  report - are accepted by \<open>setup()\<close> and give the same configuration again, for every valid
  configuration, provided the platform's canonical encoding names are labels of themselves.
\<close>

theorem setup_options_roundtrip:
  assumes "valid_configuration canon c" and "canonical_labels canon"
  shows "normalize_configuration canon (JString (nc_name c)) (to_setup_options c) = Inr c"
proof -
  have enc: "es_encoding (nc_encoding c) \<noteq> []" "canon (es_encoding (nc_encoding c)) = Some (es_encoding (nc_encoding c))"
    using assms by (auto simp: valid_configuration_def canonical_labels_def)
  have dev: "to_device_options (nc_device c) \<noteq> JUndefined"
    by (cases "nc_device c" rule: to_device_options.cases) (auto, metis js_value.distinct resolved_options.cases resolved_options.simps)
  show ?thesis using assms(1) enc
    by (simp add: normalize_configuration_def to_setup_options_def valid_configuration_def optional_object_def
        name_roundtrip device_roundtrip serial_roundtrip connection_roundtrip limit_opt.read_write
        normalize_receive_def valid_receive_def int_opt.read_write normalize_encoding_def validate_encoding_label_def)
qed

lemma setup_options_roundtrip_witness:
  "\<exists>c. normalize_configuration (\<lambda>l. if l = js ''utf-8'' then Some l else None) (JString (js ''scale''))
     (JObject [(''serial'', JObject [(''baudRate'', js_int 9600)])]) = Inr c \<and>
   normalize_configuration (\<lambda>l. if l = js ''utf-8'' then Some l else None) (JString (nc_name c)) (to_setup_options c) = Inr c"
proof -
  let ?canon = "\<lambda>l. if l = js ''utf-8'' then Some l else None"
  define c where "c = \<lparr>nc_name = js ''scale'', nc_device = Auto None,
    nc_serial = \<lparr>ss_baud_rate = 9600, ss_data_bits = 8, ss_stop_bits = 1, ss_parity = js ''none'',
      ss_buffer_size = 255, ss_flow_control = js ''none''\<rparr>,
    nc_connection = default_connection, nc_encoding = default_encoding, nc_receive = default_receive,
    nc_remember = True, nc_max_tabs = Unlimited\<rparr>"
  have labels: "canonical_labels ?canon" by (simp add: canonical_labels_def)
  have valid: "valid_configuration ?canon c"
    by (simp add: c_def valid_configuration_def valid_name_def max_config_name_length_def is_control_def is_high_def is_low_def
        valid_serial_def int_between_def bound_defs valid_parity_def valid_flow_control_def valid_connection_def
        default_connection_def valid_receive_def default_receive_def default_encoding_def)
  have first: "normalize_configuration ?canon (JString (js ''scale''))
     (JObject [(''serial'', JObject [(''baudRate'', js_int 9600)])]) = Inr c"
    by (simp add: c_def normalize_configuration_def validate_name_def max_config_name_length_def is_control_def is_high_def
        is_low_def optional_object_def normalize_device_filter_def normalize_serial_def int_opt.read_write int_between_def
        bound_defs or_default_def one_of_read named_values valid_parity_def valid_flow_control_def normalize_connection_def
        Let_def default_connection_def limit_opt.read_write normalize_receive_def default_receive_def
        normalize_encoding_def validate_encoding_label_def default_encoding_def)
  show ?thesis using first setup_options_roundtrip [OF valid labels] by blast
qed

end
