(* ===== verification/Rate_Limit.thy ===== *)
theory Rate_Limit
  imports Configuration
begin

text \<open>
  The token bucket that bounds how often something from the bus makes a context work
  (\<open>core/rate-limit.ts\<close>). The allowance is a rational: the code's doubles without their rounding.
\<close>

record rate_limit =
  rl_burst :: nat
  rl_per_second :: nat

record rate_limiter =
  rt_tokens :: rat
  rt_refilled_at :: millis

definition limiter_init :: "rate_limit \<Rightarrow> millis \<Rightarrow> rate_limiter" where
  "limiter_init l now = \<lparr>rt_tokens = of_nat (rl_burst l), rt_refilled_at = now\<rparr>"

definition limiter_refill :: "rate_limit \<Rightarrow> millis \<Rightarrow> rate_limiter \<Rightarrow> rate_limiter" where
  "limiter_refill l now s =
     (let elapsed = max 0 (now - rt_refilled_at s) in
      s\<lparr>rt_refilled_at := now,
        rt_tokens := min (of_nat (rl_burst l))
          (rt_tokens s + (of_int elapsed / 1000) * of_nat (rl_per_second l))\<rparr>)"

definition limiter_take :: "rate_limit \<Rightarrow> millis \<Rightarrow> rate_limiter \<Rightarrow> rate_limiter \<times> bool" where
  "limiter_take l now s =
     (let s' = limiter_refill l now s in
      if rt_tokens s' < 1 then (s', False) else (s'\<lparr>rt_tokens := rt_tokens s' - 1\<rparr>, True))"

definition delay_until_allowed :: "rate_limit \<Rightarrow> millis \<Rightarrow> rate_limiter \<Rightarrow> rate_limiter \<times> int" where
  "delay_until_allowed l now s =
     (let s' = limiter_refill l now s in
      if rt_tokens s' \<ge> 1 then (s', 0)
      else (s', \<lceil>((1 - rt_tokens s') / of_nat (rl_per_second l)) * 1000\<rceil>))"

text \<open>\<open>STATUS_ANSWER_RATE\<close> and \<open>DIAGNOSTICS_ANSWER_RATE\<close>.\<close>

definition status_answer_rate :: rate_limit where
  "status_answer_rate = \<lparr>rl_burst = 32, rl_per_second = 32\<rparr>"

definition diagnostics_answer_rate :: rate_limit where
  "diagnostics_answer_rate = \<lparr>rl_burst = 8, rl_per_second = 4\<rparr>"

section \<open>How much is allowed\<close>

text \<open>A run: the times at which something is asked for, and how many of them were allowed.\<close>

fun limiter_run :: "rate_limit \<Rightarrow> millis list \<Rightarrow> rate_limiter \<Rightarrow> rate_limiter \<times> nat" where
  "limiter_run l [] s = (s, 0)"
| "limiter_run l (now # ts) s =
     (case limiter_take l now s of
        (s', allowed) \<Rightarrow> (case limiter_run l ts s' of (s'', n) \<Rightarrow> (s'', n + of_bool allowed)))"

lemma refill_bounds:
  assumes "0 \<le> rt_tokens s"
  shows "0 \<le> rt_tokens (limiter_refill l now s)"
    and "rt_tokens (limiter_refill l now s) \<le> of_nat (rl_burst l)"
    and "rt_tokens (limiter_refill l now s) \<le>
      rt_tokens s + of_int (max 0 (now - rt_refilled_at s)) / 1000 * of_nat (rl_per_second l)"
    and "rt_refilled_at (limiter_refill l now s) = now"
proof -
  have "(0::rat) \<le> of_int (max 0 (now - rt_refilled_at s)) / 1000 * of_nat (rl_per_second l)"
    by (intro mult_nonneg_nonneg divide_nonneg_nonneg) (simp_all add: of_int_0_le_iff)
  then show "0 \<le> rt_tokens (limiter_refill l now s)"
    using assms by (simp add: limiter_refill_def Let_def)
qed (simp_all add: limiter_refill_def Let_def)

text \<open>The potential: what has been allowed and what is left grow by the refill rate only.\<close>

lemma take_balance:
  assumes "0 \<le> rt_tokens s" and "rt_refilled_at s \<le> now"
  shows "0 \<le> rt_tokens (fst (limiter_take l now s))"
    and "rt_refilled_at (fst (limiter_take l now s)) = now"
    and "of_bool (snd (limiter_take l now s)) + rt_tokens (fst (limiter_take l now s)) \<le>
      rt_tokens s + of_int (now - rt_refilled_at s) / 1000 * of_nat (rl_per_second l)"
  using assms refill_bounds [OF assms(1), of l now] by (auto simp: limiter_take_def Let_def max_def split: if_splits)

lemma run_balance:
  assumes "0 \<le> rt_tokens s" and "sorted (rt_refilled_at s # ts)"
  shows "of_nat (snd (limiter_run l ts s)) \<le>
    rt_tokens s + of_int (last (rt_refilled_at s # ts) - rt_refilled_at s) / 1000 * of_nat (rl_per_second l)"
  using assms
proof (induction ts arbitrary: s)
  case (Cons now ts)
  obtain s' a where step: "limiter_take l now s = (s', a)" by fastforce
  have le: "rt_refilled_at s \<le> now" using Cons.prems(2) by simp
  note b = take_balance [OF Cons.prems(1) le, of l, unfolded step fst_conv snd_conv]
  have "sorted (rt_refilled_at s' # ts)" using Cons.prems(2) b(2) by simp
  note ih = Cons.IH [OF b(1) this]
  have split: "of_int (last (now # ts) - rt_refilled_at s) / 1000 * (of_nat (rl_per_second l) :: rat) =
      of_int (now - rt_refilled_at s) / 1000 * of_nat (rl_per_second l) +
      of_int (last (now # ts) - now) / 1000 * of_nat (rl_per_second l)"
    by (simp add: field_simps)
  have "of_nat (snd (limiter_run l (now # ts) s)) = of_nat (snd (limiter_run l ts s')) + (of_bool a :: rat)"
    by (simp add: step split: prod.split)
  also have "\<dots> \<le> rt_tokens s + of_int (now - rt_refilled_at s) / 1000 * of_nat (rl_per_second l) +
      of_int (last (now # ts) - now) / 1000 * of_nat (rl_per_second l)"
    using ih b by simp
  also have "\<dots> = rt_tokens s + of_int (last (rt_refilled_at s # now # ts) - rt_refilled_at s) / 1000 * of_nat (rl_per_second l)"
    using split by simp
  finally show ?case .
qed simp

text \<open>
  A flood is answered at the rate: however many requests come, at whatever times the monotonic
  clock shows, at most the burst and the refill of the time that has passed are allowed.
\<close>

theorem rate_is_limited:
  assumes "sorted (start # ts)"
  shows "of_nat (snd (limiter_run l ts (limiter_init l start))) \<le>
    of_nat (rl_burst l) + (of_int (last (start # ts) - start) / 1000 * of_nat (rl_per_second l) :: rat)"
  using run_balance [of "limiter_init l start" ts l] assms by (simp add: limiter_init_def)

lemma rate_is_limited_witness:
  "of_nat (snd (limiter_run status_answer_rate (replicate 100 500) (limiter_init status_answer_rate 0))) \<le> (48 :: rat)"
  using rate_is_limited [of 0 "replicate 100 500" status_answer_rate]
  by (simp add: status_answer_rate_def sorted_replicate)

end
