(* ===== verification/Receive_Buffer.thy ===== *)
theory Receive_Buffer
  imports Configuration
begin

text \<open>
  What is read from the device, collected into fewer, larger deliveries
  (\<open>owner/receive-buffer.ts\<close>). A timer is the moment it is due; its firing is an event. The call of
  \<open>deliver\<close> is the list of deliveries an operation makes.
\<close>

section \<open>State and operations\<close>

definition max_receive_delivery_bytes :: nat where
  "max_receive_delivery_bytes = 64 * 1024"

record receive_buffer =
  rb_chunks :: "bytes list"
  rb_length :: nat
  rb_idle_timer :: "millis option"
  rb_wait_timer :: "millis option"

definition rb_empty :: receive_buffer where
  "rb_empty = \<lparr>rb_chunks = [], rb_length = 0, rb_idle_timer = None, rb_wait_timer = None\<rparr>"

text \<open>\<open>#joined\<close>: the chunks, one after the other, in an array of their total length.\<close>

fun write_at :: "bytes \<Rightarrow> nat \<Rightarrow> bytes \<Rightarrow> bytes" where
  "write_at data offset chunk = take offset data @ chunk @ drop (offset + length chunk) data"

fun join_from :: "bytes \<Rightarrow> nat \<Rightarrow> bytes list \<Rightarrow> bytes" where
  "join_from data offset [] = data"
| "join_from data offset (c # cs) = join_from (write_at data offset c) (offset + length c) cs"

definition joined :: "receive_buffer \<Rightarrow> bytes" where
  "joined s = join_from (replicate (rb_length s) 0) 0 (rb_chunks s)"

definition rb_flush :: "receive_buffer \<Rightarrow> receive_buffer \<times> bytes list" where
  "rb_flush s =
     (let s' = s\<lparr>rb_idle_timer := None, rb_wait_timer := None\<rparr> in
      if rb_length s' = 0 then (s', [])
      else (s'\<lparr>rb_chunks := [], rb_length := 0\<rparr>,
            [case rb_chunks s' of [only] \<Rightarrow> only | _ \<Rightarrow> joined s']))"

definition rb_push :: "receive_settings \<Rightarrow> millis \<Rightarrow> bytes \<Rightarrow> receive_buffer \<Rightarrow> receive_buffer \<times> bytes list" where
  "rb_push r now chunk s =
     (if chunk = [] then (s, [])
      else (let s' = s\<lparr>rb_chunks := rb_chunks s @ [chunk], rb_length := rb_length s + length chunk\<rparr> in
            if rs_idle r = 0 \<or> rb_length s' \<ge> max_receive_delivery_bytes then rb_flush s'
            else (s'\<lparr>rb_idle_timer := Some (now + rs_idle r),
                     rb_wait_timer := (case rb_wait_timer s' of None \<Rightarrow> Some (now + rs_max_wait r)
                                       | Some due \<Rightarrow> Some due)\<rparr>, [])))"

section \<open>Runs\<close>

datatype rb_event = Push millis bytes | Idle_Fires | Wait_Fires | Flush

fun rb_step :: "receive_settings \<Rightarrow> rb_event \<Rightarrow> receive_buffer \<Rightarrow> receive_buffer \<times> bytes list" where
  "rb_step r (Push now chunk) s = rb_push r now chunk s"
| "rb_step r Idle_Fires s = (if rb_idle_timer s = None then (s, []) else rb_flush s)"
| "rb_step r Wait_Fires s = (if rb_wait_timer s = None then (s, []) else rb_flush s)"
| "rb_step r Flush s = rb_flush s"

fun rb_run :: "receive_settings \<Rightarrow> rb_event list \<Rightarrow> receive_buffer \<Rightarrow> receive_buffer \<times> bytes list" where
  "rb_run r [] s = (s, [])"
| "rb_run r (ev # evs) s =
     (case rb_step r ev s of (s', out) \<Rightarrow> (case rb_run r evs s' of (s'', out') \<Rightarrow> (s'', out @ out')))"

fun read_bytes :: "rb_event list \<Rightarrow> bytes" where
  "read_bytes [] = []"
| "read_bytes (Push now chunk # evs) = chunk @ read_bytes evs"
| "read_bytes (_ # evs) = read_bytes evs"

fun longest_read :: "rb_event list \<Rightarrow> nat" where
  "longest_read [] = 0"
| "longest_read (Push now chunk # evs) = max (length chunk) (longest_read evs)"
| "longest_read (_ # evs) = longest_read evs"

section \<open>The invariant\<close>

definition rb_ok :: "receive_buffer \<Rightarrow> bool" where
  "rb_ok s \<longleftrightarrow> rb_length s = length (concat (rb_chunks s)) \<and> [] \<notin> set (rb_chunks s) \<and>
     rb_length s < max_receive_delivery_bytes \<and>
     (rb_chunks s = [] \<longleftrightarrow> rb_idle_timer s = None) \<and> (rb_chunks s = [] \<longleftrightarrow> rb_wait_timer s = None)"

lemma join_from_concat:
  assumes "length data = offset + length (concat cs)"
  shows "join_from data offset cs = take offset data @ concat cs"
  using assms
proof (induction cs arbitrary: data offset)
  case (Cons c cs)
  have "length (write_at data offset c) = offset + length c + length (concat cs)" using Cons.prems by simp
  from Cons.IH [OF this] show ?case using Cons.prems by simp
qed simp

lemma flush_forms:
  assumes "rb_length s = length (concat (rb_chunks s))" and "[] \<notin> set (rb_chunks s)"
  shows "rb_flush s = (s\<lparr>rb_idle_timer := None, rb_wait_timer := None, rb_chunks := [], rb_length := 0\<rparr>,
    if concat (rb_chunks s) = [] then [] else [concat (rb_chunks s)])"
proof -
  have "joined (s\<lparr>rb_idle_timer := None, rb_wait_timer := None\<rparr>) = concat (rb_chunks s)"
    using assms(1) join_from_concat [of "replicate (rb_length s) 0" 0 "rb_chunks s"] by (simp add: joined_def)
  then have whole: "(case rb_chunks s of [only] \<Rightarrow> only | _ \<Rightarrow> joined (s\<lparr>rb_idle_timer := None, rb_wait_timer := None\<rparr>)) = concat (rb_chunks s)"
    by (auto split: list.split)
  show ?thesis
  proof (cases "rb_length s = 0")
    case True
    then have "rb_chunks s = []" using assms by (cases "rb_chunks s") auto
    then show ?thesis using True by (simp add: rb_flush_def Let_def)
  next
    case False
    then have "concat (rb_chunks s) \<noteq> []" using assms(1) by auto
    then show ?thesis using False whole by (simp add: rb_flush_def Let_def del: concat_eq_Nil_conv)
  qed
qed

definition good_delivery :: "nat \<Rightarrow> bytes \<Rightarrow> bool" where
  "good_delivery longest d \<longleftrightarrow> d \<noteq> [] \<and> length d < max_receive_delivery_bytes + longest"

lemma step_ok:
  assumes "rb_ok s" and "longest_read [ev] \<le> n"
  shows "rb_ok (fst (rb_step r ev s)) \<and> list_all (good_delivery n) (snd (rb_step r ev s)) \<and>
    concat (snd (rb_step r ev s)) @ concat (rb_chunks (fst (rb_step r ev s))) = concat (rb_chunks s) @ read_bytes [ev]"
proof -
  have max: "0 < max_receive_delivery_bytes" by (simp add: max_receive_delivery_bytes_def)
  have pending: "length (concat (rb_chunks s)) < max_receive_delivery_bytes" "[] \<notin> set (rb_chunks s)"
    "rb_length s = length (concat (rb_chunks s))" using assms(1) by (auto simp: rb_ok_def)
  have flush: "rb_ok (fst (rb_flush s)) \<and> list_all (good_delivery n) (snd (rb_flush s)) \<and>
      concat (snd (rb_flush s)) @ concat (rb_chunks (fst (rb_flush s))) = concat (rb_chunks s)"
    using pending max by (auto simp: flush_forms rb_ok_def good_delivery_def simp del: concat_eq_Nil_conv)
  show ?thesis
  proof (cases ev)
    case (Push now chunk)
    show ?thesis
    proof (cases "chunk = []")
      case True
      then show ?thesis using assms(1) Push by (simp add: rb_push_def)
    next
      case False
      let ?s = "s\<lparr>rb_chunks := rb_chunks s @ [chunk], rb_length := rb_length s + length chunk\<rparr>"
      have s': "rb_length ?s = length (concat (rb_chunks ?s))" "[] \<notin> set (rb_chunks ?s)"
        "concat (rb_chunks ?s) \<noteq> []" "length chunk \<le> n"
        using pending False assms(2) Push by auto
      show ?thesis
      proof (cases "rs_idle r = 0 \<or> rb_length ?s \<ge> max_receive_delivery_bytes")
        case True
        then have "rb_step r ev s = rb_flush ?s" using Push False by (auto simp: rb_push_def Let_def)
        also have "\<dots> = (?s\<lparr>rb_idle_timer := None, rb_wait_timer := None, rb_chunks := [], rb_length := 0\<rparr>,
            [concat (rb_chunks ?s)])"
          using flush_forms [OF s'(1,2)] s'(3) by (simp only: if_False)
        finally show ?thesis using s' pending max False Push
          by (simp add: rb_ok_def good_delivery_def)
      next
        case below: False
        then show ?thesis using s' False Push assms(1)
          by (auto simp: rb_push_def Let_def rb_ok_def split: option.split)
      qed
    qed
  qed (use flush assms(1) in auto)
qed

lemma run_ok:
  assumes "rb_ok s" and "longest_read evs \<le> n"
  shows "rb_ok (fst (rb_run r evs s)) \<and> list_all (good_delivery n) (snd (rb_run r evs s)) \<and>
    concat (snd (rb_run r evs s)) @ concat (rb_chunks (fst (rb_run r evs s))) = concat (rb_chunks s) @ read_bytes evs"
  using assms
proof (induction evs arbitrary: s)
  case (Cons ev evs)
  have parts: "longest_read [ev] \<le> n" "longest_read evs \<le> n" "read_bytes (ev # evs) = read_bytes [ev] @ read_bytes evs"
    using Cons.prems(2) by (cases ev; simp)+
  have step: "rb_ok (fst (rb_step r ev s))" "list_all (good_delivery n) (snd (rb_step r ev s))"
    "concat (snd (rb_step r ev s)) @ concat (rb_chunks (fst (rb_step r ev s))) = concat (rb_chunks s) @ read_bytes [ev]"
    using step_ok [OF Cons.prems(1) parts(1)] by simp_all
  note rest = Cons.IH [OF step(1) parts(2)]
  have run: "rb_run r (ev # evs) s = (fst (rb_run r evs (fst (rb_step r ev s))),
      snd (rb_step r ev s) @ snd (rb_run r evs (fst (rb_step r ev s))))"
    by (simp split: prod.split)
  show ?case unfolding run parts(3) using rest step by (simp flip: append_assoc) (simp add: append_assoc step(3) [symmetric])
qed simp

lemma rb_empty_ok: "rb_ok rb_empty"
  by (simp add: rb_ok_def rb_empty_def max_receive_delivery_bytes_def)

section \<open>What the component promises\<close>

text \<open>
  C40. Every byte read is delivered once and in order: over any reads and timers, the deliveries
  followed by what is still held are exactly the bytes read. No delivery is empty or exceeds 64 KiB by
  more than one read, less than 64 KiB are held, and both timers run exactly while something is held.
\<close>

theorem stream_delivered:
  "let (s, out) = rb_run r evs rb_empty in
   concat out @ concat (rb_chunks s) = read_bytes evs \<and>
   list_all (\<lambda>d. d \<noteq> [] \<and> length d < 65536 + longest_read evs) out \<and>
   length (concat (rb_chunks s)) < 65536 \<and>
   (rb_idle_timer s = None) = (rb_chunks s = []) \<and> (rb_wait_timer s = None) = (rb_chunks s = [])"
proof -
  have "rb_ok (fst (rb_run r evs rb_empty))" "list_all (good_delivery (longest_read evs)) (snd (rb_run r evs rb_empty))"
    "concat (snd (rb_run r evs rb_empty)) @ concat (rb_chunks (fst (rb_run r evs rb_empty))) = read_bytes evs"
    using run_ok [OF rb_empty_ok order_refl, of r evs] by (simp_all add: rb_empty_def)
  moreover have "good_delivery n = (\<lambda>d. d \<noteq> [] \<and> length d < 65536 + n)" for n
    by (simp add: fun_eq_iff good_delivery_def max_receive_delivery_bytes_def)
  ultimately show ?thesis
    unfolding split_beta Let_def rb_ok_def max_receive_delivery_bytes_def by simp metis
qed

text \<open>A read never puts off the delivery of what is already held: the wait timer stays as it was set.\<close>

lemma wait_not_postponed:
  "rb_wait_timer s = Some due \<Longrightarrow> rb_wait_timer (fst (rb_push r now chunk s)) \<in> {Some due, None}"
  by (auto simp: rb_push_def rb_flush_def Let_def)

end
