(* ===== verification/Backoff.thy ===== *)
theory Backoff
  imports Configuration
begin

text \<open>
  When a lost connection is tried again (\<open>core/backoff.ts\<close>): the delay before an attempt and the
  counters of attempts and losses. Numbers are exact here; \<open>Math.pow\<close> overflowing to \<open>Infinity\<close> is what
  the code's case for a zero initial delay guards against, and beyond it both are cut off by
  \<open>maxDelayMs\<close>.
\<close>

section \<open>Delays\<close>

text \<open>\<open>Math.round\<close>: to the nearest integer, halves upwards.\<close>

definition js_round :: "rat \<Rightarrow> int" where
  "js_round x = \<lfloor>x + 1/2\<rfloor>"

definition capped_delay :: "nat \<Rightarrow> connection_settings \<Rightarrow> rat" where
  "capped_delay attempt c =
     (if cs_initial_delay c = 0 then 0
      else min (of_int (cs_max_delay c)) (of_int (cs_initial_delay c) * cs_factor c ^ (attempt - 1)))"

definition compute_backoff_delay :: "nat \<Rightarrow> connection_settings \<Rightarrow> rat \<Rightarrow> int" where
  "compute_backoff_delay attempt c random =
     (if attempt \<le> 0 then 0
      else (let capped = capped_delay attempt c;
                floor = capped * cs_jitter c;
                jittered = floor + random * (capped - floor)
            in min (cs_max_delay c) (max 0 (js_round jittered))))"

section \<open>Counting attempts\<close>

record backoff =
  bo_attempt :: nat
  bo_connected_at :: "millis option"
  bo_losses :: nat

definition backoff_init :: backoff where
  "backoff_init = \<lparr>bo_attempt = 0, bo_connected_at = None, bo_losses = 0\<rparr>"

definition retry_index :: "backoff \<Rightarrow> nat" where
  "retry_index b = bo_losses b - 1"

fun has_exhausted :: "limit \<Rightarrow> backoff \<Rightarrow> bool" where
  "has_exhausted (Limit n) b = (int (bo_attempt b) \<ge> n)"
| "has_exhausted Unlimited b = False"

definition record_attempt :: "backoff \<Rightarrow> backoff" where
  "record_attempt b = b\<lparr>bo_attempt := bo_attempt b + 1\<rparr>"

definition record_connected :: "millis \<Rightarrow> backoff \<Rightarrow> backoff" where
  "record_connected now b = b\<lparr>bo_connected_at := Some now\<rparr>"

definition record_disconnected :: "millis \<Rightarrow> int \<Rightarrow> backoff \<Rightarrow> backoff" where
  "record_disconnected now stable_after b =
     (let held = (case bo_connected_at b of None \<Rightarrow> False | Some since \<Rightarrow> now - since \<ge> stable_after);
          b' = (if held then b\<lparr>bo_attempt := 0, bo_losses := 0\<rparr> else b)
      in b'\<lparr>bo_losses := bo_losses b' + 1, bo_connected_at := None\<rparr>)"

definition backoff_reset :: "backoff \<Rightarrow> backoff" where
  "backoff_reset b = \<lparr>bo_attempt = 0, bo_connected_at = None, bo_losses = 0\<rparr>"

lemmas backoff_defs = record_attempt_def record_connected_def record_disconnected_def backoff_reset_def

section \<open>What the component promises\<close>

lemma js_round_mono: "x \<le> y \<Longrightarrow> js_round x \<le> js_round y"
  by (simp add: js_round_def floor_mono)

lemma js_round_of_int [simp]: "js_round (of_int i) = i"
  unfolding js_round_def by (rule floor_unique) simp_all

lemma capped_range:
  assumes "0 \<le> cs_initial_delay c" and "0 \<le> cs_max_delay c" and "0 \<le> cs_factor c"
  shows "0 \<le> capped_delay n c \<and> capped_delay n c \<le> of_int (cs_max_delay c)"
  using assms by (auto simp: capped_delay_def min_def)

lemma capped_mono:
  assumes "0 \<le> cs_initial_delay c" and "1 \<le> cs_factor c" and "n \<le> m"
  shows "capped_delay n c \<le> capped_delay m c"
proof -
  have "cs_factor c ^ (n - 1) \<le> cs_factor c ^ (m - 1)" using assms by (intro power_increasing) auto
  then have "of_int (cs_initial_delay c) * cs_factor c ^ (n - 1) \<le> of_int (cs_initial_delay c) * cs_factor c ^ (m - 1)"
    using assms(1) by (intro mult_left_mono) simp_all
  then show ?thesis by (auto simp: capped_delay_def min_def)
qed

text \<open>
  The delay before a retry is bounded: for settings that passed validation and any random number
  from 0 to 1, the first retry waits not at all, every other between the jitter's share of the capped
  exponential delay and that delay itself - rounded - and never longer than \<open>maxDelayMs\<close>; the bound
  grows with the attempts.
\<close>

theorem backoff_delay_bounds:
  assumes "0 \<le> cs_initial_delay c" and "0 \<le> cs_max_delay c" and "1 \<le> cs_factor c"
    and "0 \<le> cs_jitter c" and "cs_jitter c \<le> 1" and "0 \<le> x" and "x \<le> 1"
  shows "compute_backoff_delay 0 c x = 0 \<and>
    0 \<le> compute_backoff_delay n c x \<and> compute_backoff_delay n c x \<le> cs_max_delay c \<and>
    (if n = 0 then True
     else js_round (capped_delay n c * cs_jitter c) \<le> compute_backoff_delay n c x \<and>
          compute_backoff_delay n c x \<le> js_round (capped_delay n c)) \<and>
    capped_delay n c \<le> capped_delay (Suc n) c"
proof -
  let ?c = "capped_delay n c"
  have range: "0 \<le> ?c" "?c \<le> of_int (cs_max_delay c)" using capped_range [of c n] assms by auto
  have floor: "0 \<le> ?c * cs_jitter c" "?c * cs_jitter c \<le> ?c"
    using range(1) assms(4,5) by (simp_all add: mult_left_le)
  let ?j = "?c * cs_jitter c + x * (?c - ?c * cs_jitter c)"
  have up: "x * (?c - ?c * cs_jitter c) \<le> ?c - ?c * cs_jitter c" using floor(2) assms(7) by (intro mult_left_le_one_le) (use assms(6) in auto)
  have j: "?c * cs_jitter c \<le> ?j" "?j \<le> ?c" using up floor(2) assms(6) by simp_all
  have "js_round 0 \<le> js_round (?c * cs_jitter c)" using floor(1) by (rule js_round_mono)
  then have zero: "0 \<le> js_round (?c * cs_jitter c)" using js_round_of_int [of 0] by simp
  have "js_round ?c \<le> js_round (of_int (cs_max_delay c))" using range(2) by (rule js_round_mono)
  then have top: "js_round ?c \<le> cs_max_delay c" by simp
  have "js_round (?c * cs_jitter c) \<le> js_round ?j" "js_round ?j \<le> js_round ?c" using j by (auto intro: js_round_mono)
  with zero top show ?thesis using assms(2) capped_mono [OF assms(1,3), of n "Suc n"]
    by (simp add: compute_backoff_delay_def Let_def)
qed

lemma backoff_delay_bounds_witness:
  "compute_backoff_delay 3 default_connection (1/2) \<le> 30000"
  using backoff_delay_bounds [of default_connection "1/2" 3] by (simp add: default_connection_def)

end
