(* ===== verification/Serial_Errors.thy ===== *)
theory Serial_Errors
  imports Configuration
begin

text \<open>
  What the failures of Web Serial mean to the library (\<open>owner/serial-errors.ts\<close>): tables from the
  name of a \<open>DOMException\<close> to a code.

  A thrown value is an error of the library, an \<open>Error\<close> with its name - absent where reading it
  fails or yields no string - and a description, or any other value with its description
  (\<open>describeUnknown\<close>).
\<close>

datatype thrown =
    Own_Error sb_error
  | Thrown_Error "string option" string
  | Thrown_Value string

definition open_failures :: "(string \<times> error_code) list" where
  "open_failures = [(''NetworkError'', OPEN_FAILED), (''InvalidStateError'', OPEN_FAILED),
     (''SecurityError'', WEB_SERIAL_UNAVAILABLE), (''NotSupportedError'', OPEN_FAILED)]"

definition read_failures :: "(string \<times> error_code) list" where
  "read_failures = [(''NetworkError'', DEVICE_DISCONNECTED)]"

definition request_port_failures :: "(string \<times> error_code) list" where
  "request_port_failures = [(''SecurityError'', USER_GESTURE_REQUIRED), (''NotFoundError'', PERMISSION_DENIED)]"

record mapping_context =
  mc_config :: config_name
  mc_timestamp :: millis
  mc_extra :: err_context

fun dom_exception_name :: "thrown \<Rightarrow> string option" where
  "dom_exception_name (Thrown_Error n d) = n"
| "dom_exception_name _ = None"

fun describe_thrown :: "thrown \<Rightarrow> string" where
  "describe_thrown (Own_Error e) = err_message e"
| "describe_thrown (Thrown_Error n d) = d"
| "describe_thrown (Thrown_Value d) = d"

fun thrown_cause :: "thrown \<Rightarrow> cause" where
  "thrown_cause (Own_Error e) = Error_Cause ''SerialBrokerError'' (err_message e) False"
| "thrown_cause (Thrown_Error n d) = Error_Cause (case n of Some s \<Rightarrow> s | None \<Rightarrow> ''Error'') d True"
| "thrown_cause (Thrown_Value d) = Other_Cause d"

definition build_error ::
  "thrown \<Rightarrow> (string \<times> error_code) list \<Rightarrow> error_code \<Rightarrow> mapping_context \<Rightarrow> string \<Rightarrow> sb_error" where
  "build_error t table fallback ctx prefix =
     (case t of Own_Error e \<Rightarrow> e
      | _ \<Rightarrow>
        (let name = dom_exception_name t;
             mapped = (case name of None \<Rightarrow> None | Some n \<Rightarrow> map_of table n)
         in mk_error (case mapped of Some c \<Rightarrow> c | None \<Rightarrow> fallback) (prefix @ describe_thrown t)
              (no_options\<lparr>opt_config := Some (mc_config ctx),
                 opt_context := om_set ''domExceptionName''
                   (case name of Some n \<Rightarrow> CText n | None \<Rightarrow> CAbsent) (mc_extra ctx),
                 opt_timestamp := Some (mc_timestamp ctx), opt_cause := Some (thrown_cause t)\<rparr>)))"

definition map_open_error :: "thrown \<Rightarrow> mapping_context \<Rightarrow> sb_error" where
  "map_open_error t ctx = build_error t open_failures OPEN_FAILED ctx ''Could not open the port: ''"

definition map_read_error :: "thrown \<Rightarrow> mapping_context \<Rightarrow> sb_error" where
  "map_read_error t ctx = build_error t read_failures READ_FAILED ctx ''Reading from the device failed: ''"

definition map_request_port_error :: "thrown \<Rightarrow> mapping_context \<Rightarrow> sb_error" where
  "map_request_port_error t ctx = build_error t request_port_failures PERMISSION_DENIED ctx
     ''The port picker did not yield a device: ''"

lemma build_error_code:
  "(\<And>e. t \<noteq> Own_Error e) \<Longrightarrow>
     err_code (build_error t table fallback ctx prefix) \<in> insert fallback (snd ` set table)"
  by (cases t) (auto simp: build_error_def Let_def split: option.splits dest!: map_of_SomeD intro: rev_image_eqI)

end
