(* ===== verification/Supervisor.thy ===== *)
theory Supervisor
  imports Backoff Serial_Errors
begin

text \<open>
  The supervisor of the port (\<open>owner/port-supervisor.ts\<close>): the state machine that keeps the port open.
  The writes have a theory of their own, \<open>Port_Writes\<close>; what is read is collected by \<open>Receive_Buffer\<close>.

  An attempt to connect is an asynchronous function. Each of its stretches between two \<open>await\<close>s is an
  operation here, and \<open>sv_running\<close> says where every attempt waits, under the generation it was given:
  for the connections before it to be closed, for the list of ports, for \<open>open()\<close>, or for the next
  read. One whose generation has passed is stale, and ends when it is heard of again. A close in
  progress is a number in \<open>sv_closing\<close>; a timer that runs is a number in \<open>sv_timers\<close>.

  The callbacks run the application's listeners before they return, and a listener may dispose of the
  library there, which stops the supervisor in the midst of an operation. \<open>ve_stops_on\<close> says in which
  callbacks it does. Of what a listener may call there only this stop is modelled within the callback;
  every other call of the application is an event of its own. The properties of the state machine below
  (\<open>gentle\<close>) exclude a stop from within an error or a delivery, which the code does not withstand
  (\<open>disposal_within_error_reopens\<close>); a stop from within a change of status they include.
\<close>

section \<open>State\<close>

type_synonym port = nat

datatype connection_state =
    Idle
  | Awaiting_Permission
  | Listing
  | Opening port
  | Open port
  | Reconnecting nat
  | Failed
  | Stopped

datatype attempt_phase =
    Await_Teardown "nat list"
  | Listing_Ports
  | Opening_Port port
  | Reading port

datatype stop_phase = Not_Stopping | Draining port | Closing_Down "nat list" | Answering | Stop_Done

datatype callback = On_Status | On_Error | On_Data

datatype close_kind = Close_Connection port | Close_When_Opened port | Close_After_Writes port

datatype sv_effect =
    Status_Changed status
  | Error_Reported sb_error
  | Data_Flushed
  | List_Ports nat
  | Open_Called port
  | Open_Threw port
  | Timer_Set nat int
  | Timer_Cleared nat
  | Close_Begun nat close_kind

record supervisor =
  sv_state :: connection_state
  sv_status :: status
  sv_connected_while_listing :: bool
  sv_found :: "port option"
  sv_found_detached :: bool
  sv_closing :: "nat list"
  sv_next_close :: nat
  sv_stop :: stop_phase
  sv_backoff :: backoff
  sv_generation :: nat
  sv_next_attempt_at :: "millis option"
  sv_opened_at :: "millis option"
  sv_timers :: "nat list"
  sv_next_timer :: nat
  sv_running :: "(nat, nat \<times> attempt_phase) omap"
  sv_out :: "sv_effect list"

record sv_env =
  ve_config :: config_name
  ve_settings :: connection_settings
  ve_now :: millis
  ve_monotonic :: millis
  ve_random :: rat
  ve_stops_on :: "callback list"

definition sv_init :: supervisor where
  "sv_init = \<lparr>sv_state = Idle, sv_status = Status_Idle, sv_connected_while_listing = False, sv_found = None,
     sv_found_detached = False, sv_closing = [], sv_next_close = 0, sv_stop = Not_Stopping,
     sv_backoff = backoff_init, sv_generation = 0, sv_next_attempt_at = None, sv_opened_at = None,
     sv_timers = [], sv_next_timer = 0, sv_running = [], sv_out = []\<rparr>"

section \<open>Small steps shared by the operations\<close>

definition emit :: "sv_effect \<Rightarrow> supervisor \<Rightarrow> supervisor" where
  "emit e s = s\<lparr>sv_out := sv_out s @ [e]\<rparr>"

definition enter_state :: "connection_state \<Rightarrow> supervisor \<Rightarrow> supervisor" where
  "enter_state q s = s\<lparr>sv_state := q\<rparr>"

definition sv_error :: "sv_env \<Rightarrow> error_code \<Rightarrow> string \<Rightarrow> err_context \<Rightarrow> sb_error" where
  "sv_error v c msg ctx = mk_error c msg (no_options\<lparr>opt_config := Some (ve_config v),
     opt_context := ctx, opt_timestamp := Some (ve_now v)\<rparr>)"

definition clear_timer :: "nat \<Rightarrow> supervisor \<Rightarrow> supervisor" where
  "clear_timer i s = emit (Timer_Cleared i) (s\<lparr>sv_timers := js_remove i (sv_timers s)\<rparr>)"

text \<open>\<open>#trackTeardown\<close>: one more close in progress.\<close>

definition track_teardown :: "close_kind \<Rightarrow> supervisor \<Rightarrow> supervisor" where
  "track_teardown k s = emit (Close_Begun (sv_next_close s) k)
     (s\<lparr>sv_closing := sv_closing s @ [sv_next_close s], sv_next_close := Suc (sv_next_close s)\<rparr>)"

definition is_stale :: "nat \<Rightarrow> supervisor \<Rightarrow> bool" where
  "is_stale g s \<longleftrightarrow> sv_generation s \<noteq> g \<or> sv_state s = Stopped"

definition attempt_waits :: "nat \<Rightarrow> nat \<times> attempt_phase \<Rightarrow> supervisor \<Rightarrow> supervisor" where
  "attempt_waits g a s = s\<lparr>sv_running := om_set g a (sv_running s)\<rparr>"

definition attempt_over :: "nat \<Rightarrow> supervisor \<Rightarrow> supervisor" where
  "attempt_over g s = s\<lparr>sv_running := om_del g (sv_running s)\<rparr>"

text \<open>The synchronous part of \<open>#stop\<close>, run once.\<close>

definition stop_now :: "supervisor \<Rightarrow> supervisor" where
  "stop_now s =
     (if sv_stop s \<noteq> Not_Stopping then s
      else
        (let previous = sv_state s;
             s1 = s\<lparr>sv_generation := Suc (sv_generation s)\<rparr>;
             s2 = (case previous of Open p \<Rightarrow> emit Data_Flushed s1 | _ \<Rightarrow> s1);
             s3 = (enter_state Stopped s2)\<lparr>sv_next_attempt_at := None, sv_opened_at := None\<rparr>
         in case previous of
              Reconnecting i \<Rightarrow> (let s4 = clear_timer i s3 in s4\<lparr>sv_stop := Closing_Down (sv_closing s4)\<rparr>)
            | Open p \<Rightarrow> s3\<lparr>sv_stop := Draining p\<rparr>
            | Opening p \<Rightarrow> (let s4 = track_teardown (Close_When_Opened p) s3
                           in s4\<lparr>sv_stop := Closing_Down (sv_closing s4)\<rparr>)
            | _ \<Rightarrow> s3\<lparr>sv_stop := Closing_Down (sv_closing s3)\<rparr>))"

text \<open>A callback: the effect, and what a listener does before it returns.\<close>

definition call_back :: "sv_env \<Rightarrow> callback \<Rightarrow> sv_effect \<Rightarrow> supervisor \<Rightarrow> supervisor" where
  "call_back v k e s = (if k \<in> set (ve_stops_on v) then stop_now (emit e s) else emit e s)"

definition set_status :: "sv_env \<Rightarrow> status \<Rightarrow> supervisor \<Rightarrow> supervisor" where
  "set_status v st s =
     (if sv_status s = st then s else call_back v On_Status (Status_Changed st) (s\<lparr>sv_status := st\<rparr>))"

definition report :: "sv_env \<Rightarrow> sb_error \<Rightarrow> supervisor \<Rightarrow> supervisor" where
  "report v e s = call_back v On_Error
     (Error_Reported (if err_retryable e \<and> \<not> cs_auto_reconnect (ve_settings v) then not_retried e else e)) s"

definition flush_received :: "sv_env \<Rightarrow> supervisor \<Rightarrow> supervisor" where
  "flush_received v s = call_back v On_Data Data_Flushed s"

section \<open>Attempts\<close>

definition begin_listing :: "nat \<Rightarrow> nat \<Rightarrow> supervisor \<Rightarrow> supervisor" where
  "begin_listing g n s =
     attempt_waits g (n, Listing_Ports) (emit (List_Ports g) (s\<lparr>sv_connected_while_listing := False\<rparr>))"

text \<open>\<open>#connect\<close> up to its first \<open>await\<close>.\<close>

definition sv_connect :: "sv_env \<Rightarrow> supervisor \<Rightarrow> supervisor" where
  "sv_connect v s =
     (if sv_state s = Stopped then s
      else
        (let g = Suc (sv_generation s);
             s1 = s\<lparr>sv_generation := g, sv_backoff := record_attempt (sv_backoff s),
                    sv_next_attempt_at := None\<rparr>;
             n = bo_attempt (sv_backoff s1);
             s2 = set_status v Status_Connecting (enter_state Listing s1)
         in if sv_closing s2 = [] then begin_listing g n s2
            else attempt_waits g (n, Await_Teardown (sv_closing s2)) s2))"

definition give_up :: "sv_env \<Rightarrow> supervisor \<Rightarrow> supervisor" where
  "give_up v s = set_status v Status_Failed (enter_state Failed (s\<lparr>sv_next_attempt_at := None\<rparr>))"

definition exhausted_error :: "sv_env \<Rightarrow> nat \<Rightarrow> string \<Rightarrow> sb_error" where
  "exhausted_error v n reason = sv_error v RECONNECT_EXHAUSTED
     (''Gave up reconnecting after '' @ nat_digits n @ '' attempts'')
     [(''attempts'', CInt (int n)), (''reason'', CText reason)]"

definition record_failed_attempt :: "sv_env \<Rightarrow> string \<Rightarrow> supervisor \<Rightarrow> supervisor" where
  "record_failed_attempt v reason s =
     (let c = ve_settings v in
      if \<not> cs_auto_reconnect c then give_up v s
      else
        (let b = record_disconnected (ve_monotonic v) (cs_stable_after c) (sv_backoff s);
             s1 = s\<lparr>sv_backoff := b\<rparr>
         in if has_exhausted (cs_max_attempts c) b
            then report v (exhausted_error v (bo_attempt b) reason)
                   (set_status v Status_Failed (enter_state Failed (s1\<lparr>sv_next_attempt_at := None\<rparr>)))
            else
              (let delay = compute_backoff_delay (retry_index b) c (ve_random v);
                   i = sv_next_timer s1;
                   s2 = emit (Timer_Set i delay)
                     (s1\<lparr>sv_timers := sv_timers s1 @ [i], sv_next_timer := Suc i,
                         sv_next_attempt_at := Some (ve_now v + delay)\<rparr>)
               in set_status v Status_Reconnecting (enter_state (Reconnecting i) s2))))"

text \<open>\<open>#handleConnectionLoss\<close>; \<open>gives_up\<close> for a failure that is not retried.\<close>

definition connection_loss :: "sv_env \<Rightarrow> string \<Rightarrow> sb_error \<Rightarrow> bool \<Rightarrow> supervisor \<Rightarrow> supervisor" where
  "connection_loss v reason e gives_up s =
     (let previous = sv_state s in
      case previous of
        Stopped \<Rightarrow> s
      | Reconnecting i \<Rightarrow> s
      | _ \<Rightarrow>
          (let s1 = (case previous of Open p \<Rightarrow> flush_received v s | _ \<Rightarrow> s);
               s2 = s1\<lparr>sv_generation := Suc (sv_generation s1), sv_opened_at := None\<rparr>;
               s3 = report v e s2;
               s4 = (case previous of
                       Open p \<Rightarrow> track_teardown (Close_Connection p) s3
                     | Opening p \<Rightarrow> track_teardown (Close_When_Opened p) s3
                     | _ \<Rightarrow> s3)
           in if gives_up then give_up v s4 else record_failed_attempt v reason s4))"

definition open_failure :: "sv_env \<Rightarrow> nat \<Rightarrow> thrown \<Rightarrow> sb_error" where
  "open_failure v n t = map_open_error t
     \<lparr>mc_config = ve_config v, mc_timestamp = ve_now v, mc_extra = [(''attempt'', CInt (int n))]\<rparr>"

text \<open>\<open>#listingFailed\<close>.\<close>

definition listing_failed :: "sv_env \<Rightarrow> nat \<Rightarrow> thrown \<Rightarrow> supervisor \<Rightarrow> supervisor" where
  "listing_failed v n t s =
     (case t of
        Own_Error e \<Rightarrow>
          if err_code e = OPEN_TIMEOUT then connection_loss v ''listing-timed-out'' e False s
          else give_up v (report v (sv_error v WEB_SERIAL_UNAVAILABLE
            (''Could not enumerate serial ports: '' @ describe_thrown t) [(''attempt'', CInt (int n))]) s)
      | _ \<Rightarrow> give_up v (report v (sv_error v WEB_SERIAL_UNAVAILABLE
            (''Could not enumerate serial ports: '' @ describe_thrown t) [(''attempt'', CInt (int n))]) s))"

text \<open>\<open>#open\<close> up to its \<open>await\<close>, for the port found. An \<open>open()\<close> that throws, as opposed to one whose
  promise is rejected, has opened nothing; the effect \<open>Open_Threw\<close> records it.\<close>

definition open_port :: "sv_env \<Rightarrow> nat \<Rightarrow> nat \<Rightarrow> port \<Rightarrow> thrown option \<Rightarrow> supervisor \<Rightarrow> supervisor" where
  "open_port v g n p throws s =
     (let s1 = emit (Open_Called p) (s\<lparr>sv_found := Some p, sv_found_detached := False\<rparr>) in
      case throws of
        Some t \<Rightarrow>
          (let e = open_failure v n t
           in connection_loss v ''open-threw'' e (\<not> err_retryable e) (attempt_over g (emit (Open_Threw p) s1)))
      | None \<Rightarrow> attempt_waits g (n, Opening_Port p) (enter_state (Opening p) s1))"

text \<open>The platform's answers: the matching port in the list of granted ports, or a failure; and how
  \<open>open()\<close> and what follows it went.\<close>

datatype listing = Listed "port option" "thrown option" | Listing_Fails thrown

datatype open_result = Opened | Streams_Missing bool bool | Streams_Throw thrown | Open_Fails thrown

datatype read_result = Read_Value bytes | Read_Done | Read_Fails thrown

definition disconnected_error :: "sv_env \<Rightarrow> string \<Rightarrow> err_context \<Rightarrow> sb_error" where
  "disconnected_error v msg ctx = sv_error v DEVICE_DISCONNECTED msg ctx"

text \<open>\<open>#findPort\<close>, from the answer to the listing on.\<close>

definition ports_listed :: "sv_env \<Rightarrow> nat \<Rightarrow> nat \<Rightarrow> listing \<Rightarrow> supervisor \<Rightarrow> supervisor" where
  "ports_listed v g n l s =
     (if is_stale g s then attempt_over g s
      else case l of
        Listing_Fails t \<Rightarrow> listing_failed v n t (attempt_over g s)
      | Listed (Some p) throws \<Rightarrow> open_port v g n p throws s
      | Listed None throws \<Rightarrow>
          if sv_connected_while_listing s then begin_listing g n s
          else if sv_found_detached s then record_failed_attempt v ''device-absent'' (attempt_over g s)
          else set_status v Status_Awaiting_Permission (enter_state Awaiting_Permission (attempt_over g s)))"

text \<open>\<open>#open\<close> from its \<open>await\<close> on, and \<open>#startReading\<close>.\<close>

definition open_settled :: "sv_env \<Rightarrow> nat \<Rightarrow> nat \<Rightarrow> port \<Rightarrow> open_result \<Rightarrow> supervisor \<Rightarrow> supervisor" where
  "open_settled v g n p res s =
     (if is_stale g s then attempt_over g s
      else case res of
        Open_Fails t \<Rightarrow>
          (let e = open_failure v n t in connection_loss v ''open-failed'' e (\<not> err_retryable e) (attempt_over g s))
      | Streams_Throw t \<Rightarrow>
          (let e = open_failure v n t in connection_loss v ''open-threw'' e (\<not> err_retryable e) (attempt_over g s))
      | Streams_Missing readable writable \<Rightarrow>
          connection_loss v ''streams-missing'' (sv_error v OPEN_FAILED
            ''The port opened but exposes no readable or writable stream''
            [(''hasReadable'', CBool readable), (''hasWritable'', CBool writable)]) False (attempt_over g s)
      | Opened \<Rightarrow>
          attempt_waits g (n, Reading p)
            (set_status v Status_Open
              ((enter_state (Open p) s)\<lparr>sv_backoff := record_connected (ve_monotonic v) (sv_backoff s),
                 sv_opened_at := Some (ve_now v)\<rparr>)))"

text \<open>\<open>#readUntilClosed\<close>, one read.\<close>

definition read_settled :: "sv_env \<Rightarrow> nat \<Rightarrow> read_result \<Rightarrow> supervisor \<Rightarrow> supervisor" where
  "read_settled v g res s =
     (if is_stale g s then attempt_over g s
      else case res of
        Read_Value b \<Rightarrow> s
      | Read_Done \<Rightarrow> connection_loss v ''stream-ended''
          (disconnected_error v ''The device closed the connection'' []) False (attempt_over g s)
      | Read_Fails t \<Rightarrow>
          (let e = map_read_error t \<lparr>mc_config = ve_config v, mc_timestamp = ve_now v, mc_extra = []\<rparr>
           in connection_loss v (if err_code e = DEVICE_DISCONNECTED then ''device-lost'' else ''read-failed'')
                e False (attempt_over g s)))"

section \<open>What is asked of the supervisor\<close>

definition sv_start :: "sv_env \<Rightarrow> bool \<Rightarrow> supervisor \<Rightarrow> supervisor" where
  "sv_start v from_failed s =
     (if sv_state s \<noteq> Idle then s
      else if from_failed then set_status v Status_Failed (enter_state Failed s)
      else sv_connect v s)"

definition sv_retry :: "sv_env \<Rightarrow> supervisor \<Rightarrow> supervisor" where
  "sv_retry v s =
     (if sv_state s \<noteq> Failed \<and> sv_state s \<noteq> Awaiting_Permission then s
      else sv_connect v (enter_state Idle (s\<lparr>sv_backoff := backoff_reset (sv_backoff s)\<rparr>)))"

definition use_granted_port :: "sv_env \<Rightarrow> supervisor \<Rightarrow> supervisor" where
  "use_granted_port v s =
     (let go = (\<lambda>s. sv_connect v (enter_state Idle (s\<lparr>sv_backoff := backoff_reset (sv_backoff s)\<rparr>))) in
      case sv_state s of
        Stopped \<Rightarrow> s
      | Open p \<Rightarrow> s
      | Opening p \<Rightarrow> s
      | Reconnecting i \<Rightarrow> go (clear_timer i s)
      | _ \<Rightarrow> go s)"

text \<open>\<open>followDevice\<close>; \<open>matches\<close> says whether the connection's port is still the device.\<close>

definition follow_device :: "sv_env \<Rightarrow> bool \<Rightarrow> supervisor \<Rightarrow> supervisor" where
  "follow_device v matches s =
     (let current = sv_state s;
          connected = (case current of Open p \<Rightarrow> True | Opening p \<Rightarrow> True | _ \<Rightarrow> False)
      in if current = Stopped \<or> (connected \<and> matches) then s
         else
           (let s1 = s\<lparr>sv_generation := Suc (sv_generation s), sv_opened_at := None,
                       sv_next_attempt_at := None, sv_found := None, sv_found_detached := False\<rparr>;
                s2 = (case current of
                        Reconnecting i \<Rightarrow> clear_timer i s1
                      | Open p \<Rightarrow> track_teardown (Close_After_Writes p) (flush_received v s1)
                      | Opening p \<Rightarrow> track_teardown (Close_When_Opened p) s1
                      | _ \<Rightarrow> s1)
            in sv_connect v (enter_state Idle (s2\<lparr>sv_backoff := backoff_reset (sv_backoff s2)\<rparr>))))"

definition device_connected :: "sv_env \<Rightarrow> supervisor \<Rightarrow> supervisor" where
  "device_connected v s =
     (let s1 = s\<lparr>sv_found_detached := False\<rparr> in
      case sv_state s1 of
        Listing \<Rightarrow> s1\<lparr>sv_connected_while_listing := True\<rparr>
      | Reconnecting i \<Rightarrow> sv_connect v (clear_timer i s1)
      | Failed \<Rightarrow>
          if \<not> cs_auto_reconnect (ve_settings v) then s1
          else sv_connect v (enter_state Idle (s1\<lparr>sv_backoff := backoff_reset (sv_backoff s1)\<rparr>))
      | Awaiting_Permission \<Rightarrow>
          sv_connect v (enter_state Idle (s1\<lparr>sv_backoff := backoff_reset (sv_backoff s1)\<rparr>))
      | _ \<Rightarrow> s1)"

definition device_disconnected :: "sv_env \<Rightarrow> port option \<Rightarrow> supervisor \<Rightarrow> supervisor" where
  "device_disconnected v p s =
     (case sv_found s of
        None \<Rightarrow> s
      | Some found \<Rightarrow>
          if p \<noteq> None \<and> p \<noteq> Some found then s
          else
            (let s1 = s\<lparr>sv_found_detached := True\<rparr>;
                 e = disconnected_error v ''The device was disconnected'' []
             in case sv_state s1 of
                  Open q \<Rightarrow> connection_loss v ''device-disconnected'' e False s1
                | Opening q \<Rightarrow> connection_loss v ''device-disconnected'' e False s1
                | Awaiting_Permission \<Rightarrow> record_failed_attempt v ''device-disconnected'' s1
                | _ \<Rightarrow> s1))"

text \<open>\<open>#stop\<close> from each of its \<open>await\<close>s on.\<close>

definition stop_continues :: "sv_env \<Rightarrow> supervisor \<Rightarrow> supervisor" where
  "stop_continues v s =
     (case sv_stop s of
        Draining p \<Rightarrow> (let s1 = track_teardown (Close_Connection p) s in s1\<lparr>sv_stop := Closing_Down (sv_closing s1)\<rparr>)
      | Closing_Down ids \<Rightarrow> if set ids \<inter> set (sv_closing s) = {} then s\<lparr>sv_stop := Answering\<rparr> else s
      | Answering \<Rightarrow> set_status v Status_Idle (s\<lparr>sv_stop := Stop_Done\<rparr>)
      | _ \<Rightarrow> s)"

section \<open>Events\<close>

datatype sv_event =
    Start bool
  | Stop
  | Stop_Continues
  | Retry
  | Use_Granted_Port
  | Follow_Device bool
  | Device_Connected
  | Device_Disconnected "port option"
  | Timer_Fires nat
  | Close_Done nat
  | Teardown_Over nat
  | Ports_Answered nat listing
  | Open_Settled nat open_result
  | Read_Settled nat read_result
  | Write_Fails port sb_error

fun sv_step :: "sv_env \<Rightarrow> sv_event \<Rightarrow> supervisor \<Rightarrow> supervisor" where
  "sv_step v (Start from_failed) s = sv_start v from_failed s"
| "sv_step v Stop s = stop_now s"
| "sv_step v Stop_Continues s = stop_continues v s"
| "sv_step v Retry s = sv_retry v s"
| "sv_step v Use_Granted_Port s = use_granted_port v s"
| "sv_step v (Follow_Device matches) s = follow_device v matches s"
| "sv_step v Device_Connected s = device_connected v s"
| "sv_step v (Device_Disconnected p) s = device_disconnected v p s"
| "sv_step v (Timer_Fires i) s =
     (if i \<notin> set (sv_timers s) then s
      else (let s1 = s\<lparr>sv_timers := js_remove i (sv_timers s)\<rparr> in
            case sv_state s1 of Reconnecting j \<Rightarrow> sv_connect v s1 | _ \<Rightarrow> s1))"
| "sv_step v (Close_Done i) s = s\<lparr>sv_closing := js_remove i (sv_closing s)\<rparr>"
| "sv_step v (Teardown_Over g) s =
     (case om_get (sv_running s) g of
        Some (n, Await_Teardown ids) \<Rightarrow>
          if set ids \<inter> set (sv_closing s) \<noteq> {} then s
          else if is_stale g s then attempt_over g s
          else begin_listing g n s
      | _ \<Rightarrow> s)"
| "sv_step v (Ports_Answered g l) s =
     (case om_get (sv_running s) g of Some (n, Listing_Ports) \<Rightarrow> ports_listed v g n l s | _ \<Rightarrow> s)"
| "sv_step v (Open_Settled g res) s =
     (case om_get (sv_running s) g of Some (n, Opening_Port p) \<Rightarrow> open_settled v g n p res s | _ \<Rightarrow> s)"
| "sv_step v (Read_Settled g res) s =
     (case om_get (sv_running s) g of Some (n, Reading p) \<Rightarrow> read_settled v g res s | _ \<Rightarrow> s)"
| "sv_step v (Write_Fails p e) s =
     (if sv_state s = Open p then connection_loss v ''write-failed'' e False s else s)"

fun sv_run :: "(sv_env \<times> sv_event) list \<Rightarrow> supervisor \<Rightarrow> supervisor" where
  "sv_run [] s = s"
| "sv_run ((v, ev) # evs) s = sv_run evs (sv_step v ev s)"

section \<open>The invariant\<close>

definition live :: "supervisor \<Rightarrow> (nat \<times> attempt_phase) option" where
  "live s = om_get (sv_running s) (sv_generation s)"

text \<open>Bookkeeping: attempts have generations of the past, a timer runs exactly while a retry is
  scheduled, and the supervisor is in \<open>Stopped\<close> exactly once it has been stopped.\<close>

fun timers_of :: "connection_state \<Rightarrow> nat list" where
  "timers_of (Reconnecting i) = [i]"
| "timers_of _ = []"

definition base_ok :: "supervisor \<Rightarrow> bool" where
  "base_ok s \<longleftrightarrow> om_inv (sv_running s) \<and> (\<forall>g \<in> set (om_keys (sv_running s)). g \<le> sv_generation s) \<and>
     sv_timers s = timers_of (sv_state s) \<and> (sv_state s = Stopped \<longleftrightarrow> sv_stop s \<noteq> Not_Stopping)"

text \<open>Exactly one attempt that is not stale carries on the states that need one, at the right place,
  and past its first wait nothing is being closed.\<close>

fun phase_fits :: "connection_state \<Rightarrow> nat list \<Rightarrow> (nat \<times> attempt_phase) option \<Rightarrow> bool" where
  "phase_fits Listing cl (Some (n, Await_Teardown ids)) = (set cl \<subseteq> set ids)"
| "phase_fits Listing cl (Some (n, Listing_Ports)) = (cl = [])"
| "phase_fits Listing cl _ = False"
| "phase_fits (Opening p) cl l = (cl = [] \<and> map_option snd l = Some (Opening_Port p))"
| "phase_fits (Open p) cl l = (cl = [] \<and> map_option snd l = Some (Reading p))"
| "phase_fits _ cl l = (l = None)"

definition phase_ok :: "supervisor \<Rightarrow> bool" where
  "phase_ok s \<longleftrightarrow> phase_fits (sv_state s) (sv_closing s) (live s)"

fun status_fits :: "connection_state \<Rightarrow> status \<Rightarrow> bool" where
  "status_fits Idle st = (st = Status_Idle)"
| "status_fits Awaiting_Permission st = (st = Status_Awaiting_Permission)"
| "status_fits Listing st = (st = Status_Connecting)"
| "status_fits (Opening p) st = (st = Status_Connecting)"
| "status_fits (Open p) st = (st = Status_Open)"
| "status_fits (Reconnecting i) st = (st = Status_Reconnecting)"
| "status_fits Failed st = (st = Status_Failed)"
| "status_fits Stopped st = True"

definition status_ok :: "supervisor \<Rightarrow> bool" where
  "status_ok s \<longleftrightarrow> status_fits (sv_state s) (sv_status s)"

text \<open>The attempts counted since the count started over.\<close>

fun count_fits :: "limit \<Rightarrow> connection_state \<Rightarrow> nat \<Rightarrow> bool" where
  "count_fits Unlimited q n = True"
| "count_fits (Limit m) (Reconnecting i) n = (int n < m)"
| "count_fits (Limit m) Idle n = (n = 0 \<and> 1 \<le> m)"
| "count_fits (Limit m) q n = (int n \<le> m)"

definition attempts_ok :: "connection_settings \<Rightarrow> supervisor \<Rightarrow> bool" where
  "attempts_ok c s \<longleftrightarrow> count_fits (cs_max_attempts c) (sv_state s) (bo_attempt (sv_backoff s)) \<and>
     (timers_of (sv_state s) \<noteq> [] \<longrightarrow> cs_auto_reconnect c)"

definition sv_ok :: "connection_settings \<Rightarrow> supervisor \<Rightarrow> bool" where
  "sv_ok c s \<longleftrightarrow> base_ok s \<and> phase_ok s \<and> status_ok s \<and> attempts_ok c s"

definition sane :: "connection_settings \<Rightarrow> bool" where
  "sane c \<longleftrightarrow> (case cs_max_attempts c of Limit n \<Rightarrow> 1 \<le> n | Unlimited \<Rightarrow> True)"

text \<open>A view of a run with settings \<open>c\<close> in which no listener stops the supervisor within an error or a
  delivery.\<close>

definition gentle :: "connection_settings \<Rightarrow> sv_env \<Rightarrow> bool" where
  "gentle c v \<longleftrightarrow> ve_settings v = c \<and> On_Error \<notin> set (ve_stops_on v) \<and> On_Data \<notin> set (ve_stops_on v)"

lemma sv_init_ok: "sane c \<Longrightarrow> sv_ok c sv_init"
  by (cases "cs_max_attempts c")
    (simp_all add: sv_ok_def sv_init_def base_ok_def phase_ok_def status_ok_def attempts_ok_def live_def
      backoff_init_def sane_def)

text \<open>Fields the invariant does not look at.\<close>

lemma ok_out [simp]:
  "base_ok (s\<lparr>sv_out := es\<rparr>) = base_ok s" "phase_ok (s\<lparr>sv_out := es\<rparr>) = phase_ok s"
  "status_ok (s\<lparr>sv_out := es\<rparr>) = status_ok s" "attempts_ok c (s\<lparr>sv_out := es\<rparr>) = attempts_ok c s"
  "base_ok (s\<lparr>sv_status := st\<rparr>) = base_ok s" "phase_ok (s\<lparr>sv_status := st\<rparr>) = phase_ok s"
  "attempts_ok c (s\<lparr>sv_status := st\<rparr>) = attempts_ok c s"
  by (simp_all add: base_ok_def phase_ok_def status_ok_def attempts_ok_def live_def)

lemma gentle_callbacks:
  assumes "gentle c v"
  shows "report v e s = emit (Error_Reported (if err_retryable e \<and> \<not> cs_auto_reconnect c then not_retried e else e)) s"
    and "flush_received v s = emit Data_Flushed s"
  using assms by (simp_all add: report_def flush_received_def call_back_def gentle_def)

lemma live_None: "base_ok s \<Longrightarrow> om_get (sv_running s) (Suc (sv_generation s)) = None"
  by (auto simp: base_ok_def om_get_None_iff)

lemma stop_now_forms:
  assumes "base_ok s" and "sv_state s \<noteq> Stopped"
  shows "sv_state (stop_now s) = Stopped" "sv_stop (stop_now s) \<noteq> Not_Stopping" "sv_timers (stop_now s) = []"
    "sv_generation (stop_now s) = Suc (sv_generation s)" "sv_running (stop_now s) = sv_running s"
    "sv_backoff (stop_now s) = sv_backoff s" "sv_status (stop_now s) = sv_status s"
  using assms by (cases "sv_state s"; simp add: stop_now_def Let_def base_ok_def enter_state_def emit_def
      clear_timer_def track_teardown_def js_remove_def)+

lemma count_weaken: "count_fits m q n \<Longrightarrow> count_fits m Stopped n"
  by (cases "(m, q, n)" rule: count_fits.cases) auto

lemma count_same [simp]:
  "count_fits m Listing n = count_fits m Stopped n" "count_fits m (Opening p) n = count_fits m Stopped n"
  "count_fits m (Open p) n = count_fits m Stopped n" "count_fits m Failed n = count_fits m Stopped n"
  "count_fits m Awaiting_Permission n = count_fits m Stopped n"
  by (cases m; simp)+

lemma stop_now_ok:
  assumes "base_ok s" and "attempts_ok c s" and "sv_state s \<noteq> Stopped"
  shows "sv_ok c (stop_now s)"
  using assms stop_now_forms [OF assms(1,3)] live_None [OF assms(1)] count_weaken
  by (auto simp: sv_ok_def base_ok_def phase_ok_def status_ok_def attempts_ok_def live_def)

lemma set_status_cases:
  obtains (quiet) es where "set_status v st s = s\<lparr>sv_status := st, sv_out := es\<rparr>"
  | (stops) es where "set_status v st s = stop_now (s\<lparr>sv_status := st, sv_out := es\<rparr>)"
proof (cases "sv_status s = st")
  case True
  then have "set_status v st s = s\<lparr>sv_status := st, sv_out := sv_out s\<rparr>" by (simp add: set_status_def)
  then show ?thesis by (rule quiet)
next
  case False
  then show ?thesis
    by (cases "On_Status \<in> set (ve_stops_on v)")
      (auto simp: set_status_def call_back_def emit_def intro: quiet stops)
qed

lemma set_status_ok:
  assumes "base_ok s" and "phase_ok s" and "attempts_ok c s" and "status_fits (sv_state s) st"
    and "sv_state s \<noteq> Stopped"
  shows "sv_ok c (set_status v st s)"
proof (cases rule: set_status_cases [of v st s])
  case (quiet es)
  then show ?thesis using assms by (simp add: sv_ok_def status_ok_def)
next
  case (stops es)
  then show ?thesis unfolding stops using assms by (intro stop_now_ok) simp_all
qed

text \<open>A state in which an attempt may begin, and one in which the latest attempt is over.\<close>

definition quiet_base :: "supervisor \<Rightarrow> bool" where
  "quiet_base s \<longleftrightarrow> om_inv (sv_running s) \<and> (\<forall>g \<in> set (om_keys (sv_running s)). g \<le> sv_generation s) \<and>
     sv_timers s = [] \<and> sv_stop s = Not_Stopping \<and> sv_state s \<noteq> Stopped"

lemma sv_connect_ok:
  assumes q: "quiet_base s" and n: "count_fits (cs_max_attempts c) Listing (Suc (bo_attempt (sv_backoff s)))"
  shows "sv_ok c (sv_connect v s)"
proof -
  let ?g = "Suc (sv_generation s)"
  let ?s1 = "(enter_state Listing (s\<lparr>sv_generation := ?g, sv_backoff := record_attempt (sv_backoff s),
    sv_next_attempt_at := None\<rparr>))"
  have run: "sv_connect v s = (let n = bo_attempt (record_attempt (sv_backoff s));
      s2 = set_status v Status_Connecting ?s1
      in if sv_closing s2 = [] then begin_listing ?g n s2 else attempt_waits ?g (n, Await_Teardown (sv_closing s2)) s2)"
    using q by (simp add: sv_connect_def Let_def quiet_base_def enter_state_def)
  have b: "base_ok ?s1" "attempts_ok c ?s1" "sv_state ?s1 = Listing"
    using q n by (auto simp: base_ok_def quiet_base_def enter_state_def attempts_ok_def record_attempt_def)
  show ?thesis
  proof (cases rule: set_status_cases [of v Status_Connecting ?s1])
    case (quiet es)
    show ?thesis unfolding run quiet using b
      by (auto simp: Let_def sv_ok_def base_ok_def phase_ok_def status_ok_def attempts_ok_def live_def
          begin_listing_def attempt_waits_def emit_def enter_state_def)
  next
    case (stops es)
    let ?t = "stop_now (?s1\<lparr>sv_status := Status_Connecting, sv_out := es\<rparr>)"
    have "base_ok (?s1\<lparr>sv_status := Status_Connecting, sv_out := es\<rparr>)"
      "attempts_ok c (?s1\<lparr>sv_status := Status_Connecting, sv_out := es\<rparr>)" "sv_state (?s1\<lparr>sv_status := Status_Connecting, sv_out := es\<rparr>) \<noteq> Stopped"
      using b by simp_all
    then have t: "sv_ok c ?t" and f: "sv_state ?t = Stopped" "sv_generation ?t = Suc ?g"
      using stop_now_ok stop_now_forms by (auto simp: enter_state_def)
    show ?thesis unfolding run stops using t f
      by (auto simp: Let_def sv_ok_def base_ok_def phase_ok_def status_ok_def attempts_ok_def live_def
          begin_listing_def attempt_waits_def emit_def)
  qed
qed

lemma give_up_ok:
  assumes q: "quiet_base s" and l: "live s = None" and n: "count_fits (cs_max_attempts c) Failed (bo_attempt (sv_backoff s))"
  shows "sv_ok c (give_up v s)"
  unfolding give_up_def
  using assms by (intro set_status_ok)
    (auto simp: quiet_base_def base_ok_def phase_ok_def attempts_ok_def live_def enter_state_def)

lemma emit_ok [simp]: "sv_ok c (emit e s) = sv_ok c s"
  by (simp add: sv_ok_def emit_def)

lemma record_failed_attempt_ok:
  assumes g: "gentle c v" and q: "quiet_base s" and l: "live s = None" and sane: "sane c"
    and n: "count_fits (cs_max_attempts c) Failed (bo_attempt (sv_backoff s))"
  shows "sv_ok c (record_failed_attempt v reason s)"
proof (cases "cs_auto_reconnect c")
  case False
  then show ?thesis using give_up_ok [OF q l n] g by (simp add: record_failed_attempt_def gentle_def)
next
  case auto: True
  have c: "ve_settings v = c" using g by (simp add: gentle_def)
  let ?b = "record_disconnected (ve_monotonic v) (cs_stable_after c) (sv_backoff s)"
  have n': "count_fits (cs_max_attempts c) Failed (bo_attempt ?b)"
    using n sane by (cases "cs_max_attempts c") (auto simp: record_disconnected_def Let_def sane_def)
  show ?thesis
  proof (cases "has_exhausted (cs_max_attempts c) ?b")
    case True
    have "sv_ok c (set_status v Status_Failed (enter_state Failed (s\<lparr>sv_backoff := ?b, sv_next_attempt_at := None\<rparr>)))"
      using q l n' by (intro set_status_ok)
        (auto simp: quiet_base_def base_ok_def phase_ok_def attempts_ok_def live_def enter_state_def)
    then show ?thesis using auto True c
      by (simp add: record_failed_attempt_def Let_def gentle_callbacks [OF g])
  next
    case False
    then have "\<And>i. count_fits (cs_max_attempts c) (Reconnecting i) (bo_attempt ?b)"
      by (cases "cs_max_attempts c") auto
    then show ?thesis using auto False c q l
      unfolding record_failed_attempt_def Let_def
      by (auto intro!: set_status_ok
          simp: quiet_base_def base_ok_def phase_ok_def attempts_ok_def live_def enter_state_def emit_def)
  qed
qed

lemma connection_loss_ok:
  assumes g: "gentle c v" and sane: "sane c" and b: "base_ok s" and n: "attempts_ok c s"
    and q: "sv_state s \<noteq> Stopped" "timers_of (sv_state s) = []"
  shows "sv_ok c (connection_loss v reason e gives_up s)"
proof -
  define s3 where "s3 = report v e ((case sv_state s of Open p \<Rightarrow> flush_received v s | _ \<Rightarrow> s)
    \<lparr>sv_generation := Suc (sv_generation s), sv_opened_at := None\<rparr>)"
  define s4 where "s4 = (case sv_state s of Open p \<Rightarrow> track_teardown (Close_Connection p) s3
    | Opening p \<Rightarrow> track_teardown (Close_When_Opened p) s3 | _ \<Rightarrow> s3)"
  have run: "connection_loss v reason e gives_up s = (if gives_up then give_up v s4 else record_failed_attempt v reason s4)"
    using q unfolding s3_def s4_def
    by (cases "sv_state s") (simp_all add: connection_loss_def Let_def gentle_callbacks [OF g] emit_def)
  have "sv_running s4 = sv_running s \<and> sv_generation s4 = Suc (sv_generation s) \<and> sv_timers s4 = sv_timers s \<and>
      sv_stop s4 = sv_stop s \<and> sv_state s4 = sv_state s \<and> sv_backoff s4 = sv_backoff s"
    unfolding s3_def s4_def
    by (cases "sv_state s") (simp_all add: gentle_callbacks [OF g] emit_def track_teardown_def)
  then have "quiet_base s4" "live s4 = None" "count_fits (cs_max_attempts c) Failed (bo_attempt (sv_backoff s4))"
    using b n q count_weaken by (auto simp: quiet_base_def base_ok_def live_def live_None attempts_ok_def om_get_None_iff)
  then show ?thesis unfolding run by (simp add: give_up_ok record_failed_attempt_ok [OF g _ _ sane])
qed

lemma phase_inversion:
  "phase_fits q cl (Some (n, Await_Teardown ids)) \<longleftrightarrow> q = Listing \<and> set cl \<subseteq> set ids"
  "phase_fits q cl (Some (n, Listing_Ports)) \<longleftrightarrow> q = Listing \<and> cl = []"
  "phase_fits q cl (Some (n, Opening_Port p)) \<longleftrightarrow> q = Opening p \<and> cl = []"
  "phase_fits q cl (Some (n, Reading p)) \<longleftrightarrow> q = Open p \<and> cl = []"
  by (cases q; auto)+

lemma phase_fits_closing: "phase_fits q cl l \<Longrightarrow> set cl' \<subseteq> set cl \<Longrightarrow> phase_fits q cl' l"
  by (cases "(q, cl, l)" rule: phase_fits.cases) auto

text \<open>An attempt that is no longer the latest one, or runs in a supervisor that was stopped, ends.\<close>

lemma stale_over_ok: "sv_ok c s \<Longrightarrow> is_stale g s \<Longrightarrow> sv_ok c (attempt_over g s)"
  by (auto simp: sv_ok_def base_ok_def phase_ok_def status_ok_def attempts_ok_def live_def is_stale_def attempt_over_def)

lemma over_forms [simp]:
  "sv_state (attempt_over g s) = sv_state s" "sv_timers (attempt_over g s) = sv_timers s"
  "sv_stop (attempt_over g s) = sv_stop s" "sv_backoff (attempt_over g s) = sv_backoff s"
  "sv_generation (attempt_over g s) = sv_generation s" "sv_closing (attempt_over g s) = sv_closing s"
  "live (attempt_over g s) = (if sv_generation s = g then None else live s)"
  by (simp_all add: attempt_over_def live_def)

lemma over_base_ok: "base_ok s \<Longrightarrow> base_ok (attempt_over g s)" "attempts_ok c (attempt_over g s) = attempts_ok c s"
  by (auto simp: base_ok_def attempts_ok_def attempt_over_def)

lemma base_quiet: "base_ok s \<Longrightarrow> sv_state s \<noteq> Stopped \<Longrightarrow> timers_of (sv_state s) = [] \<Longrightarrow> quiet_base s"
  by (auto simp: base_ok_def quiet_base_def)

lemma attempts_count: "attempts_ok c s \<Longrightarrow> count_fits (cs_max_attempts c) Stopped (bo_attempt (sv_backoff s))"
  using count_weaken by (auto simp: attempts_ok_def)

text \<open>The latest attempt, with the state the invariant gives for where it waits.\<close>

lemma latest_attempt:
  assumes "sv_ok c s" and "om_get (sv_running s) g = Some (n, ph)" and "\<not> is_stale g s"
  shows "base_ok s" "attempts_ok c s" "sv_state s \<noteq> Stopped" "sv_generation s = g" "timers_of (sv_state s) = []"
    "live s = Some (n, ph)" "phase_fits (sv_state s) (sv_closing s) (Some (n, ph))" "g \<in> set (om_keys (sv_running s))"
proof -
  show l: "live s = Some (n, ph)" using assms by (auto simp: live_def is_stale_def)
  show "base_ok s" "attempts_ok c s" "sv_state s \<noteq> Stopped" "sv_generation s = g" "g \<in> set (om_keys (sv_running s))"
    using assms om_get_Some_key by (fastforce simp: sv_ok_def is_stale_def)+
  show p: "phase_fits (sv_state s) (sv_closing s) (Some (n, ph))" using assms(1) l by (simp add: sv_ok_def phase_ok_def)
  then show "timers_of (sv_state s) = []" by (cases ph) (auto simp: phase_inversion)
qed

lemma begin_listing_ok:
  assumes "base_ok s" "attempts_ok c s" "status_ok s" "sv_state s = Listing" "sv_generation s = g" "sv_closing s = []"
  shows "sv_ok c (begin_listing g n s)"
  using assms by (auto simp: sv_ok_def base_ok_def phase_ok_def status_ok_def attempts_ok_def live_def
      begin_listing_def attempt_waits_def emit_def)

lemma loss_after_attempt:
  assumes g: "gentle c v" and sane: "sane c" and b: "base_ok s" and n: "attempts_ok c s"
    and q: "sv_state s \<noteq> Stopped" "timers_of (sv_state s) = []"
  shows "sv_ok c (connection_loss v reason e gives_up (attempt_over g' s))"
  using assms by (intro connection_loss_ok [OF g sane]) (simp_all add: over_base_ok)

lemma ports_listed_ok:
  assumes g: "gentle c v" and sane: "sane c" and ok: "sv_ok c s"
    and r: "om_get (sv_running s) a = Some (n, Listing_Ports)"
  shows "sv_ok c (ports_listed v a n l s)"
proof (cases "is_stale a s")
  case True
  then show ?thesis using stale_over_ok [OF ok] by (simp add: ports_listed_def)
next
  case fresh: False
  note at = latest_attempt [OF ok r fresh]
  have q: "sv_state s = Listing" "sv_closing s = []" using at(7) by (auto simp: phase_inversion)
  have st: "status_ok s" using ok by (simp add: sv_ok_def)
  have over: "quiet_base (attempt_over a s)" "live (attempt_over a s) = None"
    "count_fits (cs_max_attempts c) Failed (bo_attempt (sv_backoff (attempt_over a s)))"
    using at over_base_ok by (auto simp: attempts_count intro!: base_quiet)
  show ?thesis
  proof (cases l)
    case (Listing_Fails t)
    have rep: "quiet_base (report v e (attempt_over a s))" "live (report v e (attempt_over a s)) = None"
      "count_fits (cs_max_attempts c) Failed (bo_attempt (sv_backoff (report v e (attempt_over a s))))" for e
      using over by (simp_all add: gentle_callbacks [OF g] emit_def quiet_base_def live_def)
    show ?thesis using Listing_Fails fresh loss_after_attempt [OF g sane at(1,2,3,5)] give_up_ok [OF rep]
      by (simp add: ports_listed_def listing_failed_def split: thrown.split)
  next
    case (Listed port throws)
    show ?thesis
    proof (cases port)
      case None
      have "sv_ok c (set_status v Status_Awaiting_Permission (enter_state Awaiting_Permission (attempt_over a s)))"
        using over q by (intro set_status_ok)
          (auto simp: quiet_base_def base_ok_def phase_ok_def attempts_ok_def live_def enter_state_def)
      then show ?thesis using None Listed fresh q at st record_failed_attempt_ok [OF g over(1,2) sane over(3)]
        by (simp add: ports_listed_def begin_listing_ok)
    next
      case (Some p)
      let ?s1 = "emit (Open_Called p) (s\<lparr>sv_found := Some p, sv_found_detached := False\<rparr>)"
      have b1: "base_ok ?s1" "attempts_ok c ?s1" "sv_state ?s1 = Listing"
        using at q by (simp_all add: emit_def base_ok_def attempts_ok_def)
      show ?thesis
      proof (cases throws)
        case thr: (Some t)
        let ?s2 = "emit (Open_Threw p) ?s1"
        have b2: "base_ok ?s2" "attempts_ok c ?s2" "sv_state ?s2 = Listing"
          using b1 by (simp_all add: emit_def)
        show ?thesis using Some Listed thr fresh b2 loss_after_attempt [OF g sane b2(1,2)]
          by (simp add: ports_listed_def open_port_def Let_def)
      next
        case None
        then show ?thesis using Some Listed fresh b1 q at st
          by (auto simp: ports_listed_def open_port_def Let_def sv_ok_def base_ok_def phase_ok_def status_ok_def
              attempts_ok_def live_def attempt_waits_def emit_def enter_state_def)
      qed
    qed
  qed
qed

lemma waits_commutes: "attempt_waits g a (set_status v st s) = set_status v st (attempt_waits g a s)"
  by (cases "sv_state s") (simp_all add: attempt_waits_def set_status_def call_back_def emit_def stop_now_def Let_def
      enter_state_def clear_timer_def track_teardown_def)

lemma open_settled_ok:
  assumes g: "gentle c v" and sane: "sane c" and ok: "sv_ok c s"
    and r: "om_get (sv_running s) a = Some (n, Opening_Port p)"
  shows "sv_ok c (open_settled v a n p res s)"
proof (cases "is_stale a s")
  case True
  then show ?thesis using stale_over_ok [OF ok] by (simp add: open_settled_def)
next
  case fresh: False
  note at = latest_attempt [OF ok r fresh]
  have q: "sv_state s = Opening p" "sv_closing s = []" using at(7) by (auto simp: phase_inversion)
  let ?s1 = "attempt_waits a (n, Reading p) ((enter_state (Open p) s)
    \<lparr>sv_backoff := record_connected (ve_monotonic v) (sv_backoff s), sv_opened_at := Some (ve_now v)\<rparr>)"
  have "sv_ok c (set_status v Status_Open ?s1)"
    using at q by (intro set_status_ok) (auto simp: attempt_waits_def enter_state_def base_ok_def phase_ok_def live_def
        attempts_ok_def record_connected_def)
  then show ?thesis using fresh loss_after_attempt [OF g sane at(1,2,3,5)]
    by (simp add: open_settled_def waits_commutes Let_def split: open_result.split)
qed

lemma read_settled_ok:
  assumes g: "gentle c v" and sane: "sane c" and ok: "sv_ok c s"
    and r: "om_get (sv_running s) a = Some (n, Reading p)"
  shows "sv_ok c (read_settled v a res s)"
proof (cases "is_stale a s")
  case True
  then show ?thesis using stale_over_ok [OF ok] by (simp add: read_settled_def)
next
  case fresh: False
  note at = latest_attempt [OF ok r fresh]
  show ?thesis using fresh ok loss_after_attempt [OF g sane at(1,2,3,5)]
    by (simp add: read_settled_def Let_def split: read_result.split)
qed

text \<open>A fresh start: the count is over, and nothing is scheduled.\<close>

lemma fresh_connect_ok:
  assumes "sane c" and "quiet_base s"
  shows "sv_ok c (sv_connect v (enter_state Idle (s\<lparr>sv_backoff := backoff_reset (sv_backoff s)\<rparr>)))"
proof (rule sv_connect_ok)
  show "quiet_base (enter_state Idle (s\<lparr>sv_backoff := backoff_reset (sv_backoff s)\<rparr>))"
    using assms(2) by (simp add: quiet_base_def enter_state_def)
  show "count_fits (cs_max_attempts c) Listing
      (Suc (bo_attempt (sv_backoff (enter_state Idle (s\<lparr>sv_backoff := backoff_reset (sv_backoff s)\<rparr>)))))"
    using assms(1) by (cases "cs_max_attempts c") (simp_all add: sane_def enter_state_def backoff_reset_def)
qed

lemma cleared_quiet:
  "base_ok s \<Longrightarrow> sv_state s = Reconnecting i \<Longrightarrow> quiet_base (clear_timer i s)"
  by (auto simp: base_ok_def quiet_base_def clear_timer_def emit_def js_remove_def)

lemma state_quiet:
  "base_ok s \<Longrightarrow> sv_state s \<in> {Idle, Awaiting_Permission, Listing, Failed} \<or> (\<exists>p. sv_state s \<in> {Opening p, Open p}) \<Longrightarrow> quiet_base s"
  by (rule base_quiet) auto

lemma sv_start_ok:
  assumes "sane c" and "sv_ok c s"
  shows "sv_ok c (sv_start v ff s)"
proof (cases "sv_state s")
  case Idle
  then have q: "quiet_base s" "live s = None" "count_fits (cs_max_attempts c) Idle (bo_attempt (sv_backoff s))"
    using assms state_quiet [of s] by (auto simp: sv_ok_def phase_ok_def attempts_ok_def)
  have "count_fits (cs_max_attempts c) Listing (Suc (bo_attempt (sv_backoff s)))"
    using q(3) by (cases "cs_max_attempts c") simp_all
  then have "sv_ok c (sv_connect v s)" using q(1) by (intro sv_connect_ok)
  moreover have "sv_ok c (set_status v Status_Failed (enter_state Failed s))"
    using q count_weaken [OF q(3)] by (intro set_status_ok)
      (auto simp: quiet_base_def base_ok_def phase_ok_def attempts_ok_def live_def enter_state_def)
  ultimately show ?thesis using Idle by (simp add: sv_start_def)
qed (use assms in \<open>simp_all add: sv_start_def\<close>)

lemma sv_retry_ok: "sane c \<Longrightarrow> sv_ok c s \<Longrightarrow> sv_ok c (sv_retry v s)"
  using state_quiet [of s] fresh_connect_ok [of c s v] by (auto simp: sv_retry_def sv_ok_def)

lemma use_granted_port_ok: "sane c \<Longrightarrow> sv_ok c s \<Longrightarrow> sv_ok c (use_granted_port v s)"
  using state_quiet [of s] fresh_connect_ok [of c s v] cleared_quiet [of s] fresh_connect_ok [of c "clear_timer i s" v for i]
  by (cases "sv_state s") (auto simp: use_granted_port_def sv_ok_def)

lemma follow_device_ok:
  assumes g: "gentle c v" and sane: "sane c" and ok: "sv_ok c s"
  shows "sv_ok c (follow_device v m s)"
proof -
  have b: "base_ok s" using ok by (simp add: sv_ok_def)
  let ?s1 = "s\<lparr>sv_generation := Suc (sv_generation s), sv_opened_at := None,
    sv_next_attempt_at := None, sv_found := None, sv_found_detached := False\<rparr>"
  have "quiet_base (case sv_state s of Reconnecting i \<Rightarrow> clear_timer i ?s1
      | Open p \<Rightarrow> track_teardown (Close_After_Writes p) (flush_received v ?s1)
      | Opening p \<Rightarrow> track_teardown (Close_When_Opened p) ?s1 | _ \<Rightarrow> ?s1)" if "sv_state s \<noteq> Stopped"
    using b that by (cases "sv_state s") (auto simp: quiet_base_def base_ok_def clear_timer_def emit_def js_remove_def
        track_teardown_def gentle_callbacks [OF g])
  from fresh_connect_ok [OF sane this] ok show ?thesis by (simp add: follow_device_def Let_def)
qed

lemma detached_ok [simp]:
  "sv_ok c (s\<lparr>sv_found_detached := b\<rparr>) = sv_ok c s" "sv_ok c (s\<lparr>sv_connected_while_listing := b\<rparr>) = sv_ok c s"
  "base_ok (s\<lparr>sv_found_detached := b\<rparr>) = base_ok s" "attempts_ok c (s\<lparr>sv_found_detached := b\<rparr>) = attempts_ok c s"
  "phase_ok (s\<lparr>sv_found_detached := b\<rparr>) = phase_ok s" "status_ok (s\<lparr>sv_found_detached := b\<rparr>) = status_ok s"
  by (simp_all add: sv_ok_def base_ok_def phase_ok_def status_ok_def attempts_ok_def live_def)

lemma retry_now_ok:
  assumes "sane c" "base_ok s" "attempts_ok c s" "sv_state s = Reconnecting i" "quiet_base s'"
    "sv_backoff s' = sv_backoff s"
  shows "sv_ok c (sv_connect v s')"
proof (rule sv_connect_ok)
  show "count_fits (cs_max_attempts c) Listing (Suc (bo_attempt (sv_backoff s')))"
    using assms(3,4,6) by (cases "cs_max_attempts c") (simp_all add: attempts_ok_def)
qed (rule assms(5))

lemma device_connected_ok: "sane c \<Longrightarrow> sv_ok c s \<Longrightarrow> sv_ok c (device_connected v s)"
proof -
  assume sane: "sane c" and ok: "sv_ok c s"
  let ?s = "s\<lparr>sv_found_detached := False\<rparr>"
  have s: "base_ok ?s" "attempts_ok c ?s" "sv_ok c ?s" using ok by (simp_all add: sv_ok_def)
  show ?thesis
  proof (cases "sv_state ?s")
    case (Reconnecting i)
    then show ?thesis using retry_now_ok [OF sane s(1,2) Reconnecting cleared_quiet [OF s(1) Reconnecting]]
      by (simp add: device_connected_def clear_timer_def emit_def)
  qed (use s state_quiet [OF s(1)] fresh_connect_ok [OF sane, of ?s v] in \<open>simp_all add: device_connected_def Let_def\<close>)
qed

lemma device_disconnected_ok:
  assumes g: "gentle c v" and sane: "sane c" and ok: "sv_ok c s"
  shows "sv_ok c (device_disconnected v p s)"
proof -
  let ?s = "s\<lparr>sv_found_detached := True\<rparr>"
  have s: "base_ok ?s" "attempts_ok c ?s" "sv_ok c ?s" using ok by (simp_all add: sv_ok_def)
  show ?thesis
  proof (cases "sv_state ?s")
    case Awaiting_Permission
    then have "quiet_base ?s" "live ?s = None" "count_fits (cs_max_attempts c) Failed (bo_attempt (sv_backoff ?s))"
      using s state_quiet [OF s(1)] by (auto simp: sv_ok_def phase_ok_def attempts_ok_def)
    then show ?thesis using Awaiting_Permission ok record_failed_attempt_ok [OF g _ _ sane]
      by (simp add: device_disconnected_def Let_def split: option.split)
  qed (use s ok connection_loss_ok [OF g sane s(1,2)] in \<open>simp_all add: device_disconnected_def Let_def split: option.split\<close>)
qed

lemma stop_continues_ok: "sv_ok c s \<Longrightarrow> sv_ok c (stop_continues v s)"
proof -
  assume ok: "sv_ok c s"
  show ?thesis
  proof (cases "sv_stop s")
    case Answering
    have "stop_now (s\<lparr>sv_stop := Stop_Done, sv_status := a, sv_out := b\<rparr>) = s\<lparr>sv_stop := Stop_Done, sv_status := a, sv_out := b\<rparr>"
      for a b by (simp add: stop_now_def)
    then obtain es where "set_status v Status_Idle (s\<lparr>sv_stop := Stop_Done\<rparr>)
        = s\<lparr>sv_stop := Stop_Done, sv_status := Status_Idle, sv_out := es\<rparr>"
      by (cases rule: set_status_cases [of v Status_Idle "s\<lparr>sv_stop := Stop_Done\<rparr>"]) simp_all
    then show ?thesis using ok Answering
      by (auto simp: stop_continues_def sv_ok_def base_ok_def phase_ok_def status_ok_def attempts_ok_def live_def)
  qed (use ok in \<open>auto simp: stop_continues_def Let_def sv_ok_def base_ok_def phase_ok_def status_ok_def
        attempts_ok_def live_def track_teardown_def emit_def\<close>)
qed

theorem sv_step_ok:
  assumes g: "gentle c v" and sane: "sane c" and ok: "sv_ok c s"
  shows "sv_ok c (sv_step v ev s)"
proof (cases ev)
  case Stop
  then show ?thesis using ok stop_now_ok [of s c]
    by (cases "sv_stop s = Not_Stopping") (auto simp: sv_ok_def base_ok_def stop_now_def)
next
  case (Timer_Fires i)
  let ?s1 = "s\<lparr>sv_timers := js_remove i (sv_timers s)\<rparr>"
  have b: "base_ok s" "attempts_ok c s" using ok by (simp_all add: sv_ok_def)
  show ?thesis
  proof (cases "i \<in> set (sv_timers s)")
    case True
    then obtain j where j: "sv_state s = Reconnecting j" "sv_timers s = [i]"
      using b(1) by (cases "sv_state s") (auto simp: base_ok_def)
    then have "quiet_base ?s1" using b(1) by (auto simp: base_ok_def quiet_base_def js_remove_def)
    from retry_now_ok [OF sane b j(1) this] Timer_Fires True j show ?thesis by simp
  qed (use ok Timer_Fires in simp)
next
  case (Close_Done i)
  have "phase_ok (s\<lparr>sv_closing := js_remove i (sv_closing s)\<rparr>)"
    using ok by (auto simp: sv_ok_def phase_ok_def live_def intro: phase_fits_closing)
  then show ?thesis using ok Close_Done
    by (auto simp: sv_ok_def base_ok_def status_ok_def attempts_ok_def)
next
  case (Teardown_Over a)
  have "sv_ok c (begin_listing a n s)" if "om_get (sv_running s) a = Some (n, Await_Teardown ids)" "\<not> is_stale a s"
    "set ids \<inter> set (sv_closing s) = {}" for n ids
  proof -
    note at = latest_attempt [OF ok that(1,2)]
    have "sv_state s = Listing" "set (sv_closing s) \<subseteq> set ids" using at(7) by (simp_all add: phase_inversion)
    moreover from this have "sv_closing s = []" using that(3) by (metis inf.orderE inf_commute set_empty)
    ultimately show ?thesis using at ok by (intro begin_listing_ok) (auto simp: sv_ok_def)
  qed
  then show ?thesis using Teardown_Over ok stale_over_ok [OF ok]
    by (auto split: option.split prod.split attempt_phase.split)
next
  case (Ports_Answered a l)
  then show ?thesis using ok ports_listed_ok [OF g sane ok]
    by (auto split: option.split prod.split attempt_phase.split)
next
  case (Open_Settled a res)
  then show ?thesis using ok open_settled_ok [OF g sane ok]
    by (auto split: option.split prod.split attempt_phase.split)
next
  case (Read_Settled a res)
  then show ?thesis using ok read_settled_ok [OF g sane ok]
    by (auto split: option.split prod.split attempt_phase.split)
next
  case (Write_Fails p e)
  then show ?thesis using ok connection_loss_ok [OF g sane] by (auto simp: sv_ok_def)
qed (use assms sv_start_ok sv_retry_ok use_granted_port_ok follow_device_ok device_connected_ok
      device_disconnected_ok stop_continues_ok in auto)

lemma sv_run_ok:
  "sane c \<Longrightarrow> \<forall>(v, ev) \<in> set evs. gentle c v \<Longrightarrow> sv_ok c s \<Longrightarrow> sv_ok c (sv_run evs s)"
proof (induction evs s rule: sv_run.induct)
  case (2 v ev evs s)
  then show ?case using sv_step_ok [of c v s ev] by simp
qed simp

section \<open>Opens and closes\<close>

definition opened_ports :: "supervisor \<Rightarrow> port list" where
  "opened_ports s = concat (map (\<lambda>e. case e of Open_Called p \<Rightarrow> [p] | _ \<Rightarrow> []) (sv_out s))"

fun closed_port :: "close_kind \<Rightarrow> port" where
  "closed_port (Close_Connection p) = p"
| "closed_port (Close_When_Opened p) = p"
| "closed_port (Close_After_Writes p) = p"

fun owed :: "port \<Rightarrow> sv_effect \<Rightarrow> int" where
  "owed p (Open_Called q) = (if q = p then 1 else 0)"
| "owed p (Open_Threw q) = (if q = p then -1 else 0)"
| "owed p (Close_Begun i k) = (if closed_port k = p then -1 else 0)"
| "owed p _ = 0"

text \<open>The calls of \<open>open()\<close> on a port for which no close has begun.\<close>

definition balance :: "supervisor \<Rightarrow> port \<Rightarrow> int" where
  "balance s p = sum_list (map (owed p) (sv_out s))"

definition holds :: "supervisor \<Rightarrow> port \<Rightarrow> bool" where
  "holds s p \<longleftrightarrow> sv_state s = Opening p \<or> sv_state s = Open p \<or> sv_stop s = Draining p"

fun closed_up :: "stop_phase \<Rightarrow> nat list \<Rightarrow> bool" where
  "closed_up (Closing_Down ids) cl = (set cl \<subseteq> set ids)"
| "closed_up Answering cl = (cl = [])"
| "closed_up Stop_Done cl = (cl = [])"
| "closed_up _ cl = True"


definition stop_tidy :: "supervisor \<Rightarrow> bool" where
  "stop_tidy s \<longleftrightarrow> closed_up (sv_stop s) (sv_closing s)"

lemma opened_out: "sv_out s' = sv_out s \<Longrightarrow> opened_ports s' = opened_ports s"
  by (simp add: opened_ports_def)

lemma balance_out: "sv_out s' = sv_out s \<Longrightarrow> balance s' = balance s"
  by (simp add: balance_def fun_eq_iff)

lemma ledger_emit [simp]:
  "opened_ports (emit e s) = opened_ports s @ (case e of Open_Called p \<Rightarrow> [p] | _ \<Rightarrow> [])"
  "balance (emit e s) p = balance s p + owed p e"
  by (simp_all add: opened_ports_def balance_def emit_def)

lemma ledger_fields [simp]:
  "opened_ports (s\<lparr>sv_state := q\<rparr>) = opened_ports s" "balance (s\<lparr>sv_state := q\<rparr>) = balance s"
  "opened_ports (s\<lparr>sv_status := st\<rparr>) = opened_ports s" "balance (s\<lparr>sv_status := st\<rparr>) = balance s"
  "opened_ports (s\<lparr>sv_connected_while_listing := b\<rparr>) = opened_ports s" "balance (s\<lparr>sv_connected_while_listing := b\<rparr>) = balance s"
  "opened_ports (s\<lparr>sv_found := f\<rparr>) = opened_ports s" "balance (s\<lparr>sv_found := f\<rparr>) = balance s"
  "opened_ports (s\<lparr>sv_found_detached := b\<rparr>) = opened_ports s" "balance (s\<lparr>sv_found_detached := b\<rparr>) = balance s"
  "opened_ports (s\<lparr>sv_closing := cl\<rparr>) = opened_ports s" "balance (s\<lparr>sv_closing := cl\<rparr>) = balance s"
  "opened_ports (s\<lparr>sv_next_close := n\<rparr>) = opened_ports s" "balance (s\<lparr>sv_next_close := n\<rparr>) = balance s"
  "opened_ports (s\<lparr>sv_stop := sp\<rparr>) = opened_ports s" "balance (s\<lparr>sv_stop := sp\<rparr>) = balance s"
  "opened_ports (s\<lparr>sv_backoff := bo\<rparr>) = opened_ports s" "balance (s\<lparr>sv_backoff := bo\<rparr>) = balance s"
  "opened_ports (s\<lparr>sv_generation := n\<rparr>) = opened_ports s" "balance (s\<lparr>sv_generation := n\<rparr>) = balance s"
  "opened_ports (s\<lparr>sv_next_attempt_at := t\<rparr>) = opened_ports s" "balance (s\<lparr>sv_next_attempt_at := t\<rparr>) = balance s"
  "opened_ports (s\<lparr>sv_opened_at := t\<rparr>) = opened_ports s" "balance (s\<lparr>sv_opened_at := t\<rparr>) = balance s"
  "opened_ports (s\<lparr>sv_timers := ts\<rparr>) = opened_ports s" "balance (s\<lparr>sv_timers := ts\<rparr>) = balance s"
  "opened_ports (s\<lparr>sv_next_timer := n\<rparr>) = opened_ports s" "balance (s\<lparr>sv_next_timer := n\<rparr>) = balance s"
  "opened_ports (s\<lparr>sv_running := r\<rparr>) = opened_ports s" "balance (s\<lparr>sv_running := r\<rparr>) = balance s"
  by (rule opened_out balance_out; simp)+

lemma opened_same [simp]:
  "opened_ports (enter_state q s) = opened_ports s" "opened_ports (clear_timer i s) = opened_ports s"
  "opened_ports (track_teardown k s) = opened_ports s" "opened_ports (attempt_waits g a s) = opened_ports s"
  "opened_ports (attempt_over g s) = opened_ports s" "opened_ports (begin_listing g n s) = opened_ports s"
  by (simp_all add: enter_state_def clear_timer_def track_teardown_def attempt_waits_def attempt_over_def begin_listing_def)

lemma opened_stop [simp]: "opened_ports (stop_now s) = opened_ports s"
  by (simp add: stop_now_def Let_def split: connection_state.split)

lemma opened_calls [simp]:
  "opened_ports (set_status v st s) = opened_ports s" "opened_ports (report v e s) = opened_ports s"
  "opened_ports (flush_received v s) = opened_ports s"
  by (simp_all add: set_status_def report_def flush_received_def call_back_def)

lemma opened_ops [simp]:
  "opened_ports (sv_connect v s) = opened_ports s" "opened_ports (give_up v s) = opened_ports s"
  "opened_ports (record_failed_attempt v r s) = opened_ports s"
  by (simp_all add: sv_connect_def give_up_def record_failed_attempt_def Let_def)

lemma opened_loss [simp]: "opened_ports (connection_loss v r e gu s) = opened_ports s"
  by (simp add: connection_loss_def Let_def split: connection_state.split)

lemma opened_rest [simp]:
  "opened_ports (listing_failed v n t s) = opened_ports s" "opened_ports (open_settled v g n p res s) = opened_ports s"
  "opened_ports (read_settled v g rr s) = opened_ports s" "opened_ports (sv_start v ff s) = opened_ports s"
  "opened_ports (sv_retry v s) = opened_ports s" "opened_ports (use_granted_port v s) = opened_ports s"
  "opened_ports (follow_device v m s) = opened_ports s" "opened_ports (device_connected v s) = opened_ports s"
  "opened_ports (device_disconnected v po s) = opened_ports s" "opened_ports (stop_continues v s) = opened_ports s"
  by (simp_all add: listing_failed_def open_settled_def read_settled_def sv_start_def sv_retry_def use_granted_port_def
      follow_device_def device_connected_def device_disconnected_def stop_continues_def Let_def
      split: thrown.split open_result.split read_result.split connection_state.split option.split stop_phase.split)


text \<open>Every port opened is held, or its close has begun; and a stop that has waited for the closes has
  waited for all of them.\<close>

definition tidy :: "supervisor \<Rightarrow> bool" where
  "tidy s \<longleftrightarrow> (\<forall>p. balance s p = (if holds s p then 1 else 0)) \<and> stop_tidy s"

text \<open>The same once the connection of the state has been shed.\<close>

definition shed :: "supervisor \<Rightarrow> bool" where
  "shed s \<longleftrightarrow> (\<forall>p. balance s p = 0) \<and> sv_stop s = Not_Stopping"

definition unconnected :: "connection_state \<Rightarrow> bool" where
  "unconnected q \<longleftrightarrow> (\<forall>p. q \<noteq> Opening p \<and> q \<noteq> Open p)"

lemma unconnected_simps [simp]:
  "unconnected Idle" "unconnected Awaiting_Permission" "unconnected Listing" "unconnected (Reconnecting i)"
  "unconnected Failed" "unconnected Stopped"
  by (simp_all add: unconnected_def)

lemma balance_same [simp]:
  "balance (enter_state q s) = balance s" "balance (clear_timer i s) = balance s"
  "balance (attempt_waits g a s) = balance s" "balance (attempt_over g s) = balance s"
  "balance (begin_listing g n s) = balance s"
  by (auto simp: enter_state_def clear_timer_def attempt_waits_def attempt_over_def begin_listing_def)

lemma balance_track [simp]: "balance (track_teardown k s) p = balance s p - (if closed_port k = p then 1 else 0)"
  by (simp add: track_teardown_def)

lemma emit_fields [simp]:
  "sv_state (emit e s) = sv_state s" "sv_stop (emit e s) = sv_stop s" "sv_closing (emit e s) = sv_closing s"
  "sv_stop (clear_timer i s) = sv_stop s"
  by (simp_all add: emit_def clear_timer_def)












lemma over_tidy [simp]: "tidy (attempt_over g s) = tidy s" "shed (attempt_over g s) = shed s"
  using balance_same by (simp_all add: tidy_def shed_def holds_def stop_tidy_def)


lemma clear_timer_shed [simp]: "shed (clear_timer i s) = shed s"
  by (simp add: shed_def)

lemma found_tidy [simp]:
  "tidy (s\<lparr>sv_found_detached := b\<rparr>) = tidy s" "tidy (s\<lparr>sv_connected_while_listing := b\<rparr>) = tidy s"
  "shed (s\<lparr>sv_found_detached := b\<rparr>) = shed s"
  by (simp_all add: tidy_def shed_def holds_def stop_tidy_def)









section \<open>What the supervisor promises\<close>

lemma stopped_loss: "sv_state s = Stopped \<Longrightarrow> connection_loss v r e gu s = s"
  by (simp add: connection_loss_def)




text \<open>Settings and a view for the examples: attempts without limit, and no listener that stops.\<close>

definition example_view :: sv_env where
  "example_view = \<lparr>ve_config = ''scale'', ve_settings = default_connection, ve_now = 1000, ve_monotonic = 1000,
     ve_random = 0, ve_stops_on = []\<rparr>"

definition example_opening :: "(sv_env \<times> sv_event) list" where
  "example_opening = map (Pair example_view)
     [Start False, Ports_Answered 1 (Listed (Some 7) None), Open_Settled 1 Opened]"







text \<open>
  Attempts are bounded, and only made when the configuration asks for them: with \<open>maxAttempts\<close> of
  \<open>n\<close> no more than \<open>n\<close> attempts are counted before the count starts over, and with
  \<open>autoReconnect: false\<close> no retry is ever scheduled.
\<close>

theorem attempts_are_bounded:
  assumes "sane c" and "\<forall>(v, ev) \<in> set evs. gentle c v" and "s = sv_run evs sv_init"
  shows "(case cs_max_attempts c of Limit n \<Rightarrow> int (bo_attempt (sv_backoff s)) \<le> n | Unlimited \<Rightarrow> True) \<and>
    (if cs_auto_reconnect c then True else sv_timers s = [])"
proof -
  have ok: "sv_ok c s" using sv_run_ok [OF assms(1,2) sv_init_ok [OF assms(1)]] assms(3) by simp
  then have "count_fits (cs_max_attempts c) Stopped (bo_attempt (sv_backoff s))" by (simp add: sv_ok_def attempts_count)
  moreover have "cs_auto_reconnect c \<or> sv_timers s = []"
    using ok by (auto simp: sv_ok_def base_ok_def attempts_ok_def)
  ultimately show ?thesis by (cases "cs_max_attempts c") auto
qed

definition example_no_retry :: connection_settings where
  "example_no_retry = default_connection\<lparr>cs_max_attempts := Limit 1, cs_auto_reconnect := False\<rparr>"

definition example_no_retry_run :: "(sv_env \<times> sv_event) list" where
  "example_no_retry_run = map (Pair (example_view\<lparr>ve_settings := example_no_retry\<rparr>))
     [Start False, Ports_Answered 1 (Listed (Some 7) None), Open_Settled 1 Opened, Read_Settled 1 Read_Done]"

lemma attempts_are_bounded_witness:
  "sv_state (sv_run example_no_retry_run sv_init) = Failed \<and>
   bo_attempt (sv_backoff (sv_run example_no_retry_run sv_init)) \<le> 1"
proof -
  have "\<forall>(v, ev) \<in> set example_no_retry_run. gentle example_no_retry v"
    by (auto simp: example_no_retry_run_def gentle_def example_view_def)
  moreover have "sane example_no_retry" by (simp add: sane_def example_no_retry_def)
  moreover have "sv_state (sv_run example_no_retry_run sv_init) = Failed" by code_simp
  ultimately show ?thesis using attempts_are_bounded [of example_no_retry example_no_retry_run]
    by (simp add: example_no_retry_def)
qed


definition disposing_view :: sv_env where
  "disposing_view = example_view\<lparr>ve_stops_on := [On_Error]\<rparr>"

definition disposed_on_error :: "(sv_env \<times> sv_event) list" where
  "disposed_on_error = example_opening @
     [(disposing_view, Read_Settled 1 Read_Done), (example_view, Stop_Continues), (example_view, Close_Done 0),
      (example_view, Close_Done 1), (example_view, Stop_Continues), (example_view, Stop_Continues)]"

definition reopened :: "(sv_env \<times> sv_event) list" where
  "reopened = map (Pair example_view) [Timer_Fires 0, Ports_Answered 4 (Listed (Some 7) None), Open_Settled 4 Opened]"

text \<open>
  A listener that disposes of the library while it is told of an error does not stop the
  supervisor: \<open>stop\<close> runs within \<open>#report\<close>, and the loss handler goes on as if it had not. The stopped
  supervisor schedules a retry, the stop is done, and the retry opens the port again - when the
  configuration's locks have been released and another tab may hold the port.
\<close>

theorem disposal_within_error_reopens:
  "sv_stop (sv_run disposed_on_error sv_init) = Stop_Done \<and>
   sv_state (sv_run disposed_on_error sv_init) = Reconnecting 0 \<and>
   sv_state (sv_run (disposed_on_error @ reopened) sv_init) = Open 7 \<and>
   opened_ports (sv_run (disposed_on_error @ reopened) sv_init) = [7, 7]"
  by code_simp

end
