(* ===== verification/Wire.thy ===== *)
theory Wire
  imports Configuration
begin

text \<open>
  What arrives from another context (\<open>protocol/guards.ts\<close>, \<open>protocol/version.ts\<close>): the values a
  structured clone can carry, and the guards every validator of the bus is built from.

  A clone keeps identity: two references to one object arrive as two references to one object, and a
  cycle arrives as a cycle. So an object is an address of a heap, and the heap says what is there: an
  array with its entries - and with the named properties a sender gave it, which a clone keeps -, a
  plain object, a \<open>Uint8Array\<close>, an \<open>ArrayBuffer\<close>, or any other object. An \<open>Uint8Array\<close> says whether it
  spans exactly its own, unshared buffer. \<open>WFunction\<close> stands for a function or a symbol, which no clone
  carries and the code checks for all the same. Property names are strings of code units, like every string.
\<close>

section \<open>Values\<close>

datatype wire =
    WUndefined
  | WNull
  | WBool bool
  | WNumber js_number
  | WString js_string
  | WBigInt int
  | WFunction
  | WRef nat

type_synonym wire_props = "(js_string \<times> wire) list"

datatype wire_node =
    WArray "wire list" wire_props
  | WRecord wire_props
  | WView bool bytes
  | WBuffer bytes
  | WExotic wire_props

type_synonym wire_heap = "nat \<Rightarrow> wire_node"

text \<open>The own enumerable properties of an object that are not entries of an array; the bytes of a view
  are such properties, under their indices.\<close>

fun named_props :: "wire_node \<Rightarrow> wire_props" where
  "named_props (WArray vs ps) = ps"
| "named_props (WRecord ps) = ps"
| "named_props (WView own bs) = map (\<lambda>i. (js (nat_digits i), WNumber (Finite (of_nat (unat (bs ! i)))))) [0..<length bs]"
| "named_props (WBuffer bs) = []"
| "named_props (WExotic ps) = ps"

definition prop_at :: "wire_props \<Rightarrow> js_string \<Rightarrow> wire" where
  "prop_at ps k = (case map_of ps k of Some v \<Rightarrow> v | None \<Rightarrow> WUndefined)"

text \<open>Reading a property by a name that is no array index.\<close>

fun read_prop :: "wire_heap \<Rightarrow> wire \<Rightarrow> string \<Rightarrow> wire" where
  "read_prop h (WRef a) k = prop_at (named_props (h a)) (js k)"
| "read_prop h _ k = WUndefined"

section \<open>Guards\<close>

fun is_array_node :: "wire_node \<Rightarrow> bool" where
  "is_array_node (WArray vs ps) = True"
| "is_array_node _ = False"

fun is_record :: "wire_heap \<Rightarrow> wire \<Rightarrow> bool" where
  "is_record h (WRef a) = (\<not> is_array_node (h a))"
| "is_record h _ = False"

fun is_object :: "wire \<Rightarrow> bool" where
  "is_object (WRef a) = True"
| "is_object _ = False"

fun array_entries :: "wire_heap \<Rightarrow> wire \<Rightarrow> wire list option" where
  "array_entries h (WRef a) = (case h a of WArray vs ps \<Rightarrow> Some vs | _ \<Rightarrow> None)"
| "array_entries h _ = None"

fun is_non_empty_string :: "wire \<Rightarrow> bool" where
  "is_non_empty_string (WString s) = (s \<noteq> [])"
| "is_non_empty_string _ = False"

fun is_finite_number :: "wire \<Rightarrow> bool" where
  "is_finite_number (WNumber n) = is_finite n"
| "is_finite_number _ = False"

fun is_tab_limit :: "wire \<Rightarrow> bool" where
  "is_tab_limit (WNumber n) = (n = Pos_Infinity \<or> is_integer n \<and> int_value n \<ge> 1)"
| "is_tab_limit _ = False"

fun is_usb_id :: "wire \<Rightarrow> bool" where
  "is_usb_id (WNumber n) = (is_integer n \<and> int_value n \<ge> 0 \<and> int_value n \<le> 0xffff)"
| "is_usb_id _ = False"

fun is_status :: "wire \<Rightarrow> bool" where
  "is_status (WString s) = (s \<in> set (map (js \<circ> status_name) all_statuses))"
| "is_status _ = False"

definition protocol_version :: int where
  "protocol_version = 1"

fun is_protocol_version :: "wire \<Rightarrow> bool" where
  "is_protocol_version (WNumber n) = (is_integer n \<and> int_value n \<ge> 1 \<and> int_value n \<le> 2 ^ 53 - 1)"
| "is_protocol_version _ = False"

text \<open>The number a guard has found to be there.\<close>

fun number_at :: "wire \<Rightarrow> js_number" where
  "number_at (WNumber n) = n"
| "number_at _ = NaN"

fun string_at :: "wire \<Rightarrow> js_string" where
  "string_at (WString s) = s"
| "string_at _ = []"

lemma is_record_iff: "is_record h v \<longleftrightarrow> (\<exists>a. v = WRef a \<and> \<not> is_array_node (h a))"
  by (cases v) auto

lemma non_empty_iff: "is_non_empty_string v \<longleftrightarrow> (\<exists>s. v = WString s \<and> s \<noteq> [])"
  by (cases v) auto

lemma finite_iff: "is_finite_number v \<longleftrightarrow> (\<exists>q. v = WNumber (Finite q))"
  by (cases v rule: is_finite_number.cases; cases "number_at v") auto

lemma tab_limit_iff: "is_tab_limit v \<longleftrightarrow> v = WNumber Pos_Infinity \<or> (\<exists>i \<ge> 1. v = WNumber (Finite (of_int i)))"
proof (cases v)
  case (WNumber n)
  then show ?thesis by (cases n) (auto simp: is_integer_iff)
qed auto

end
