(* ===== verification/Structure_Budget.thy ===== *)
theory Structure_Budget
  imports Wire "HOL-Library.Multiset"
begin

text \<open>
  How much the bus may make a context hold (\<open>protocol/limits.ts\<close>): the limits, and the walk that holds a
  nested structure to its budget of values and characters before anyone keeps it.

  The reference is the tree a structure unfolds to, defined without the walk's own functions:
  \<open>unfolds whole h v t\<close> says that the value \<open>v\<close>, read in the heap \<open>h\<close>, is the finite tree \<open>t\<close> of plain
  objects, arrays and scalar values, whose inner nodes carry their addresses. With \<open>whole\<close> the tree holds
  everything a clone of the value carries, the named properties of its arrays included; without it
  those are left out. The walk is the iterative one of the code, with its stack and the set of objects
  it has seen.
\<close>

section \<open>The limits\<close>

definition max_identifier_length :: nat where "max_identifier_length = 256"
definition max_payload_bytes :: nat where "max_payload_bytes = 16 * 1024 * 1024"
definition max_text_length :: nat where "max_text_length = 2 * max_payload_bytes"
definition max_hello_configurations :: nat where "max_hello_configurations = 1024"
definition max_error_values :: nat where "max_error_values = 256"
definition max_error_characters :: nat where "max_error_characters = 64 * 1024"
definition max_report_values :: nat where "max_report_values = 64 * max_hello_configurations"
definition max_report_characters :: nat where "max_report_characters = 1024 * 1024"
definition max_log_record_values :: nat where "max_log_record_values = 32"
definition max_log_record_characters :: nat where "max_log_record_characters = 4 * 1024"

record structure_budget =
  sb_values :: nat
  sb_characters :: nat

datatype excess = Excess_Values | Excess_Characters

section \<open>The walk\<close>

text \<open>\<open>isTreeNode\<close>, \<open>widthOf\<close> and \<open>pushChildren\<close>; the properties of a plain object are counted no
  further than one beyond the limit.\<close>

fun is_tree_node :: "wire_node \<Rightarrow> bool" where
  "is_tree_node (WArray vs ps) = True"
| "is_tree_node (WRecord ps) = True"
| "is_tree_node _ = False"

fun width_of :: "wire_node \<Rightarrow> nat \<Rightarrow> nat" where
  "width_of (WArray vs ps) limit = length vs"
| "width_of n limit = (let keys = length (named_props n) in if keys > limit then Suc limit else keys)"

fun children_of :: "wire_node \<Rightarrow> wire list" where
  "children_of (WArray vs ps) = vs"
| "children_of n = map snd (named_props n)"

text \<open>\<open>measureStructure\<close>. The top of the stack comes first, so what is pushed last is popped first.\<close>

function walk :: "wire_heap \<Rightarrow> structure_budget \<Rightarrow> nat \<Rightarrow> nat \<Rightarrow> nat list \<Rightarrow> wire list \<Rightarrow> excess option \<times> nat" where
  "walk h b values characters seen [] = (None, characters)"
| "walk h b values characters seen (v # pending) =
     (let values = Suc values in
      if values > sb_values b \<or> v = WFunction then (Some Excess_Values, characters)
      else case v of
        WString s \<Rightarrow>
          (let characters = characters + length s in
           if characters > sb_characters b then (Some Excess_Characters, characters)
           else walk h b values characters seen pending)
      | WRef a \<Rightarrow>
          if a \<in> set seen \<or> \<not> is_tree_node (h a) then (Some Excess_Values, characters)
          else if values + length pending + width_of (h a) (sb_values b) > sb_values b
          then (Some Excess_Values, characters)
          else walk h b values characters (a # seen) (rev (children_of (h a)) @ pending)
      | _ \<Rightarrow> walk h b values characters seen pending)"
  by pat_completeness auto

termination
  by (relation "measure (\<lambda>(h, b, values, characters, seen, pending). Suc (sb_values b) - values)") auto

definition measure_structure :: "wire_heap \<Rightarrow> wire \<Rightarrow> structure_budget \<Rightarrow> excess option \<times> nat" where
  "measure_structure h v b = walk h b 0 0 [] [v]"

definition exceeds_structure_budget :: "wire_heap \<Rightarrow> wire \<Rightarrow> structure_budget \<Rightarrow> excess option" where
  "exceeds_structure_budget h v b = fst (measure_structure h v b)"

definition structure_characters :: "wire_heap \<Rightarrow> wire \<Rightarrow> structure_budget \<Rightarrow> nat" where
  "structure_characters h v b =
     (case measure_structure h v b of (None, n) \<Rightarrow> n | (Some e, n) \<Rightarrow> sb_characters b)"

section \<open>The reference: the tree a structure unfolds to\<close>

datatype wire_tree = Leaf wire | Node nat "wire_tree list"

fun is_scalar :: "wire \<Rightarrow> bool" where
  "is_scalar (WRef a) = False"
| "is_scalar WFunction = False"
| "is_scalar _ = True"

inductive unfolds :: "bool \<Rightarrow> wire_heap \<Rightarrow> wire \<Rightarrow> wire_tree \<Rightarrow> bool" for whole h where
  scalar: "is_scalar v \<Longrightarrow> unfolds whole h v (Leaf v)"
| object: "h a = WRecord ps \<Longrightarrow> list_all2 (unfolds whole h) (map snd ps) ts \<Longrightarrow> unfolds whole h (WRef a) (Node a ts)"
| array: "h a = WArray vs ps \<Longrightarrow> list_all2 (unfolds whole h) vs ts \<Longrightarrow>
    list_all2 (unfolds whole h) (if whole then map snd ps else []) us \<Longrightarrow> unfolds whole h (WRef a) (Node a (ts @ us))"

text \<open>No array carries named properties, as none does that the library sends.\<close>

definition arrays_bare :: "wire_heap \<Rightarrow> bool" where
  "arrays_bare h \<longleftrightarrow> (\<forall>a vs ps. h a = WArray vs ps \<longrightarrow> ps = [])"

fun tree_values :: "wire_tree \<Rightarrow> nat" where
  "tree_values (Leaf v) = 1"
| "tree_values (Node a ts) = Suc (sum_list (map tree_values ts))"

fun tree_characters :: "wire_tree \<Rightarrow> nat" where
  "tree_characters (Leaf v) = length (string_at v)"
| "tree_characters (Node a ts) = sum_list (map tree_characters ts)"

fun tree_refs :: "wire_tree \<Rightarrow> nat list" where
  "tree_refs (Leaf v) = []"
| "tree_refs (Node a ts) = a # concat (map tree_refs ts)"

inductive_simps unfolds_function: "unfolds whole h WFunction t"

inductive_simps unfolds_ref: "unfolds whole h (WRef a) t"

text \<open>What the walk lists of a node is what the tree without the arrays' named properties has there.\<close>

lemma unfolds_children:
  "unfolds False h (WRef a) t \<longleftrightarrow>
     is_tree_node (h a) \<and> (\<exists>ks. t = Node a ks \<and> list_all2 (unfolds False h) (children_of (h a)) ks)"
  by (cases "h a") (auto simp: unfolds_ref)

lemma unfolds_bare:
  assumes "arrays_bare h"
  shows "unfolds True h v t \<longleftrightarrow> unfolds False h v t"
proof
  have bare: "ps = []" if "h a = WArray vs ps" for a vs ps using assms that by (simp add: arrays_bare_def)
  show "unfolds False h v t" if "unfolds True h v t"
    using that
  proof (induction rule: unfolds.induct)
    case (array a vs ps ts us)
    have "list_all2 (unfolds False h) vs ts" using array.IH(1) by (rule list_all2_mono) simp
    then show ?case using array bare [OF array.hyps(1)] by (auto intro!: unfolds.array [of h a vs "[]" False ts "[]", simplified])
  next
    case (object a ps ts)
    have "list_all2 (unfolds False h) (map snd ps) ts" using object.IH by (rule list_all2_mono) simp
    then show ?case using object.hyps(1) by (rule unfolds.object [rotated])
  qed (rule unfolds.scalar)
  show "unfolds True h v t" if "unfolds False h v t"
    using that
  proof (induction rule: unfolds.induct)
    case (array a vs ps ts us)
    have "list_all2 (unfolds True h) vs ts" using array.IH(1) by (rule list_all2_mono) simp
    then show ?case using array bare [OF array.hyps(1)] by (auto intro!: unfolds.array [of h a vs "[]" True ts "[]", simplified])
  next
    case (object a ps ts)
    have "list_all2 (unfolds True h) (map snd ps) ts" using object.IH by (rule list_all2_mono) simp
    then show ?case using object.hyps(1) by (rule unfolds.object [rotated])
  qed (rule unfolds.scalar)
qed

section \<open>The walk is exact\<close>

lemma tree_values_pos: "1 \<le> tree_values t"
  by (cases t) simp_all

lemma forest_values: "length ts \<le> sum_list (map tree_values ts)"
proof (induction ts)
  case (Cons t ts)
  then show ?case using tree_values_pos [of t] by simp
qed simp

lemma width_decides: "x + width_of n L > L \<longleftrightarrow> x + length (children_of n) > L"
  by (cases n) (auto simp: Let_def)

text \<open>What is still to be walked is a forest that fits into what is left of the budget, and \<open>n\<close>
  characters are counted at its end.\<close>

definition fits :: "wire_heap \<Rightarrow> structure_budget \<Rightarrow> nat \<Rightarrow> nat \<Rightarrow> nat list \<Rightarrow> wire list \<Rightarrow> nat \<Rightarrow> bool" where
  "fits h b values characters seen pending n \<longleftrightarrow> (\<exists>ts. list_all2 (unfolds False h) pending ts \<and>
     distinct (concat (map tree_refs ts)) \<and> set (concat (map tree_refs ts)) \<inter> set seen = {} \<and>
     values + sum_list (map tree_values ts) \<le> sb_values b \<and>
     n = characters + sum_list (map tree_characters ts) \<and> n \<le> sb_characters b)"

lemma fits_values: "fits h b vs cs seen pending n \<Longrightarrow> vs + length pending \<le> sb_values b"
proof -
  assume "fits h b vs cs seen pending n"
  then obtain ts where "list_all2 (unfolds False h) pending ts" "vs + sum_list (map tree_values ts) \<le> sb_values b"
    by (auto simp: fits_def)
  then show ?thesis using forest_values [of ts] list_all2_lengthD [of "unfolds False h" pending ts] by linarith
qed

lemma fits_scalar:
  assumes "is_scalar v"
  shows "fits h b vs cs seen (v # pending) n \<longleftrightarrow>
    fits h b (Suc vs) (cs + length (string_at v)) seen pending n"
proof -
  have "unfolds False h v t \<longleftrightarrow> t = Leaf v" for t
    using assms by (auto intro: unfolds.scalar elim: unfolds.cases)
  then have u: "list_all2 (unfolds False h) (v # pending) us \<longleftrightarrow> (\<exists>ts. us = Leaf v # ts \<and> list_all2 (unfolds False h) pending ts)" for us
    by (auto simp: list_all2_Cons1)
  show ?thesis
  proof
    assume "fits h b vs cs seen (v # pending) n"
    then show "fits h b (Suc vs) (cs + length (string_at v)) seen pending n"
      unfolding fits_def u by (auto simp: algebra_simps)
  next
    assume "fits h b (Suc vs) (cs + length (string_at v)) seen pending n"
    then obtain ts where "list_all2 (unfolds False h) pending ts" "distinct (concat (map tree_refs ts))"
      "set (concat (map tree_refs ts)) \<inter> set seen = {}" "Suc vs + sum_list (map tree_values ts) \<le> sb_values b"
      "n = cs + length (string_at v) + sum_list (map tree_characters ts)" "n \<le> sb_characters b"
      unfolding fits_def by blast
    then show "fits h b vs cs seen (v # pending) n"
      unfolding fits_def u by (intro exI [of _ "Leaf v # ts"]) simp
  qed
qed

lemma refs_rearranged:
  "mset (concat (map tree_refs (rev ks @ ts))) = mset (concat (map tree_refs ks) @ concat (map tree_refs ts))"
  by (induction ks) simp_all

lemma fits_node:
  assumes "is_tree_node (h a)"
  shows "fits h b vs cs seen (WRef a # pending) n \<longleftrightarrow>
    a \<notin> set seen \<and> fits h b (Suc vs) cs (a # seen) (rev (children_of (h a)) @ pending) n"
    (is "?lhs \<longleftrightarrow> ?rhs")
proof -
  have u: "unfolds False h (WRef a) t \<longleftrightarrow> (\<exists>ks. t = Node a ks \<and> list_all2 (unfolds False h) (children_of (h a)) ks)" for t
    using assms by (simp add: unfolds_children)
  have d: "distinct (concat (map tree_refs (rev ks @ ts))) \<longleftrightarrow> distinct (concat (map tree_refs ks) @ concat (map tree_refs ts))"
    for ks ts by (rule mset_eq_imp_distinct_iff [OF refs_rearranged])
  have s: "set (concat (map tree_refs (rev ks @ ts))) = set (concat (map tree_refs ks)) \<union> set (concat (map tree_refs ts))"
    for ks ts by auto
  have v: "sum_list (map tree_values (rev ks @ ts)) = sum_list (map tree_values ks) + sum_list (map tree_values ts)"
    "sum_list (map tree_characters (rev ks @ ts)) = sum_list (map tree_characters ks) + sum_list (map tree_characters ts)"
    for ks ts by (simp_all add: rev_map [symmetric] sum_list_rev)
  have one: "distinct (concat (map tree_refs (Node a ks # ts))) \<and> set (concat (map tree_refs (Node a ks # ts))) \<inter> set seen = {} \<and>
      vs + sum_list (map tree_values (Node a ks # ts)) \<le> sb_values b \<and>
      n = cs + sum_list (map tree_characters (Node a ks # ts)) \<and> n \<le> sb_characters b \<longleftrightarrow>
    a \<notin> set seen \<and> distinct (concat (map tree_refs (rev ks @ ts))) \<and>
      set (concat (map tree_refs (rev ks @ ts))) \<inter> set (a # seen) = {} \<and>
      Suc vs + sum_list (map tree_values (rev ks @ ts)) \<le> sb_values b \<and>
      n = cs + sum_list (map tree_characters (rev ks @ ts)) \<and> n \<le> sb_characters b" for ks ts
    unfolding d s v by (auto simp: algebra_simps)
  show ?thesis
  proof
    assume ?lhs
    then obtain ks ts where f: "list_all2 (unfolds False h) (children_of (h a)) ks" "list_all2 (unfolds False h) pending ts"
      and r: "a \<notin> set seen \<and> distinct (concat (map tree_refs (rev ks @ ts))) \<and>
      set (concat (map tree_refs (rev ks @ ts))) \<inter> set (a # seen) = {} \<and>
      Suc vs + sum_list (map tree_values (rev ks @ ts)) \<le> sb_values b \<and>
      n = cs + sum_list (map tree_characters (rev ks @ ts)) \<and> n \<le> sb_characters b"
      unfolding fits_def using one by (auto simp only: list_all2_Cons1 u) blast
    have "list_all2 (unfolds False h) (rev (children_of (h a)) @ pending) (rev ks @ ts)"
      using f by (simp add: list_all2_appendI)
    then show ?rhs using r unfolding fits_def by blast
  next
    assume ?rhs
    then obtain us where us: "list_all2 (unfolds False h) (rev (children_of (h a)) @ pending) us"
      and r: "a \<notin> set seen \<and> distinct (concat (map tree_refs us)) \<and>
      set (concat (map tree_refs us)) \<inter> set (a # seen) = {} \<and>
      Suc vs + sum_list (map tree_values us) \<le> sb_values b \<and>
      n = cs + sum_list (map tree_characters us) \<and> n \<le> sb_characters b"
      unfolding fits_def by blast
    from us obtain ks' ts where "us = ks' @ ts" "list_all2 (unfolds False h) (rev (children_of (h a))) ks'" and ts: "list_all2 (unfolds False h) pending ts"
      by (auto simp: list_all2_append1)
    then have ks: "us = rev (rev ks') @ ts" "list_all2 (unfolds False h) (children_of (h a)) (rev ks')" "list_all2 (unfolds False h) pending ts"
      by (simp_all add: list_all2_rev1)
    have "list_all2 (unfolds False h) (WRef a # pending) (Node a (rev ks') # ts)"
      using ks by (simp only: list_all2_Cons u) blast
    moreover have "distinct (concat (map tree_refs (Node a (rev ks') # ts))) \<and> set (concat (map tree_refs (Node a (rev ks') # ts))) \<inter> set seen = {} \<and>
      vs + sum_list (map tree_values (Node a (rev ks') # ts)) \<le> sb_values b \<and>
      n = cs + sum_list (map tree_characters (Node a (rev ks') # ts)) \<and> n \<le> sb_characters b"
      unfolding one using r ks(1) by blast
    ultimately show ?lhs unfolding fits_def by blast
  qed
qed

lemma walk_exact:
  "vs \<le> sb_values b \<Longrightarrow> cs \<le> sb_characters b \<Longrightarrow>
   walk h b vs cs seen pending = (None, n) \<longleftrightarrow> fits h b vs cs seen pending n"
proof (induction h b vs cs seen pending rule: walk.induct)
  case (1 h b vs cs seen)
  then show ?case by (auto simp: fits_def)
next
  case (2 h b vs cs seen v pending)
  show ?case
  proof (cases "Suc vs > sb_values b \<or> v = WFunction")
    case True
    have "\<not> fits h b vs cs seen (v # pending) n"
    proof (cases "v = WFunction")
      case True
      then show ?thesis by (auto simp: fits_def list_all2_Cons1 unfolds_function)
    next
      case False
      then show ?thesis using True fits_values [of h b vs cs seen "v # pending" n] by auto
    qed
    then show ?thesis using True by simp
  next
    case room: False
    show ?thesis
    proof (cases v)
      case (WRef a)
      show ?thesis
      proof (cases "is_tree_node (h a)")
        case False
        then have "\<not> fits h b vs cs seen (v # pending) n" using WRef
          by (auto simp: fits_def list_all2_Cons1 unfolds_children)
        then show ?thesis using False WRef room by simp
      next
        case True
        show ?thesis
        proof (cases "Suc vs + length pending + width_of (h a) (sb_values b) > sb_values b")
          case wide: True
          then have "Suc vs + length pending + length (children_of (h a)) > sb_values b" using width_decides by blast
          then have "\<not> fits h b (Suc vs) cs (a # seen) (rev (children_of (h a)) @ pending) n"
            using fits_values [of h b "Suc vs" cs "a # seen" "rev (children_of (h a)) @ pending" n] by auto
          then show ?thesis using wide WRef room True by (simp add: fits_node)
        next
          case False
          then show ?thesis using 2 WRef room True by (simp add: fits_node)
        qed
      qed
    next
      case (WString str)
      have "\<not> fits h b (Suc vs) (cs + length str) seen pending n" if "cs + length str > sb_characters b"
        using that by (auto simp: fits_def)
      then show ?thesis using 2 WString room by (auto simp: fits_scalar Let_def)
    qed (use 2 room in \<open>simp_all add: fits_scalar\<close>)
  qed
qed

text \<open>A value is within a budget if it is such a tree of at most so many values and characters.\<close>

definition within_budget :: "bool \<Rightarrow> wire_heap \<Rightarrow> wire \<Rightarrow> structure_budget \<Rightarrow> bool" where
  "within_budget whole h v b \<longleftrightarrow> (\<exists>t. unfolds whole h v t \<and> distinct (tree_refs t) \<and>
     tree_values t \<le> sb_values b \<and> tree_characters t \<le> sb_characters b)"

lemma measure_counted:
  "measure_structure h v b = (None, n) \<longleftrightarrow>
     (\<exists>t. unfolds False h v t \<and> distinct (tree_refs t) \<and> tree_values t \<le> sb_values b \<and>
          n = tree_characters t \<and> n \<le> sb_characters b)"
proof -
  have "measure_structure h v b = (None, n) \<longleftrightarrow> fits h b 0 0 [] [v] n"
    unfolding measure_structure_def by (rule walk_exact) simp_all
  moreover have "list_all2 (unfolds False h) [v] ts \<longleftrightarrow> (\<exists>t. ts = [t] \<and> unfolds False h v t)" for ts
    by (auto simp: list_all2_Cons1)
  ultimately show ?thesis unfolding fits_def by auto
qed

lemma no_excess: "exceeds_structure_budget h v b = None \<longleftrightarrow> within_budget False h v b"
proof -
  have "exceeds_structure_budget h v b = None \<longleftrightarrow> (\<exists>n. measure_structure h v b = (None, n))"
    by (cases "measure_structure h v b") (simp add: exceeds_structure_budget_def)
  then show ?thesis by (auto simp: measure_counted within_budget_def)
qed

lemma within_bare: "arrays_bare h \<Longrightarrow> within_budget True h v b = within_budget False h v b"
  by (simp add: within_budget_def unfolds_bare)


text \<open>A \<open>bigint\<close>, which the comment on the plain values does not list, is within any budget of one value.\<close>

lemma big_int_is_free: "measure_structure h (WBigInt i) \<lparr>sb_values = 1, sb_characters = 0\<rparr> = (None, 0)"
  by (simp add: measure_structure_def)

end
