(* ===== verification/Decode.thy ===== *)
theory Decode
  imports Structure_Budget
begin

text \<open>
  The boundary of the bus (\<open>protocol/decode.ts\<close>, \<open>protocol/messages.ts\<close>, \<open>protocol/decode-diagnostics.ts\<close>,
  \<open>protocol/handshake.ts\<close>, \<open>protocol/announcement.ts\<close>): a value that arrived from another context is
  either rebuilt as a message from its declared fields, each checked as it is read, or rejected with a
  reason. An exception of the decoder is the left value of a sum, and the sequence of two readers is
  \<open>check\<close>. What a serialised error or a report is stays the value that arrived: the code hands it on as
  it is.
\<close>

section \<open>The vocabulary\<close>

datatype status_device = Device_Usb int int | Device_Non_Usb | Device_Any | Device_Auto

datatype log_level = Level_Warn | Level_Error

datatype message_body =
    M_Hello "js_string list"
  | M_Welcome js_string
  | M_Worker_Log log_level js_string wire_props
  | M_Status_Request js_string bool "status_device option"
  | M_Owner_Claimed js_string js_string limit
  | M_Owner_Released js_string js_string
  | M_Write_Request js_string js_string bytes js_string
  | M_Write_Ready js_string js_string js_string
  | M_Write_Approval js_string js_string js_string bool
  | M_Write_Result js_string js_string bool "wire option" "js_string option"
  | M_Data_Received js_string bytes rat "js_string option"
  | M_Data_Sent js_string bytes js_string rat
  | M_Status js_string js_string limit status_device js_string rat
  | M_Diagnostics_Request js_string
  | M_Diagnostics_Report js_string wire
  | M_Error js_string wire rat

record message =
  msg_from :: js_string
  msg_to :: js_string
  msg_body :: message_body

datatype message_type =
    T_Hello | T_Welcome | T_Worker_Log | T_Status_Request | T_Owner_Claimed | T_Owner_Released
  | T_Write_Request | T_Write_Ready | T_Write_Approval | T_Write_Result | T_Data_Received | T_Data_Sent
  | T_Status | T_Diagnostics_Request | T_Diagnostics_Report | T_Error

fun message_type_name :: "message_type \<Rightarrow> string" where
  "message_type_name T_Hello = ''hello''"
| "message_type_name T_Welcome = ''welcome''"
| "message_type_name T_Worker_Log = ''worker-log''"
| "message_type_name T_Status_Request = ''status-request''"
| "message_type_name T_Owner_Claimed = ''owner-claimed''"
| "message_type_name T_Owner_Released = ''owner-released''"
| "message_type_name T_Write_Request = ''write-request''"
| "message_type_name T_Write_Ready = ''write-ready''"
| "message_type_name T_Write_Approval = ''write-approval''"
| "message_type_name T_Write_Result = ''write-result''"
| "message_type_name T_Data_Received = ''data-received''"
| "message_type_name T_Data_Sent = ''data-sent''"
| "message_type_name T_Status = ''status''"
| "message_type_name T_Diagnostics_Request = ''diagnostics-request''"
| "message_type_name T_Diagnostics_Report = ''diagnostics-report''"
| "message_type_name T_Error = ''error''"

definition message_types :: "message_type list" where
  "message_types = [T_Hello, T_Welcome, T_Worker_Log, T_Status_Request, T_Owner_Claimed, T_Owner_Released,
     T_Write_Request, T_Write_Ready, T_Write_Approval, T_Write_Result, T_Data_Received, T_Data_Sent,
     T_Status, T_Diagnostics_Request, T_Diagnostics_Report, T_Error]"

text \<open>The \<open>switch\<close> over the type: the case a type names, if any.\<close>

definition message_type_of :: "js_string \<Rightarrow> message_type option" where
  "message_type_of s = map_of (map (\<lambda>t. (js (message_type_name t), t)) message_types) s"

text \<open>\<open>configNameOf\<close>.\<close>

fun config_name_of :: "message_body \<Rightarrow> js_string option" where
  "config_name_of (M_Hello ns) = None"
| "config_name_of (M_Welcome w) = None"
| "config_name_of (M_Worker_Log l m fs) = None"
| "config_name_of (M_Status_Request c r d) = Some c"
| "config_name_of (M_Owner_Claimed c t m) = Some c"
| "config_name_of (M_Owner_Released c t) = Some c"
| "config_name_of (M_Write_Request c r p t) = Some c"
| "config_name_of (M_Write_Ready c r t) = Some c"
| "config_name_of (M_Write_Approval c r t a) = Some c"
| "config_name_of (M_Write_Result c r ok e t) = Some c"
| "config_name_of (M_Data_Received c p ts tx) = Some c"
| "config_name_of (M_Data_Sent c p cl ts) = Some c"
| "config_name_of (M_Status c s m d t ts) = Some c"
| "config_name_of (M_Diagnostics_Request r) = None"
| "config_name_of (M_Diagnostics_Report r w) = None"
| "config_name_of (M_Error c e ts) = Some c"

section \<open>Failures\<close>

datatype decode_failure =
    Not_An_Object
  | Version_Mismatch "int option"
  | Unknown_Type js_string
  | Malformed js_string string
  | Limit_Exceeded js_string string string

type_synonym 'a reading = "decode_failure + 'a"

definition max_quoted_type_length :: nat where "max_quoted_type_length = 64"

fun wire_type_name :: "wire \<Rightarrow> string" where
  "wire_type_name WUndefined = ''undefined''"
| "wire_type_name WNull = ''null''"
| "wire_type_name (WBool b) = ''boolean''"
| "wire_type_name (WNumber n) = ''number''"
| "wire_type_name (WString s) = ''string''"
| "wire_type_name WFunction = ''function''"
| "wire_type_name (WRef a) = ''object''"

fun quote_type :: "wire \<Rightarrow> js_string" where
  "quote_type (WString s) =
     (if length s > max_quoted_type_length then take max_quoted_type_length s @ js ''...'' else s)"
| "quote_type v = js (''('' @ wire_type_name v @ '')'')"

text \<open>\<open>describeDecodeFailure\<close>.\<close>

fun describe_decode_failure :: "decode_failure \<Rightarrow> js_string" where
  "describe_decode_failure Not_An_Object = js ''message was not an object''"
| "describe_decode_failure (Version_Mismatch None) =
     js (''message carries no protocol version, where '' @ nat_digits (nat protocol_version) @ '' was expected'')"
| "describe_decode_failure (Version_Mismatch (Some v)) =
     js (''protocol version '' @ nat_digits (nat v) @ '' does not match '' @ nat_digits (nat protocol_version))"
| "describe_decode_failure (Unknown_Type t) = js ''unknown message type '' @ t"
| "describe_decode_failure (Malformed t f) =
     js ''message \"'' @ t @ js (''\" has an invalid \"'' @ f @ ''\" field'')"
| "describe_decode_failure (Limit_Exceeded t f l) =
     js ''message \"'' @ t @ js (''\" exceeds '' @ l @ '' in its \"'' @ f @ ''\" field'')"

section \<open>Readers of fields\<close>

definition bounded_string ::
  "wire_heap \<Rightarrow> wire \<Rightarrow> js_string \<Rightarrow> string \<Rightarrow> nat \<Rightarrow> string \<Rightarrow> js_string reading" where
  "bounded_string h raw ty field max_length limit_name =
     (let v = read_prop h raw field in
      if \<not> is_non_empty_string v then Inl (Malformed ty field)
      else if length (string_at v) > max_length then Inl (Limit_Exceeded ty field limit_name)
      else Inr (string_at v))"

definition read_identifier :: "wire_heap \<Rightarrow> wire \<Rightarrow> js_string \<Rightarrow> string \<Rightarrow> js_string reading" where
  "read_identifier h raw ty field = bounded_string h raw ty field max_identifier_length ''MAX_IDENTIFIER_LENGTH''"

definition optional_identifier :: "wire_heap \<Rightarrow> wire \<Rightarrow> js_string \<Rightarrow> string \<Rightarrow> js_string option reading" where
  "optional_identifier h raw ty field =
     (if read_prop h raw field = WUndefined then Inr None else map_sum id Some (read_identifier h raw ty field))"

definition read_config_name :: "wire_heap \<Rightarrow> wire \<Rightarrow> js_string \<Rightarrow> js_string reading" where
  "read_config_name h raw ty = bounded_string h raw ty ''configName'' max_config_name_length ''MAX_CONFIG_NAME_LENGTH''"

fun read_names :: "js_string \<Rightarrow> string \<Rightarrow> wire list \<Rightarrow> js_string list reading" where
  "read_names ty field [] = Inr []"
| "read_names ty field (v # vs) =
     (if \<not> is_non_empty_string v then Inl (Malformed ty field)
      else if length (string_at v) > max_config_name_length then Inl (Limit_Exceeded ty field ''MAX_CONFIG_NAME_LENGTH'')
      else map_sum id (Cons (string_at v)) (read_names ty field vs))"

definition name_list :: "wire_heap \<Rightarrow> wire \<Rightarrow> js_string \<Rightarrow> string \<Rightarrow> js_string list reading" where
  "name_list h raw ty field =
     (case array_entries h (read_prop h raw field) of
        None \<Rightarrow> Inl (Malformed ty field)
      | Some vs \<Rightarrow>
          if length vs > max_hello_configurations then Inl (Limit_Exceeded ty field ''MAX_HELLO_CONFIGURATIONS'')
          else read_names ty field vs)"

text \<open>The bytes of a view or a buffer. Whether they are copied makes no difference to their value.\<close>

fun wire_bytes :: "wire_heap \<Rightarrow> wire \<Rightarrow> bytes option" where
  "wire_bytes h (WRef a) = (case h a of WView own bs \<Rightarrow> Some bs | WBuffer bs \<Rightarrow> Some bs | _ \<Rightarrow> None)"
| "wire_bytes h _ = None"

definition read_payload :: "wire_heap \<Rightarrow> wire \<Rightarrow> js_string \<Rightarrow> bytes reading" where
  "read_payload h raw ty =
     (case wire_bytes h (read_prop h raw ''payload'') of
        None \<Rightarrow> Inl (Malformed ty ''payload'')
      | Some bs \<Rightarrow> if length bs > max_payload_bytes then Inl (Limit_Exceeded ty ''payload'' ''MAX_PAYLOAD_BYTES'') else Inr bs)"

fun finite_value :: "wire \<Rightarrow> rat option" where
  "finite_value (WNumber (Finite q)) = Some q"
| "finite_value _ = None"

definition read_timestamp :: "wire_heap \<Rightarrow> wire \<Rightarrow> js_string \<Rightarrow> rat reading" where
  "read_timestamp h raw ty =
     (case finite_value (read_prop h raw ''timestamp'') of None \<Rightarrow> Inl (Malformed ty ''timestamp'') | Some q \<Rightarrow> Inr q)"

definition optional_text :: "wire_heap \<Rightarrow> wire \<Rightarrow> js_string \<Rightarrow> js_string option reading" where
  "optional_text h raw ty =
     (case read_prop h raw ''text'' of
        WUndefined \<Rightarrow> Inr None
      | WString s \<Rightarrow> if length s > max_text_length then Inl (Limit_Exceeded ty ''text'' ''MAX_TEXT_LENGTH'') else Inr (Some s)
      | _ \<Rightarrow> Inl (Malformed ty ''text''))"

definition read_boolean :: "wire_heap \<Rightarrow> wire \<Rightarrow> js_string \<Rightarrow> string \<Rightarrow> bool reading" where
  "read_boolean h raw ty field = (case read_prop h raw field of WBool b \<Rightarrow> Inr b | _ \<Rightarrow> Inl (Malformed ty field))"

definition read_device :: "wire_heap \<Rightarrow> wire \<Rightarrow> js_string \<Rightarrow> status_device reading" where
  "read_device h raw ty =
     (let v = read_prop h raw ''device''; kind = read_prop h v ''kind'' in
      if \<not> is_record h v then Inl (Malformed ty ''device'')
      else if kind = WString (js ''usb'') then
        (let vendor = read_prop h v ''vendorId''; product = read_prop h v ''productId'' in
         if \<not> is_usb_id vendor \<or> \<not> is_usb_id product then Inl (Malformed ty ''device'')
         else Inr (Device_Usb (int_value (number_at vendor)) (int_value (number_at product))))
      else if kind = WString (js ''non-usb'') then Inr Device_Non_Usb
      else if kind = WString (js ''any'') then Inr Device_Any
      else if kind = WString (js ''auto'') then Inr Device_Auto
      else Inl (Malformed ty ''device''))"

definition read_tab_limit :: "wire_heap \<Rightarrow> wire \<Rightarrow> js_string \<Rightarrow> limit reading" where
  "read_tab_limit h raw ty =
     (let v = read_prop h raw ''maxTabs'' in
      if \<not> is_tab_limit v then Inl (Malformed ty ''maxTabs'')
      else Inr (if v = WNumber Pos_Infinity then Unlimited else Limit (int_value (number_at v))))"

text \<open>\<open>isSerializedError\<close> and \<open>isSerializedCause\<close>.\<close>

fun is_string :: "wire \<Rightarrow> bool" where
  "is_string (WString s) = True"
| "is_string _ = False"

fun is_boolean :: "wire \<Rightarrow> bool" where
  "is_boolean (WBool b) = True"
| "is_boolean _ = False"

fun is_number :: "wire \<Rightarrow> bool" where
  "is_number (WNumber n) = True"
| "is_number _ = False"

definition is_serialized_cause :: "wire_heap \<Rightarrow> wire \<Rightarrow> bool" where
  "is_serialized_cause h v \<longleftrightarrow> is_object v \<and> is_string (read_prop h v ''name'') \<and> is_string (read_prop h v ''message'')"

definition is_serialized_error :: "wire_heap \<Rightarrow> wire \<Rightarrow> bool" where
  "is_serialized_error h v \<longleftrightarrow> is_object v \<and>
     read_prop h v ''$type'' = WString (js ''SerialBrokerError'') \<and>
     is_string (read_prop h v ''code'') \<and> is_string (read_prop h v ''message'') \<and>
     is_string (read_prop h v ''remediation'') \<and> is_boolean (read_prop h v ''isRetryable'') \<and>
     is_number (read_prop h v ''timestamp'') \<and>
     (read_prop h v ''configName'' = WUndefined \<or> is_string (read_prop h v ''configName'')) \<and>
     (read_prop h v ''context'' = WUndefined \<or> is_object (read_prop h v ''context'')) \<and>
     (read_prop h v ''cause'' = WUndefined \<or> is_serialized_cause h (read_prop h v ''cause''))"

definition error_budget :: structure_budget where
  "error_budget = \<lparr>sb_values = max_error_values, sb_characters = max_error_characters\<rparr>"

definition report_budget :: structure_budget where
  "report_budget = \<lparr>sb_values = max_report_values, sb_characters = max_report_characters\<rparr>"

definition read_error :: "wire_heap \<Rightarrow> wire \<Rightarrow> js_string \<Rightarrow> wire reading" where
  "read_error h raw ty =
     (let v = read_prop h raw ''error'';
          shape = (if is_serialized_error h v then Inr v else Inl (Malformed ty ''error''))
      in if \<not> is_object v then shape
         else case exceeds_structure_budget h v error_budget of
           Some Excess_Values \<Rightarrow> Inl (Limit_Exceeded ty ''error'' ''MAX_ERROR_VALUES'')
         | Some Excess_Characters \<Rightarrow> Inl (Limit_Exceeded ty ''error'' ''MAX_ERROR_CHARACTERS'')
         | None \<Rightarrow> shape)"

text \<open>\<open>isParticipantDiagnostics\<close>.\<close>

definition is_participant_diagnostics :: "wire_heap \<Rightarrow> wire \<Rightarrow> bool" where
  "is_participant_diagnostics h v \<longleftrightarrow> is_record h v \<and>
     is_non_empty_string (read_prop h v ''clientId'') \<and>
     (read_prop h v ''transport'' = WString (js ''sharedworker'') \<or>
      read_prop h v ''transport'' = WString (js ''broadcastchannel'')) \<and>
     is_finite_number (read_prop h v ''protocolVersion'') \<and> is_finite_number (read_prop h v ''reportedAt'') \<and>
     (case array_entries h (read_prop h v ''configurations'') of
        None \<Rightarrow> False
      | Some cs \<Rightarrow> list_all (\<lambda>c. is_record h c \<and> is_non_empty_string (read_prop h c ''name'')) cs)"

definition read_report :: "wire_heap \<Rightarrow> wire \<Rightarrow> js_string \<Rightarrow> wire reading" where
  "read_report h raw ty =
     (let v = read_prop h raw ''report'';
          shape = (if is_participant_diagnostics h v then Inr v else Inl (Malformed ty ''report''))
      in if \<not> is_object v then shape
         else case exceeds_structure_budget h v report_budget of
           Some Excess_Values \<Rightarrow> Inl (Limit_Exceeded ty ''report'' ''MAX_REPORT_VALUES'')
         | Some Excess_Characters \<Rightarrow> Inl (Limit_Exceeded ty ''report'' ''MAX_REPORT_CHARACTERS'')
         | None \<Rightarrow> shape)"

definition read_log_level :: "wire_heap \<Rightarrow> wire \<Rightarrow> js_string \<Rightarrow> log_level reading" where
  "read_log_level h raw ty =
     (let v = read_prop h raw ''level'' in
      if v = WString (js ''warn'') then Inr Level_Warn
      else if v = WString (js ''error'') then Inr Level_Error
      else Inl (Malformed ty ''level''))"

definition read_log_message :: "wire_heap \<Rightarrow> wire \<Rightarrow> js_string \<Rightarrow> js_string reading" where
  "read_log_message h raw ty =
     (let v = read_prop h raw ''message'' in
      if \<not> is_non_empty_string v then Inl (Malformed ty ''message'')
      else if length (string_at v) > max_log_record_characters
      then Inl (Limit_Exceeded ty ''message'' ''MAX_LOG_RECORD_CHARACTERS'')
      else Inr (string_at v))"

text \<open>The characters of the fields are added up one by one, from what the message has spent.\<close>

fun spend_fields :: "js_string \<Rightarrow> nat \<Rightarrow> wire_props \<Rightarrow> unit reading" where
  "spend_fields ty spent [] = Inr ()"
| "spend_fields ty spent ((k, v) # ps) =
     (if \<not> is_string v \<and> \<not> is_boolean v \<and> \<not> is_finite_number v then Inl (Malformed ty ''fields'')
      else
        (let spent = spent + length k + length (string_at v) in
         if spent > max_log_record_characters then Inl (Limit_Exceeded ty ''fields'' ''MAX_LOG_RECORD_CHARACTERS'')
         else spend_fields ty spent ps))"

definition read_log_fields :: "wire_heap \<Rightarrow> wire \<Rightarrow> js_string \<Rightarrow> nat \<Rightarrow> wire_props reading" where
  "read_log_fields h raw ty spent =
     (let v = read_prop h raw ''fields'' in
      case v of
        WRef a \<Rightarrow>
          if is_array_node (h a) then Inl (Malformed ty ''fields'')
          else (let entries = named_props (h a) in
            if length entries > max_log_record_values then Inl (Limit_Exceeded ty ''fields'' ''MAX_LOG_RECORD_VALUES'')
            else check (spend_fields ty spent entries) (\<lambda>_.
              if list_all (\<lambda>k. prop_at entries (js k) = WUndefined \<or> is_string (prop_at entries (js k)))
                   [''event'', ''clientId'', ''configName'']
              then Inr entries else Inl (Malformed ty ''fields'')))
      | _ \<Rightarrow> Inl (Malformed ty ''fields''))"

section \<open>Messages\<close>

definition decode_body :: "wire_heap \<Rightarrow> wire \<Rightarrow> js_string \<Rightarrow> message_type \<Rightarrow> message_body reading" where
  "decode_body h raw ty t =
     (let config = read_config_name h raw ty; ident = read_identifier h raw ty in
      case t of
        T_Hello \<Rightarrow> map_sum id M_Hello (name_list h raw ty ''configNames'')
      | T_Welcome \<Rightarrow> map_sum id M_Welcome (ident ''worker'')
      | T_Worker_Log \<Rightarrow>
          check (read_log_level h raw ty) (\<lambda>l. check (read_log_message h raw ty) (\<lambda>m.
          map_sum id (M_Worker_Log l m) (read_log_fields h raw ty (length m))))
      | T_Status_Request \<Rightarrow>
          check config (\<lambda>c. check (read_boolean h raw ty ''retry'') (\<lambda>r.
          if read_prop h raw ''device'' = WUndefined then Inr (M_Status_Request c r None)
          else check (read_device h raw ty) (\<lambda>d.
            if d = Device_Any \<or> d = Device_Auto then Inl (Malformed ty ''device'')
            else Inr (M_Status_Request c r (Some d)))))
      | T_Owner_Claimed \<Rightarrow>
          check config (\<lambda>c. check (ident ''term'') (\<lambda>tm.
          map_sum id (M_Owner_Claimed c tm) (read_tab_limit h raw ty)))
      | T_Owner_Released \<Rightarrow> check config (\<lambda>c. map_sum id (M_Owner_Released c) (ident ''term''))
      | T_Write_Request \<Rightarrow>
          check config (\<lambda>c. check (ident ''requestId'') (\<lambda>r. check (read_payload h raw ty) (\<lambda>p.
          map_sum id (M_Write_Request c r p) (ident ''term''))))
      | T_Write_Ready \<Rightarrow>
          check config (\<lambda>c. check (ident ''requestId'') (\<lambda>r. map_sum id (M_Write_Ready c r) (ident ''term'')))
      | T_Write_Approval \<Rightarrow>
          check config (\<lambda>c. check (ident ''requestId'') (\<lambda>r. check (ident ''term'') (\<lambda>tm.
          map_sum id (M_Write_Approval c r tm) (read_boolean h raw ty ''approved''))))
      | T_Write_Result \<Rightarrow>
          check config (\<lambda>c. check (ident ''requestId'') (\<lambda>r. check (read_boolean h raw ty ''ok'') (\<lambda>ok.
          check (if ok then Inr None else map_sum id Some (read_error h raw ty)) (\<lambda>e.
          map_sum id (M_Write_Result c r ok e) (optional_identifier h raw ty ''term'')))))
      | T_Data_Received \<Rightarrow>
          check config (\<lambda>c. check (read_payload h raw ty) (\<lambda>p. check (read_timestamp h raw ty) (\<lambda>ts.
          map_sum id (M_Data_Received c p ts) (optional_text h raw ty))))
      | T_Data_Sent \<Rightarrow>
          check config (\<lambda>c. check (read_payload h raw ty) (\<lambda>p. check (ident ''originClientId'') (\<lambda>cl.
          map_sum id (M_Data_Sent c p cl) (read_timestamp h raw ty))))
      | T_Status \<Rightarrow>
          check config (\<lambda>c.
          let st = read_prop h raw ''status'' in
          if \<not> is_status st then Inl (Malformed ty ''status'')
          else check (read_tab_limit h raw ty) (\<lambda>m. check (read_device h raw ty) (\<lambda>d.
          check (ident ''term'') (\<lambda>tm. map_sum id (M_Status c (string_at st) m d tm) (read_timestamp h raw ty)))))
      | T_Diagnostics_Request \<Rightarrow> map_sum id M_Diagnostics_Request (ident ''requestId'')
      | T_Diagnostics_Report \<Rightarrow>
          check (ident ''requestId'') (\<lambda>r. map_sum id (M_Diagnostics_Report r) (read_report h raw ty))
      | T_Error \<Rightarrow>
          check config (\<lambda>c. check (read_error h raw ty) (\<lambda>e. map_sum id (M_Error c e) (read_timestamp h raw ty))))"

definition decode_message :: "wire_heap \<Rightarrow> wire \<Rightarrow> message reading" where
  "decode_message h raw =
     (let version = read_prop h raw ''v''; type = read_prop h raw ''type''; quoted = quote_type type in
      if \<not> is_record h raw then Inl Not_An_Object
      else if version \<noteq> WNumber (Finite (of_int protocol_version))
      then Inl (Version_Mismatch (if is_protocol_version version then Some (int_value (number_at version)) else None))
      else check (read_identifier h raw quoted ''from'') (\<lambda>src. check (read_identifier h raw quoted ''to'') (\<lambda>dst.
        case type of
          WString s \<Rightarrow>
            (case message_type_of s of
               Some t \<Rightarrow> map_sum id (\<lambda>b. \<lparr>msg_from = src, msg_to = dst, msg_body = b\<rparr>) (decode_body h raw s t)
             | None \<Rightarrow> Inl (Unknown_Type quoted))
        | _ \<Rightarrow> Inl (Unknown_Type quoted))))"

text \<open>\<open>helloSenderOf\<close> and \<open>decodeAnnouncement\<close>: the two shapes frozen across protocol versions.\<close>

definition hello_sender_of :: "wire_heap \<Rightarrow> wire \<Rightarrow> js_string option" where
  "hello_sender_of h raw =
     (if \<not> is_record h raw \<or> read_prop h raw ''type'' \<noteq> WString (js ''hello'') then None
      else (let src = read_prop h raw ''from'' in
        if \<not> is_non_empty_string src \<or> length (string_at src) > max_identifier_length then None
        else Some (string_at src)))"

definition decode_announcement :: "wire_heap \<Rightarrow> wire \<Rightarrow> (int \<times> bool) option" where
  "decode_announcement h raw =
     (let version = read_prop h raw ''protocolVersion''; reply = read_prop h raw ''isReply'' in
      if \<not> is_record h raw then None
      else if read_prop h raw ''type'' \<noteq> WString (js ''serial-broker/protocol-version'') \<or>
        \<not> is_protocol_version version \<or> \<not> is_boolean reply then None
      else Some (int_value (number_at version), reply = WBool True))"

section \<open>The reference: what a message says\<close>

definition says_string :: "wire_heap \<Rightarrow> wire \<Rightarrow> string \<Rightarrow> js_string \<Rightarrow> bool" where
  "says_string h raw field s \<longleftrightarrow> read_prop h raw field = WString s"

definition says_number :: "wire_heap \<Rightarrow> wire \<Rightarrow> string \<Rightarrow> rat \<Rightarrow> bool" where
  "says_number h raw field q \<longleftrightarrow> read_prop h raw field = WNumber (Finite q)"

definition says_bool :: "wire_heap \<Rightarrow> wire \<Rightarrow> string \<Rightarrow> bool \<Rightarrow> bool" where
  "says_bool h raw field b \<longleftrightarrow> read_prop h raw field = WBool b"

definition says_bytes :: "wire_heap \<Rightarrow> wire \<Rightarrow> bytes \<Rightarrow> bool" where
  "says_bytes h raw bs \<longleftrightarrow> wire_bytes h (read_prop h raw ''payload'') = Some bs"

fun says_limit :: "wire_heap \<Rightarrow> wire \<Rightarrow> limit \<Rightarrow> bool" where
  "says_limit h raw Unlimited \<longleftrightarrow> read_prop h raw ''maxTabs'' = WNumber Pos_Infinity"
| "says_limit h raw (Limit i) \<longleftrightarrow> says_number h raw ''maxTabs'' (of_int i)"

fun says_optional :: "wire_heap \<Rightarrow> wire \<Rightarrow> string \<Rightarrow> js_string option \<Rightarrow> bool" where
  "says_optional h raw field None \<longleftrightarrow> read_prop h raw field = WUndefined"
| "says_optional h raw field (Some s) \<longleftrightarrow> says_string h raw field s"

fun describes_device :: "wire_heap \<Rightarrow> wire \<Rightarrow> status_device \<Rightarrow> bool" where
  "describes_device h v (Device_Usb a b) \<longleftrightarrow> says_string h v ''kind'' (js ''usb'') \<and>
     says_number h v ''vendorId'' (of_int a) \<and> says_number h v ''productId'' (of_int b)"
| "describes_device h v Device_Non_Usb \<longleftrightarrow> says_string h v ''kind'' (js ''non-usb'')"
| "describes_device h v Device_Any \<longleftrightarrow> says_string h v ''kind'' (js ''any'')"
| "describes_device h v Device_Auto \<longleftrightarrow> says_string h v ''kind'' (js ''auto'')"

definition says_device :: "wire_heap \<Rightarrow> wire \<Rightarrow> status_device \<Rightarrow> bool" where
  "says_device h raw d \<longleftrightarrow> is_record h (read_prop h raw ''device'') \<and> describes_device h (read_prop h raw ''device'') d"

fun type_of_body :: "message_body \<Rightarrow> message_type" where
  "type_of_body (M_Hello ns) = T_Hello"
| "type_of_body (M_Welcome w) = T_Welcome"
| "type_of_body (M_Worker_Log l m fs) = T_Worker_Log"
| "type_of_body (M_Status_Request c r d) = T_Status_Request"
| "type_of_body (M_Owner_Claimed c t m) = T_Owner_Claimed"
| "type_of_body (M_Owner_Released c t) = T_Owner_Released"
| "type_of_body (M_Write_Request c r p t) = T_Write_Request"
| "type_of_body (M_Write_Ready c r t) = T_Write_Ready"
| "type_of_body (M_Write_Approval c r t a) = T_Write_Approval"
| "type_of_body (M_Write_Result c r ok e t) = T_Write_Result"
| "type_of_body (M_Data_Received c p ts tx) = T_Data_Received"
| "type_of_body (M_Data_Sent c p cl ts) = T_Data_Sent"
| "type_of_body (M_Status c s m d t ts) = T_Status"
| "type_of_body (M_Diagnostics_Request r) = T_Diagnostics_Request"
| "type_of_body (M_Diagnostics_Report r w) = T_Diagnostics_Report"
| "type_of_body (M_Error c e ts) = T_Error"

fun level_name :: "log_level \<Rightarrow> string" where
  "level_name Level_Warn = ''warn''"
| "level_name Level_Error = ''error''"

text \<open>The fields of the raw message that the body of a message stands for.\<close>

fun says :: "wire_heap \<Rightarrow> wire \<Rightarrow> message_body \<Rightarrow> bool" where
  "says h raw (M_Hello ns) \<longleftrightarrow> array_entries h (read_prop h raw ''configNames'') = Some (map WString ns)"
| "says h raw (M_Welcome w) \<longleftrightarrow> says_string h raw ''worker'' w"
| "says h raw (M_Worker_Log l m fs) \<longleftrightarrow> says_string h raw ''level'' (js (level_name l)) \<and> says_string h raw ''message'' m \<and>
     (\<exists>a. read_prop h raw ''fields'' = WRef a \<and> \<not> is_array_node (h a) \<and> named_props (h a) = fs)"
| "says h raw (M_Status_Request c r d) \<longleftrightarrow> says_string h raw ''configName'' c \<and> says_bool h raw ''retry'' r \<and>
     (case d of None \<Rightarrow> read_prop h raw ''device'' = WUndefined | Some d \<Rightarrow> says_device h raw d)"
| "says h raw (M_Owner_Claimed c t m) \<longleftrightarrow> says_string h raw ''configName'' c \<and> says_string h raw ''term'' t \<and> says_limit h raw m"
| "says h raw (M_Owner_Released c t) \<longleftrightarrow> says_string h raw ''configName'' c \<and> says_string h raw ''term'' t"
| "says h raw (M_Write_Request c r p t) \<longleftrightarrow> says_string h raw ''configName'' c \<and> says_string h raw ''requestId'' r \<and>
     says_bytes h raw p \<and> says_string h raw ''term'' t"
| "says h raw (M_Write_Ready c r t) \<longleftrightarrow> says_string h raw ''configName'' c \<and> says_string h raw ''requestId'' r \<and>
     says_string h raw ''term'' t"
| "says h raw (M_Write_Approval c r t a) \<longleftrightarrow> says_string h raw ''configName'' c \<and> says_string h raw ''requestId'' r \<and>
     says_string h raw ''term'' t \<and> says_bool h raw ''approved'' a"
| "says h raw (M_Write_Result c r ok e t) \<longleftrightarrow> says_string h raw ''configName'' c \<and> says_string h raw ''requestId'' r \<and>
     says_bool h raw ''ok'' ok \<and> e = (if ok then None else Some (read_prop h raw ''error'')) \<and> says_optional h raw ''term'' t"
| "says h raw (M_Data_Received c p ts tx) \<longleftrightarrow> says_string h raw ''configName'' c \<and> says_bytes h raw p \<and>
     says_number h raw ''timestamp'' ts \<and> says_optional h raw ''text'' tx"
| "says h raw (M_Data_Sent c p cl ts) \<longleftrightarrow> says_string h raw ''configName'' c \<and> says_bytes h raw p \<and>
     says_string h raw ''originClientId'' cl \<and> says_number h raw ''timestamp'' ts"
| "says h raw (M_Status c s m d t ts) \<longleftrightarrow> says_string h raw ''configName'' c \<and> says_string h raw ''status'' s \<and>
     says_limit h raw m \<and> says_device h raw d \<and> says_string h raw ''term'' t \<and> says_number h raw ''timestamp'' ts"
| "says h raw (M_Diagnostics_Request r) \<longleftrightarrow> says_string h raw ''requestId'' r"
| "says h raw (M_Diagnostics_Report r w) \<longleftrightarrow> says_string h raw ''requestId'' r \<and> w = read_prop h raw ''report''"
| "says h raw (M_Error c e ts) \<longleftrightarrow> says_string h raw ''configName'' c \<and> e = read_prop h raw ''error'' \<and>
     says_number h raw ''timestamp'' ts"

definition good_identifier :: "js_string \<Rightarrow> bool" where
  "good_identifier s \<longleftrightarrow> s \<noteq> [] \<and> length s \<le> max_identifier_length"

definition good_name :: "js_string \<Rightarrow> bool" where
  "good_name s \<longleftrightarrow> s \<noteq> [] \<and> length s \<le> max_config_name_length"

definition good_payload :: "bytes \<Rightarrow> bool" where
  "good_payload p \<longleftrightarrow> length p \<le> max_payload_bytes"

fun good_limit :: "limit \<Rightarrow> bool" where
  "good_limit Unlimited = True"
| "good_limit (Limit i) = (1 \<le> i)"

fun good_device :: "status_device \<Rightarrow> bool" where
  "good_device (Device_Usb a b) = (0 \<le> a \<and> a \<le> 0xffff \<and> 0 \<le> b \<and> b \<le> 0xffff)"
| "good_device _ = True"

text \<open>An error or report is held to its budget as the decoder counts it: without what an array in it carries
  as named properties. \<open>whole_within\<close> is the bound on all of it.\<close>

definition good_error :: "wire_heap \<Rightarrow> wire \<Rightarrow> bool" where
  "good_error h e \<longleftrightarrow> is_serialized_error h e \<and> within_budget False h e error_budget"

definition good_report :: "wire_heap \<Rightarrow> wire \<Rightarrow> bool" where
  "good_report h w \<longleftrightarrow> is_participant_diagnostics h w \<and> within_budget False h w report_budget"

definition field_characters :: "wire_props \<Rightarrow> nat" where
  "field_characters fs = sum_list (map (\<lambda>(k, v). length k + length (string_at v)) fs)"

definition good_log :: "js_string \<Rightarrow> wire_props \<Rightarrow> bool" where
  "good_log m fs \<longleftrightarrow> m \<noteq> [] \<and> length m + field_characters fs \<le> max_log_record_characters \<and>
     length fs \<le> max_log_record_values \<and>
     (\<forall>(k, v) \<in> set fs. is_string v \<or> is_boolean v \<or> is_finite_number v) \<and>
     (\<forall>k \<in> {''event'', ''clientId'', ''configName''}. prop_at fs (js k) = WUndefined \<or> is_string (prop_at fs (js k)))"

text \<open>The limits and shapes a message must keep.\<close>

fun acceptable :: "wire_heap \<Rightarrow> message_body \<Rightarrow> bool" where
  "acceptable h (M_Hello ns) \<longleftrightarrow> length ns \<le> max_hello_configurations \<and> (\<forall>n \<in> set ns. good_name n)"
| "acceptable h (M_Welcome w) \<longleftrightarrow> good_identifier w"
| "acceptable h (M_Worker_Log l m fs) \<longleftrightarrow> good_log m fs"
| "acceptable h (M_Status_Request c r d) \<longleftrightarrow> good_name c \<and>
     (case d of None \<Rightarrow> True | Some d \<Rightarrow> good_device d \<and> d \<noteq> Device_Any \<and> d \<noteq> Device_Auto)"
| "acceptable h (M_Owner_Claimed c t m) \<longleftrightarrow> good_name c \<and> good_identifier t \<and> good_limit m"
| "acceptable h (M_Owner_Released c t) \<longleftrightarrow> good_name c \<and> good_identifier t"
| "acceptable h (M_Write_Request c r p t) \<longleftrightarrow> good_name c \<and> good_identifier r \<and> good_payload p \<and> good_identifier t"
| "acceptable h (M_Write_Ready c r t) \<longleftrightarrow> good_name c \<and> good_identifier r \<and> good_identifier t"
| "acceptable h (M_Write_Approval c r t a) \<longleftrightarrow> good_name c \<and> good_identifier r \<and> good_identifier t"
| "acceptable h (M_Write_Result c r ok e t) \<longleftrightarrow> good_name c \<and> good_identifier r \<and>
     (case e of None \<Rightarrow> True | Some e \<Rightarrow> good_error h e) \<and> (case t of None \<Rightarrow> True | Some t \<Rightarrow> good_identifier t)"
| "acceptable h (M_Data_Received c p ts tx) \<longleftrightarrow> good_name c \<and> good_payload p \<and>
     (case tx of None \<Rightarrow> True | Some s \<Rightarrow> length s \<le> max_text_length)"
| "acceptable h (M_Data_Sent c p cl ts) \<longleftrightarrow> good_name c \<and> good_payload p \<and> good_identifier cl"
| "acceptable h (M_Status c s m d t ts) \<longleftrightarrow> good_name c \<and> is_status (WString s) \<and> good_limit m \<and> good_device d \<and> good_identifier t"
| "acceptable h (M_Diagnostics_Request r) \<longleftrightarrow> good_identifier r"
| "acceptable h (M_Diagnostics_Report r w) \<longleftrightarrow> good_identifier r \<and> good_report h w"
| "acceptable h (M_Error c e ts) \<longleftrightarrow> good_name c \<and> good_error h e"

section \<open>What the readers return\<close>

named_theorems read_forms \<open>when a reader returns a value\<close>

lemma map_sum_Inr [simp]: "map_sum id f x = Inr b \<longleftrightarrow> (\<exists>a. x = Inr a \<and> b = f a)"
  by (cases x) auto

lemma map_sum_Inl [simp]: "map_sum id f x = Inl e \<longleftrightarrow> x = Inl e"
  by (cases x) auto

lemma bounded_string_form:
  "bounded_string h raw ty field n what = Inr s \<longleftrightarrow> says_string h raw field s \<and> s \<noteq> [] \<and> length s \<le> n"
  by (cases "read_prop h raw field") (auto simp: bounded_string_def says_string_def Let_def)

lemma identifier_form [read_forms]:
  "read_identifier h raw ty field = Inr s \<longleftrightarrow> says_string h raw field s \<and> good_identifier s"
  by (simp add: read_identifier_def bounded_string_form good_identifier_def)

lemma optional_identifier_form [read_forms]:
  "optional_identifier h raw ty field = Inr t \<longleftrightarrow>
     says_optional h raw field t \<and> (case t of None \<Rightarrow> True | Some s \<Rightarrow> good_identifier s)"
  by (cases t) (auto simp: optional_identifier_def identifier_form says_string_def)

lemma config_name_form [read_forms]:
  "read_config_name h raw ty = Inr s \<longleftrightarrow> says_string h raw ''configName'' s \<and> good_name s"
  by (simp add: read_config_name_def bounded_string_form good_name_def)

lemma read_names_form: "read_names ty field vs = Inr ns \<longleftrightarrow> vs = map WString ns \<and> (\<forall>n \<in> set ns. good_name n)"
proof (induction vs arbitrary: ns)
  case (Cons v vs)
  show ?case
  proof (cases "is_non_empty_string v \<and> length (string_at v) \<le> max_config_name_length")
    case True
    then obtain s where s: "v = WString s" "good_name s" by (auto simp: non_empty_iff good_name_def)
    then show ?thesis using Cons.IH by (cases ns) (auto simp: good_name_def)
  next
    case False
    then show ?thesis by (auto simp: good_name_def Cons_eq_map_conv)
  qed
qed auto

lemma name_list_form [read_forms]:
  "name_list h raw ty field = Inr ns \<longleftrightarrow> array_entries h (read_prop h raw field) = Some (map WString ns) \<and>
     length ns \<le> max_hello_configurations \<and> (\<forall>n \<in> set ns. good_name n)"
  by (auto simp: name_list_def read_names_form split: option.split)

lemma payload_form [read_forms]: "read_payload h raw ty = Inr p \<longleftrightarrow> says_bytes h raw p \<and> good_payload p"
  by (auto simp: read_payload_def says_bytes_def good_payload_def split: option.split)

lemma finite_value_form: "finite_value v = Some q \<longleftrightarrow> v = WNumber (Finite q)"
  by (cases v rule: finite_value.cases) auto

lemma timestamp_form [read_forms]: "read_timestamp h raw ty = Inr q \<longleftrightarrow> says_number h raw ''timestamp'' q"
  by (auto simp: read_timestamp_def says_number_def finite_value_form [symmetric] split: option.split)

lemma text_form [read_forms]:
  "optional_text h raw ty = Inr t \<longleftrightarrow> says_optional h raw ''text'' t \<and>
     (case t of None \<Rightarrow> True | Some s \<Rightarrow> length s \<le> max_text_length)"
  by (cases t; cases "read_prop h raw ''text''") (auto simp: optional_text_def says_string_def)

lemma boolean_form [read_forms]: "read_boolean h raw ty field = Inr b \<longleftrightarrow> says_bool h raw field b"
  by (cases "read_prop h raw field") (auto simp: read_boolean_def says_bool_def)

lemma usb_id_form: "is_usb_id v \<longleftrightarrow> (\<exists>i. v = WNumber (Finite (of_int i)) \<and> 0 \<le> i \<and> i \<le> 0xffff)"
  by (cases v) (auto simp: is_integer_iff)

lemma device_form [read_forms]: "read_device h raw ty = Inr d \<longleftrightarrow> says_device h raw d \<and> good_device d"
  unfolding read_device_def says_device_def Let_def
  by (cases d) (auto simp: says_string_def says_number_def js_inj usb_id_form simp del: js_simps is_usb_id.simps)

lemma tab_limit_form [read_forms]: "read_tab_limit h raw ty = Inr m \<longleftrightarrow> says_limit h raw m \<and> good_limit m"
  by (cases m) (auto simp: read_tab_limit_def Let_def tab_limit_iff says_number_def)

lemma log_level_form [read_forms]: "read_log_level h raw ty = Inr l \<longleftrightarrow> says_string h raw ''level'' (js (level_name l))"
  by (cases l) (auto simp: read_log_level_def Let_def says_string_def js_inj simp del: js_simps)

lemma log_message_form:
  "read_log_message h raw ty = Inr m \<longleftrightarrow> says_string h raw ''message'' m \<and> m \<noteq> [] \<and> length m \<le> max_log_record_characters"
  by (cases "read_prop h raw ''message''") (auto simp: read_log_message_def says_string_def Let_def)

lemma error_form [read_forms]: "read_error h raw ty = Inr e \<longleftrightarrow> e = read_prop h raw ''error'' \<and> good_error h e"
  by (auto simp: read_error_def Let_def good_error_def no_excess [symmetric] is_serialized_error_def split: option.split excess.split)

lemma record_object: "is_record h v \<Longrightarrow> is_object v"
  by (cases v) simp_all

lemma report_form [read_forms]: "read_report h raw ty = Inr w \<longleftrightarrow> w = read_prop h raw ''report'' \<and> good_report h w"
  using record_object by (auto simp: read_report_def Let_def good_report_def no_excess [symmetric] is_participant_diagnostics_def
      split: option.split excess.split)

lemma spend_fields_form:
  "spent \<le> max_log_record_characters \<Longrightarrow>
   spend_fields ty spent ps = Inr u \<longleftrightarrow> spent + field_characters ps \<le> max_log_record_characters \<and>
     (\<forall>(k, v) \<in> set ps. is_string v \<or> is_boolean v \<or> is_finite_number v)"
  by (induction ty spent ps rule: spend_fields.induct) (auto simp: field_characters_def Let_def)

lemma log_fields_form:
  "length m \<le> max_log_record_characters \<Longrightarrow> m \<noteq> [] \<Longrightarrow>
   read_log_fields h raw ty (length m) = Inr fs \<longleftrightarrow>
     (\<exists>a. read_prop h raw ''fields'' = WRef a \<and> \<not> is_array_node (h a) \<and> named_props (h a) = fs) \<and> good_log m fs"
  by (cases "read_prop h raw ''fields''")
    (auto simp: read_log_fields_def Let_def check_Inr spend_fields_form good_log_def)

lemma type_of_name: "message_type_of s = Some t \<longleftrightarrow> s = js (message_type_name t)"
proof -
  have all: "t \<in> set message_types" for t by (cases t) (simp_all add: message_types_def)
  have inj: "message_type_name t = message_type_name t' \<longleftrightarrow> t = t'" for t t' by (cases t; cases t') simp_all
  have "map_of (map (\<lambda>t. (js (message_type_name t), t)) ts) s = Some t \<longleftrightarrow> t \<in> set ts \<and> s = js (message_type_name t)" for ts
    by (induction ts) (auto simp: js_inj inj)
  then show ?thesis using all by (simp add: message_type_of_def)
qed

lemma body_form:
  "decode_body h raw ty t = Inr b \<longleftrightarrow> type_of_body b = t \<and> says h raw b \<and> acceptable h b"
proof -
  have log: "check (read_log_message h raw ty) (\<lambda>m. map_sum id (M_Worker_Log l m) (read_log_fields h raw ty (length m))) = Inr b \<longleftrightarrow>
      (\<exists>m fs. b = M_Worker_Log l m fs \<and> says_string h raw ''message'' m \<and>
        (\<exists>a. read_prop h raw ''fields'' = WRef a \<and> \<not> is_array_node (h a) \<and> named_props (h a) = fs) \<and> good_log m fs)" for l b
  proof -
    have "good_log m fs \<Longrightarrow> m \<noteq> [] \<and> length m \<le> max_log_record_characters" for m fs by (simp add: good_log_def)
    then show ?thesis by (auto simp: check_Inr log_message_form log_fields_form)
  qed
  have status: "is_status v \<longleftrightarrow> (\<exists>s. v = WString s \<and> s \<in> set (map (js \<circ> status_name) all_statuses))" for v
    by (cases v) auto
  show ?thesis
  proof (cases t)
    case T_Worker_Log
    then show ?thesis
      by (cases b) (auto simp: decode_body_def Let_def check_Inr [of "read_log_level h raw ty"] log read_forms)
  next
    case T_Status
    then show ?thesis
      by (cases b) (auto simp: decode_body_def Let_def check_Inr read_forms says_string_def status)
  next
    case T_Status_Request
    then show ?thesis
      by (cases b; cases "read_prop h raw ''device'' = WUndefined")
        (auto simp: decode_body_def Let_def check_Inr read_forms says_device_def split: option.splits if_splits)
  next
    case T_Write_Result
    then show ?thesis
      by (cases b) (auto simp: decode_body_def Let_def check_Inr read_forms split: if_splits)
  qed (cases b; auto simp: decode_body_def Let_def check_Inr read_forms)+
qed

section \<open>What the boundary promises\<close>



lemma decode_form:
  "decode_message h raw = Inr m \<longleftrightarrow>
     is_record h raw \<and> says_number h raw ''v'' (of_int protocol_version) \<and>
     says_string h raw ''from'' (msg_from m) \<and> good_identifier (msg_from m) \<and>
     says_string h raw ''to'' (msg_to m) \<and> good_identifier (msg_to m) \<and>
     says_string h raw ''type'' (js (message_type_name (type_of_body (msg_body m)))) \<and>
     says h raw (msg_body m) \<and> acceptable h (msg_body m)"
proof -
  have ty: "(case v of
          WString s \<Rightarrow> (case message_type_of s of
             Some t \<Rightarrow> map_sum id (\<lambda>b. \<lparr>msg_from = src, msg_to = dst, msg_body = b\<rparr>) (decode_body h raw s t)
           | None \<Rightarrow> Inl (Unknown_Type quoted))
        | _ \<Rightarrow> Inl (Unknown_Type quoted)) = Inr m \<longleftrightarrow>
      v = WString (js (message_type_name (type_of_body (msg_body m)))) \<and> says h raw (msg_body m) \<and>
      acceptable h (msg_body m) \<and> src = msg_from m \<and> dst = msg_to m" for v src dst quoted
  proof (cases v)
    case (WString s)
    show ?thesis
    proof (cases "message_type_of s")
      case None
      then have "s \<noteq> js (message_type_name t)" for t using type_of_name [of s t] by simp
      then show ?thesis using WString None by simp
    next
      case (Some t)
      then have s: "s = js (message_type_name t)" by (simp add: type_of_name)
      have inj: "message_type_name t = message_type_name t' \<longleftrightarrow> t = t'" for t' by (cases t; cases t') simp_all
      show ?thesis using WString Some
        by (cases m) (auto simp: body_form s js_inj inj simp del: js_simps)
    qed
  qed simp_all
  show ?thesis unfolding decode_message_def Let_def
    by (auto simp: check_Inr identifier_form ty says_string_def says_number_def)
qed


lemma decode_rejects_other_versions:
  "is_record h raw \<Longrightarrow> \<not> says_number h raw ''v'' (of_int protocol_version) \<Longrightarrow>
   \<exists>v. decode_message h raw = Inl (Version_Mismatch v)"
  by (simp add: decode_message_def says_number_def Let_def)

definition evading_heap :: "nat \<Rightarrow> wire_heap" where
  "evading_heap n = (\<lambda>a. if a = 0 then WRecord
       [(js ''v'', WNumber (Finite 1)), (js ''type'', WString (js ''error'')),
        (js ''from'', WString (js ''x'')), (js ''to'', WString (js ''all'')),
        (js ''configName'', WString (js ''scale'')), (js ''timestamp'', WNumber (Finite 0)), (js ''error'', WRef 2)]
     else WArray []
       [(js ''$type'', WString (js ''SerialBrokerError'')), (js ''code'', WString (js ''READ_FAILED'')),
        (js ''message'', WString (replicate n 0)), (js ''remediation'', WString []),
        (js ''isRetryable'', WBool True), (js ''timestamp'', WNumber (Finite 0))])"

lemma prop_at_simps: "prop_at [] k = WUndefined" "prop_at ((k', v) # ps) k = (if k = k' then v else prop_at ps k)"
  by (simp_all add: prop_at_def)

text \<open>
  The budget of an error can be evaded. A structured clone keeps the named properties of an array,
  and the walk measures only an array's entries; an array that carries the fields of a serialised error
  as named properties is accepted as an error, whatever the length of its message. So for every \<open>n\<close>
  there is a raw value whose message of type \<open>error\<close> is accepted with a text of \<open>n\<close> characters.
\<close>

theorem error_budget_evaded:
  "decode_message (evading_heap n) (WRef 0) =
     Inr \<lparr>msg_from = js ''x'', msg_to = js ''all'', msg_body = M_Error (js ''scale'') (WRef 2) 0\<rparr> \<and>
   read_prop (evading_heap n) (WRef 2) ''message'' = WString (replicate n 0)"
proof -
  have raw: "read_prop (evading_heap n) (WRef 0) k = prop_at
       [(js ''v'', WNumber (Finite 1)), (js ''type'', WString (js ''error'')),
        (js ''from'', WString (js ''x'')), (js ''to'', WString (js ''all'')),
        (js ''configName'', WString (js ''scale'')), (js ''timestamp'', WNumber (Finite 0)), (js ''error'', WRef 2)] (js k)" for k
    by (simp add: evading_heap_def)
  have err: "read_prop (evading_heap n) (WRef 2) k = prop_at
       [(js ''$type'', WString (js ''SerialBrokerError'')), (js ''code'', WString (js ''READ_FAILED'')),
        (js ''message'', WString (replicate n 0)), (js ''remediation'', WString []),
        (js ''isRetryable'', WBool True), (js ''timestamp'', WNumber (Finite 0))] (js k)" for k
    by (simp add: evading_heap_def)
  have "exceeds_structure_budget (evading_heap n) (WRef 2) error_budget = None"
    by (simp add: exceeds_structure_budget_def measure_structure_def evading_heap_def error_budget_def
        max_error_values_def)
  then have "good_error (evading_heap n) (WRef 2)"
    by (simp add: good_error_def no_excess [symmetric] is_serialized_error_def err prop_at_simps js_inj del: js_simps read_prop.simps)
  moreover have "good_identifier (js ''x'')" "good_identifier (js ''all'')" "good_name (js ''scale'')"
    by (simp_all add: good_identifier_def good_name_def max_identifier_length_def max_config_name_length_def)
  moreover have "is_record (evading_heap n) (WRef 0)" by (simp add: evading_heap_def)
  ultimately show ?thesis
    by (simp add: decode_form says_string_def says_number_def protocol_version_def raw err prop_at_simps js_inj
        del: js_simps read_prop.simps is_record.simps)
qed

end
