(* ===== verification/Lock_Names.thy ===== *)
theory Lock_Names
  imports Configuration
begin

text \<open>
  The names the library claims in the origin's shared namespaces (\<open>protocol/version.ts\<close>): its Web Locks and
  its channel. A name ends with the configuration's name, the one part an application chooses, so that
  a slash in it is never mistaken for a separator.
\<close>

definition namespace :: string where
  "namespace = ''serial-broker''"

definition version_part :: string where
  "version_part = ''v'' @ nat_digits 1"

text \<open>\<open>String(maxTabs)\<close>.\<close>

fun limit_digits :: "limit \<Rightarrow> string" where
  "limit_digits Unlimited = ''Infinity''"
| "limit_digits (Limit i) = nat_digits (nat i)"

definition owner_lock_name :: "config_name \<Rightarrow> string" where
  "owner_lock_name c = namespace @ ''/owner/'' @ version_part @ ''/'' @ c"

definition tab_slot_lock_name :: "config_name \<Rightarrow> limit \<Rightarrow> nat \<Rightarrow> string" where
  "tab_slot_lock_name c tabs place =
     namespace @ ''/tab-slot/'' @ version_part @ ''/'' @ limit_digits tabs @ ''/'' @ nat_digits place @ ''/'' @ c"

definition term_lock_name :: "config_name \<Rightarrow> term_id \<Rightarrow> client_id \<Rightarrow> limit \<Rightarrow> string" where
  "term_lock_name c t client tabs =
     namespace @ ''/term/'' @ version_part @ ''/'' @ limit_digits tabs @ ''/'' @ t @ ''/'' @ client @ ''/'' @ c"

definition context_lock_name :: "client_id \<Rightarrow> string" where
  "context_lock_name client = namespace @ ''/context/'' @ version_part @ ''/'' @ client"

definition worker_lock_name :: "string \<Rightarrow> string" where
  "worker_lock_name w = namespace @ ''/worker/'' @ version_part @ ''/'' @ w"

definition tab_slot_gate_lock_name :: "config_name \<Rightarrow> limit \<Rightarrow> string" where
  "tab_slot_gate_lock_name c tabs =
     namespace @ ''/tab-slot-gate/'' @ version_part @ ''/'' @ limit_digits tabs @ ''/'' @ c"

definition broker_channel_name :: string where
  "broker_channel_name = namespace @ ''/broker/'' @ version_part"

lemmas lock_name_defs = owner_lock_name_def tab_slot_lock_name_def term_lock_name_def context_lock_name_def
  worker_lock_name_def tab_slot_gate_lock_name_def broker_channel_name_def namespace_def

definition plain :: "string \<Rightarrow> bool" where
  "plain s \<longleftrightarrow> CHR ''/'' \<notin> set s"

section \<open>Digits\<close>

lemma digit_code: "k < 10 \<Longrightarrow> (of_char (char_of (48 + k :: nat) :: char) :: nat) = 48 + k"
  by (simp add: take_bit_eq_mod)

lemma digit_chr: "n < 10 \<Longrightarrow> char_of (48 + n :: nat) \<noteq> CHR ''/''" "n < 10 \<Longrightarrow> char_of (48 + n :: nat) \<noteq> CHR ''I''"
proof -
  assume n: "n < 10"
  have "(of_char (char_of (48 + n :: nat) :: char) :: nat) \<noteq> of_char CHR ''/''" by (subst digit_code [OF n]) simp
  then show "char_of (48 + n :: nat) \<noteq> CHR ''/''" by metis
  have "(of_char (char_of (48 + n :: nat) :: char) :: nat) \<noteq> of_char CHR ''I''" using n by (subst digit_code [OF n]) simp
  then show "char_of (48 + n :: nat) \<noteq> CHR ''I''" by metis
qed

lemma digits_plain: "plain (nat_digits n)"
proof (induction n rule: nat_digits.induct)
  case (1 n)
  then show ?case using digit_chr(1) [of n] digit_chr(1) [of "n mod 10"]
    by (subst nat_digits.simps) (auto simp: plain_def)
qed

lemma limit_plain: "plain (limit_digits m)"
  by (cases m) (simp_all add: digits_plain, simp add: plain_def)

text \<open>The digits of a number determine it.\<close>

fun digits_value :: "string \<Rightarrow> nat" where
  "digits_value s = foldl (\<lambda>v c. 10 * v + (of_char c - 48)) 0 s"

lemma digits_roundtrip: "digits_value (nat_digits n) = n"
proof (induction n rule: nat_digits.induct)
  case (1 n)
  note d = digit_code
  show ?case
  proof (cases "n < 10")
    case True
    then show ?thesis by (subst nat_digits.simps) (simp add: d)
  next
    case False
    have "digits_value (nat_digits n) = 10 * digits_value (nat_digits (n div 10)) + n mod 10"
      using False by (subst nat_digits.simps) (simp add: d)
    then show ?thesis using 1 False by simp
  qed
qed

lemma digits_inj: "nat_digits n = nat_digits m \<longleftrightarrow> n = m"
  by (metis digits_roundtrip)

lemma digits_head: "\<exists>c s. nat_digits n = c # s \<and> c \<noteq> CHR ''I''"
proof (induction n rule: nat_digits.induct)
  case (1 n)
  show ?case
  proof (cases "n < 10")
    case True
    then show ?thesis using digit_chr(2) [of n] by (subst nat_digits.simps) simp
  next
    case False
    then obtain c s where "nat_digits (n div 10) = c # s" "c \<noteq> CHR ''I''" using 1 by blast
    then show ?thesis using False by (subst nat_digits.simps) simp
  qed
qed

lemma limit_inj: "limit_digits m = limit_digits m' \<Longrightarrow> m = m' \<or> (\<exists>i i'. m = Limit i \<and> m' = Limit i' \<and> nat i = nat i')"
proof -
  assume eq: "limit_digits m = limit_digits m'"
  have no: "nat_digits n \<noteq> ''Infinity''" for n using digits_head [of n] by auto
  show ?thesis using eq no by (cases m; cases m') (auto simp: digits_inj no [symmetric])
qed

text \<open>What stands before the first slash is determined.\<close>

lemma slash_split: "plain a \<Longrightarrow> plain b \<Longrightarrow> a @ CHR ''/'' # x = b @ CHR ''/'' # y \<longleftrightarrow> a = b \<and> x = y"
proof (induction a arbitrary: b)
  case Nil
  then show ?case by (cases b) (auto simp: plain_def)
next
  case (Cons c a)
  then show ?case by (cases b) (auto simp: plain_def)
qed

fun positive_limit :: "limit \<Rightarrow> bool" where
  "positive_limit Unlimited = True"
| "positive_limit (Limit i) = (1 \<le> i)"

text \<open>
  The lock of a term names the term. For terms and contexts whose identifiers contain no slash, and
  tab limits of at least one, two terms have the same lock name only if they agree in configuration,
  term, context and tab limit - whatever the configurations are called.
\<close>

theorem term_lock_names_term:
  assumes "plain t" and "plain t'" and "plain client" and "plain client'"
    and "positive_limit m" and "positive_limit m'"
  shows "term_lock_name c t client m = term_lock_name c' t' client' m' \<longleftrightarrow>
    c = c' \<and> t = t' \<and> client = client' \<and> m = m'"
proof -
  have "limit_digits m = limit_digits m' \<longleftrightarrow> m = m'" using assms(5,6) limit_inj [of m m'] by auto
  moreover have "term_lock_name c t client m = term_lock_name c' t' client' m' \<longleftrightarrow>
      limit_digits m @ CHR ''/'' # (t @ CHR ''/'' # (client @ CHR ''/'' # c)) =
      limit_digits m' @ CHR ''/'' # (t' @ CHR ''/'' # (client' @ CHR ''/'' # c'))"
    by (simp add: term_lock_name_def)
  ultimately show ?thesis using assms by (auto simp: slash_split limit_plain)
qed

lemma term_lock_names_term_witness:
  "term_lock_name ''a/b'' ''t'' ''c'' Unlimited \<noteq> term_lock_name ''b'' ''t'' ''c'' (Limit 3)"
  using term_lock_names_term [of "''t''" "''t''" "''c''" "''c''" Unlimited "Limit 3" "''a/b''" "''b''"]
  by (simp add: plain_def)

text \<open>Identifiers the bus accepts may contain a slash, and then two terms can share a name.\<close>

lemma term_lock_names_collide:
  "term_lock_name ''b'' ''t'' ''c/a'' Unlimited = term_lock_name ''a/b'' ''t'' ''c'' Unlimited"
  by (simp add: term_lock_name_def)

end
