(* ===== verification/Broker.thy ===== *)
theory Broker
  imports Decode
begin

text \<open>
  The worker that connects the tabs (\<open>worker/broker.ts\<close>, \<open>worker/worker-ports.ts\<close>): the broker routes a
  message by what every context's latest \<open>hello\<close> says it takes part in; the ports keep every port to one
  identity, forget an identity when the lock of its context is granted, and bound what the worker keeps.

  What leaves the worker are effects in order: a message posted on a port. A \<open>Set\<close> of ports carries the
  number of its registration, since the code compares the very set a lock request was made for. What
  the worker records at \<open>warn\<close> is forwarded to every connected context; records below it go nowhere in a
  browser and are left out.
\<close>

section \<open>Routing\<close>

definition max_participants :: nat where "max_participants = 1024"
definition max_ports_per_participant :: nat where "max_ports_per_participant = 8"
definition max_configurations :: nat where "max_configurations = 4 * max_hello_configurations"

definition broker_id :: js_string where
  "broker_id = js ''serial-broker/broker''"

record broker =
  bk_configs :: "(js_string, js_string list) omap"
  bk_warned :: bool

definition broker_init :: broker where
  "broker_init = \<lparr>bk_configs = [], bk_warned = False\<rparr>"

datatype broker_effect = Deliver js_string message | Warn_Configurations

text \<open>The first loop of \<open>#takePart\<close>: the configurations the client no longer takes part in.\<close>

fun leave_others :: "js_string \<Rightarrow> js_string list \<Rightarrow> (js_string, js_string list) omap \<Rightarrow> (js_string, js_string list) omap" where
  "leave_others client names [] = []"
| "leave_others client names ((c, ps) # m) =
     (if c \<in> set names then (c, ps) # leave_others client names m
      else (let ps' = js_remove client ps in
            if ps' = [] then leave_others client names m else (c, ps') # leave_others client names m))"

text \<open>\<open>#participantsOf\<close> with the \<open>add\<close> that follows it.\<close>

definition join_one :: "js_string \<Rightarrow> js_string \<Rightarrow> broker \<Rightarrow> broker \<times> broker_effect list" where
  "join_one client c b =
     (case om_get (bk_configs b) c of
        Some ps \<Rightarrow> (b\<lparr>bk_configs := om_set c (js_add client ps) (bk_configs b)\<rparr>, [])
      | None \<Rightarrow>
          if length (bk_configs b) \<ge> max_configurations
          then (b\<lparr>bk_warned := True\<rparr>, if bk_warned b then [] else [Warn_Configurations])
          else (b\<lparr>bk_configs := om_set c [client] (bk_configs b)\<rparr>, []))"

fun join_all :: "js_string \<Rightarrow> js_string list \<Rightarrow> broker \<Rightarrow> broker \<times> broker_effect list" where
  "join_all client [] b = (b, [])"
| "join_all client (c # cs) b =
     (case join_one client c b of (b', es) \<Rightarrow> case join_all client cs b' of (b'', es') \<Rightarrow> (b'', es @ es'))"

definition take_part :: "js_string \<Rightarrow> js_string list \<Rightarrow> broker \<Rightarrow> broker \<times> broker_effect list" where
  "take_part client config_names b =
     (let names = js_dedup config_names
      in join_all client names (b\<lparr>bk_configs := leave_others client names (bk_configs b)\<rparr>))"

definition handle_disconnect :: "js_string \<Rightarrow> broker \<Rightarrow> broker \<times> broker_effect list" where
  "handle_disconnect client b = take_part client [] b"

definition participants :: "broker \<Rightarrow> js_string \<Rightarrow> js_string list" where
  "participants b c = (case om_get (bk_configs b) c of Some ps \<Rightarrow> ps | None \<Rightarrow> [])"

definition route :: "message \<Rightarrow> js_string \<Rightarrow> broker \<Rightarrow> broker_effect list" where
  "route m sender b =
     (if msg_to m \<noteq> js ''all'' then [Deliver (msg_to m) m]
      else case config_name_of (msg_body m) of
        None \<Rightarrow> []
      | Some c \<Rightarrow> map (\<lambda>p. Deliver p m) (js_remove sender (participants b c)))"

text \<open>\<open>clients\<close> are the connected participants, as the host lists them.\<close>

definition handle_message :: "js_string list \<Rightarrow> js_string \<Rightarrow> message \<Rightarrow> broker \<Rightarrow> broker \<times> broker_effect list" where
  "handle_message clients client m b =
     (case msg_body m of
        M_Hello names \<Rightarrow> take_part client names b
      | M_Welcome w \<Rightarrow> (b, [])
      | M_Worker_Log l t f \<Rightarrow> (b, [])
      | M_Diagnostics_Request r \<Rightarrow> (b, map (\<lambda>c. Deliver c m) (js_remove client clients))
      | _ \<Rightarrow> (b, route m client b))"

section \<open>Ports\<close>

type_synonym worker_port = nat

record worker =
  wk_id :: js_string
  wk_identities :: "(worker_port, js_string) omap"
  wk_ports :: "(js_string, nat \<times> worker_port list) omap"
  wk_next_set :: nat
  wk_waits :: "(js_string \<times> nat) list"
  wk_warned :: "string list"
  wk_broker :: broker

definition worker_init :: "js_string \<Rightarrow> worker" where
  "worker_init i = \<lparr>wk_id = i, wk_identities = [], wk_ports = [], wk_next_set = 0, wk_waits = [],
     wk_warned = [], wk_broker = broker_init\<rparr>"

datatype worker_effect =
    Post worker_port message
  | Context_Lock_Requested js_string nat

type_synonym worker_result = "worker \<times> worker_effect list"

definition ports_of :: "worker \<Rightarrow> js_string \<Rightarrow> worker_port list" where
  "ports_of w client = (case om_get (wk_ports w) client of Some (i, ps) \<Rightarrow> ps | None \<Rightarrow> [])"

text \<open>\<open>#forward\<close>: a record goes to every connected context, as far as a tab would accept it.\<close>

definition forward :: "js_string \<Rightarrow> wire_props \<Rightarrow> worker \<Rightarrow> worker_effect list" where
  "forward text fs w =
     (if \<not> (text \<noteq> [] \<and> length text + field_characters fs \<le> max_log_record_characters \<and>
            length fs \<le> max_log_record_values) then []
      else concat (map (\<lambda>(client, i, ps). map (\<lambda>p. Post p \<lparr>msg_from = broker_id, msg_to = client,
             msg_body = M_Worker_Log Level_Warn text fs\<rparr>) ps) (wk_ports w)))"

text \<open>\<open>OnceLog.warn\<close>.\<close>

definition warn_once :: "string \<Rightarrow> js_string \<Rightarrow> wire_props \<Rightarrow> worker \<Rightarrow> worker_result" where
  "warn_once key text fs w =
     (if key \<in> set (wk_warned w) then (w, [])
      else (let w' = w\<lparr>wk_warned := wk_warned w @ [key]\<rparr> in (w', forward text fs w')))"

definition field :: "string \<Rightarrow> js_string \<Rightarrow> js_string \<times> wire" where
  "field k s = (js k, WString s)"

definition optional_field :: "string \<Rightarrow> js_string option \<Rightarrow> wire_props" where
  "optional_field k v = (case v of None \<Rightarrow> [] | Some s \<Rightarrow> [field k s])"

definition limit_text :: "string \<Rightarrow> js_string" where
  "limit_text limit = js (''dropped what exceeds '' @ limit @
     ''; further excesses of this limit are dropped without a record'')"

text \<open>\<open>warnLimitExceeded\<close>.\<close>

definition warn_limit :: "string \<Rightarrow> string \<Rightarrow> wire_props \<Rightarrow> worker \<Rightarrow> worker_result" where
  "warn_limit event limit fs w =
     warn_once limit (limit_text limit) (fs @ [field ''event'' (js event), field ''limit'' (js limit)]) w"

datatype refusal = Before_Hello | Sender_Mismatch | Broker_Identity

fun refusal_name :: "refusal \<Rightarrow> string" where
  "refusal_name Before_Hello = ''before-hello''"
| "refusal_name Sender_Mismatch = ''sender-mismatch''"
| "refusal_name Broker_Identity = ''broker-identity''"

fun refusal_message :: "refusal \<Rightarrow> string" where
  "refusal_message Before_Hello = ''refused a message from a port that has not said hello''"
| "refusal_message Sender_Mismatch = ''refused a message that names another sender than its port said hello as''"
| "refusal_message Broker_Identity = ''refused a hello that names the broker's own identity''"

definition refuse :: "refusal \<Rightarrow> worker_port \<Rightarrow> message \<Rightarrow> worker \<Rightarrow> worker_result" where
  "refuse r p m w =
     warn_once (refusal_name r) (js (refusal_message r))
       (optional_field ''clientId'' (om_get (wk_identities w) p) @
        [field ''event'' (js ''worker.message-refused''), field ''reason'' (js (refusal_name r)),
         field ''messageType'' (js (message_type_name (type_of_body (msg_body m)))),
         field ''claimedClientId'' (msg_from m)]) w"

text \<open>\<open>#register\<close>, with the request for the context's lock.\<close>

definition register :: "worker_port \<Rightarrow> js_string \<Rightarrow> worker \<Rightarrow> worker \<times> worker_effect list \<times> bool" where
  "register p client w =
     (case om_get (wk_ports w) client of
        None \<Rightarrow>
          if length (wk_ports w) \<ge> max_participants
          then (case warn_limit ''worker.limit-exceeded'' ''MAX_PARTICIPANTS'' [field ''clientId'' client] w of
                  (w', es) \<Rightarrow> (w', es, False))
          else (let i = wk_next_set w in
                (w\<lparr>wk_ports := om_set client (i, [p]) (wk_ports w), wk_next_set := Suc i,
                   wk_waits := wk_waits w @ [(client, i)]\<rparr>, [Context_Lock_Requested client i], True))
      | Some (i, ps) \<Rightarrow>
          if p \<notin> set ps \<and> length ps \<ge> max_ports_per_participant
          then (case warn_limit ''worker.limit-exceeded'' ''MAX_PORTS_PER_PARTICIPANT'' [field ''clientId'' client] w of
                  (w', es) \<Rightarrow> (w', es, False))
          else (w\<lparr>wk_ports := om_set client (i, js_add p ps) (wk_ports w)\<rparr>, [], True))"

definition welcome_for :: "js_string \<Rightarrow> js_string \<Rightarrow> message" where
  "welcome_for client worker_id = \<lparr>msg_from = broker_id, msg_to = client, msg_body = M_Welcome worker_id\<rparr>"

text \<open>What the broker delivers goes to every port of the client; what it warns of is forwarded.\<close>

fun perform :: "worker \<Rightarrow> broker_effect \<Rightarrow> worker_effect list" where
  "perform w (Deliver client m) = map (\<lambda>p. Post p m) (ports_of w client)"
| "perform w Warn_Configurations =
     forward (limit_text ''MAX_CONFIGURATIONS'')
       [field ''event'' (js ''broker.limit-exceeded''), field ''limit'' (js ''MAX_CONFIGURATIONS'')] w"

definition to_broker :: "(broker \<Rightarrow> broker \<times> broker_effect list) \<Rightarrow> worker \<Rightarrow> worker_result" where
  "to_broker f w = (case f (wk_broker w) of (b, es) \<Rightarrow> (w\<lparr>wk_broker := b\<rparr>, concat (map (perform w) es)))"

text \<open>\<open>#drop\<close>.\<close>

definition drop_message :: "worker_port \<Rightarrow> wire_heap \<Rightarrow> wire \<Rightarrow> decode_failure \<Rightarrow> worker \<Rightarrow> worker_result" where
  "drop_message p h raw failure w =
     (case (failure, hello_sender_of h raw) of
        (Version_Mismatch v, Some sender) \<Rightarrow>
          (case warn_once ''other-protocol-version'' (js ''answered a tab on another protocol version'')
             [field ''clientId'' sender, field ''event'' (js ''worker.other-protocol-version''),
              field ''reason'' (describe_decode_failure failure)] w of
             (w', es) \<Rightarrow> (w', es @ [Post p (welcome_for sender (wk_id w))]))
      | (Limit_Exceeded ty fld limit, _) \<Rightarrow>
          warn_limit ''worker.limit-exceeded'' limit
            (optional_field ''clientId'' (om_get (wk_identities w) p) @
             [field ''messageType'' ty, field ''field'' (js fld)]) w
      | _ \<Rightarrow> (w, []))"

text \<open>\<open>receive\<close>: the identity of the port, its registration, and what the broker makes of the message.\<close>

definition accept :: "worker_port \<Rightarrow> message \<Rightarrow> worker \<Rightarrow> worker_result" where
  "accept p m w =
     (case register p (msg_from m) w of
        (w1, es, False) \<Rightarrow> (w1, es)
      | (w1, es, True) \<Rightarrow>
          (let welcome = (case msg_body m of M_Hello ns \<Rightarrow> [Post p (welcome_for (msg_from m) (wk_id w1))] | _ \<Rightarrow> []) in
           case to_broker (handle_message (om_keys (wk_ports w1)) (msg_from m) m) w1 of
             (w2, es') \<Rightarrow> (w2, es @ welcome @ es')))"

definition receive :: "worker_port \<Rightarrow> wire_heap \<Rightarrow> wire \<Rightarrow> worker \<Rightarrow> worker_result" where
  "receive p h raw w =
     (case decode_message h raw of
        Inl failure \<Rightarrow> drop_message p h raw failure w
      | Inr m \<Rightarrow>
          (case om_get (wk_identities w) p of
             None \<Rightarrow>
               if type_of_body (msg_body m) \<noteq> T_Hello then refuse Before_Hello p m w
               else if msg_from m = broker_id then refuse Broker_Identity p m w
               else accept p m (w\<lparr>wk_identities := om_set p (msg_from m) (wk_identities w)\<rparr>)
           | Some identity \<Rightarrow>
               if msg_from m \<noteq> identity then refuse Sender_Mismatch p m w else accept p m w))"

text \<open>The context's lock is granted, or refused; and what else happens to a worker.\<close>

definition context_gone :: "js_string \<Rightarrow> nat \<Rightarrow> worker \<Rightarrow> worker_result" where
  "context_gone client i w =
     (let w1 = w\<lparr>wk_waits := filter (\<lambda>x. x \<noteq> (client, i)) (wk_waits w)\<rparr> in
      case om_get (wk_ports w1) client of
        Some (j, ps) \<Rightarrow>
          if j = i then to_broker (handle_disconnect client) (w1\<lparr>wk_ports := om_del client (wk_ports w1)\<rparr>) else (w1, [])
      | None \<Rightarrow> (w1, []))"

definition report_message_error :: "worker_port \<Rightarrow> worker \<Rightarrow> worker_result" where
  "report_message_error p w =
     warn_once ''message-error'' (js ''dropped a message that could not be cloned'')
       (optional_field ''clientId'' (om_get (wk_identities w) p) @ [field ''event'' (js ''worker.message-error'')]) w"

definition dispose_worker :: "worker \<Rightarrow> worker" where
  "dispose_worker w = w\<lparr>wk_ports := [], wk_waits := [], wk_broker := (wk_broker w)\<lparr>bk_configs := []\<rparr>\<rparr>"

datatype worker_event =
    Receive worker_port wire_heap wire
  | Context_Gone js_string nat
  | Message_Error worker_port
  | Dispose

fun worker_step :: "worker_event \<Rightarrow> worker \<Rightarrow> worker_result" where
  "worker_step (Receive p h raw) w = receive p h raw w"
| "worker_step (Context_Gone client i) w = (if (client, i) \<in> set (wk_waits w) then context_gone client i w else (w, []))"
| "worker_step (Message_Error p) w = report_message_error p w"
| "worker_step Dispose w = (dispose_worker w, [])"

fun worker_run :: "worker_event list \<Rightarrow> worker \<Rightarrow> worker" where
  "worker_run [] w = w"
| "worker_run (e # es) w = worker_run es (fst (worker_step e w))"

section \<open>Routing by the latest hello\<close>

lemma leave_keys: "set (om_keys (leave_others client names m)) \<subseteq> set (om_keys m)"
proof (induction client names m rule: leave_others.induct)
  case (2 client names c ps m)
  then show ?case by (cases "c \<in> set names"; cases "js_remove client ps = []") (auto simp: Let_def)
qed simp

lemma leave_inv: "om_inv m \<Longrightarrow> om_inv (leave_others client names m)"
  by (induction client names m rule: leave_others.induct)
    (auto simp: om_inv_def Let_def dest: subsetD [OF leave_keys])

lemma leave_length: "length (leave_others client names m) \<le> length m"
  by (induction client names m rule: leave_others.induct) (auto simp: Let_def)

lemma leave_get:
  "om_inv m \<Longrightarrow> om_get (leave_others client names m) c =
     (case om_get m c of None \<Rightarrow> None
      | Some ps \<Rightarrow> if c \<in> set names then Some ps
          else (let ps' = js_remove client ps in if ps' = [] then None else Some ps'))"
proof (induction client names m rule: leave_others.induct)
  case (2 client names c' ps m)
  have "om_inv m" "c' \<notin> set (om_keys m)" using "2.prems" by (auto simp: om_inv_def)
  then have none: "om_get (leave_others client names m) c' = None" using leave_keys [of client names m]
    by (auto simp: om_get_None_iff)
  show ?case using 2 \<open>om_inv m\<close> none by (auto simp: Let_def split: option.split)
qed simp

definition broker_ok :: "broker \<Rightarrow> bool" where
  "broker_ok b \<longleftrightarrow> om_inv (bk_configs b) \<and> length (bk_configs b) \<le> max_configurations \<and>
     (\<forall>c ps. om_get (bk_configs b) c = Some ps \<longrightarrow> ps \<noteq> [] \<and> distinct ps)"

lemma broker_init_ok: "broker_ok broker_init"
  by (simp add: broker_ok_def broker_init_def)

lemma leave_ok: "broker_ok b \<Longrightarrow> broker_ok (b\<lparr>bk_configs := leave_others client names (bk_configs b)\<rparr>)"
proof -
  assume ok: "broker_ok b"
  then have "ps \<noteq> [] \<and> distinct ps" if "om_get (leave_others client names (bk_configs b)) c = Some ps" for c ps
    using that by (auto simp: broker_ok_def leave_get Let_def split: option.splits if_splits)
  then show ?thesis using ok leave_length [of client names "bk_configs b"] by (simp add: broker_ok_def leave_inv)
qed

lemma join_one_ok: "broker_ok b \<Longrightarrow> broker_ok (fst (join_one client c b))"
  by (auto simp: broker_ok_def join_one_def length_om_set om_get_None_iff js_add_def
      split: option.split dest: om_get_Some_key)

lemma join_all_ok: "broker_ok b \<Longrightarrow> broker_ok (fst (join_all client cs b))"
proof (induction client cs b rule: join_all.induct)
  case (2 client c cs b)
  then show ?case using join_one_ok [of b client c] by (auto split: prod.split)
qed simp

lemma take_part_ok: "broker_ok b \<Longrightarrow> broker_ok (fst (take_part client names b))"
  by (simp add: take_part_def Let_def join_all_ok leave_ok)

lemma js_remove_Nil: "js_remove x xs = [] \<longleftrightarrow> set xs \<subseteq> {x}"
  by (auto simp: js_remove_def filter_empty_conv)

lemma participants_leave:
  "broker_ok b \<Longrightarrow> set (participants (b\<lparr>bk_configs := leave_others client names (bk_configs b)\<rparr>) c) =
     (if c \<in> set names then set (participants b c) else set (participants b c) - {client})"
  by (auto simp: participants_def leave_get broker_ok_def Let_def js_remove_Nil split: option.split)


text \<open>Whether there is room for a configuration that is new.\<close>

definition has_room :: "js_string \<Rightarrow> broker \<Rightarrow> bool" where
  "has_room c b \<longleftrightarrow> c \<in> set (om_keys (bk_configs b)) \<or> length (bk_configs b) < max_configurations"

lemma participants_join_one:
  "set (participants (fst (join_one client c b)) c') =
     (if c' = c \<and> has_room c b then insert client (set (participants b c')) else set (participants b c'))"
proof (cases "om_get (bk_configs b) c")
  case None
  then have "c \<notin> set (om_keys (bk_configs b))" by (simp add: om_get_None_iff)
  then show ?thesis using None by (auto simp: participants_def join_one_def has_room_def)
next
  case (Some ps)
  then have "c \<in> set (om_keys (bk_configs b))" by (rule om_get_Some_key)
  then show ?thesis using Some by (auto simp: participants_def join_one_def has_room_def)
qed


lemma participants_join_all_le:
  "set (participants (fst (join_all client cs b)) c') \<subseteq>
     set (participants b c') \<union> (if c' \<in> set cs then {client} else {})"
proof (induction client cs b rule: join_all.induct)
  case (2 client c cs b)
  have "set (participants (fst (join_one client c b)) c') \<subseteq> set (participants b c') \<union> (if c' = c then {client} else {})"
    by (auto simp: participants_join_one)
  then show ?case using 2 [OF surjective_pairing [symmetric]] by (auto split: prod.split if_splits)
qed simp




















section \<open>The worker\<close>

definition worker_ok :: "worker \<Rightarrow> bool" where
  "worker_ok w \<longleftrightarrow> om_inv (wk_ports w) \<and> length (wk_ports w) \<le> max_participants \<and>
     (\<forall>client i ps. om_get (wk_ports w) client = Some (i, ps) \<longrightarrow> distinct ps \<and> ps \<noteq> [] \<and>
        length ps \<le> max_ports_per_participant \<and> (\<forall>p \<in> set ps. om_get (wk_identities w) p = Some client)) \<and>
     broker_ok (wk_broker w) \<and> (\<forall>c. set (participants (wk_broker w) c) \<subseteq> set (om_keys (wk_ports w))) \<and>
     (\<forall>p. om_get (wk_identities w) p \<noteq> Some broker_id)"

lemma worker_init_ok: "worker_ok (worker_init i)"
  by (simp add: worker_ok_def worker_init_def broker_init_ok participants_def) (simp add: broker_init_def)

lemma warned_ok [simp]: "worker_ok (w\<lparr>wk_warned := ks\<rparr>) = worker_ok w" "worker_ok (w\<lparr>wk_waits := ws\<rparr>) = worker_ok w"
  by (simp_all add: worker_ok_def)

text \<open>Only the worker itself speaks as the broker, and then it welcomes or forwards a record.\<close>

definition own_words :: "worker_effect \<Rightarrow> bool" where
  "own_words e \<longleftrightarrow> (case e of Post p m \<Rightarrow> msg_from m = broker_id \<and>
     (case msg_body m of M_Welcome i \<Rightarrow> True | M_Worker_Log l t fs \<Rightarrow> True | _ \<Rightarrow> False) | _ \<Rightarrow> True)"

definition words_of :: "js_string \<Rightarrow> worker_effect \<Rightarrow> bool" where
  "words_of client e \<longleftrightarrow> own_words e \<or> (\<exists>p m. e = Post p m \<and> msg_from m = client)"

lemma forward_own: "\<forall>e \<in> set (forward t fs w). own_words e"
  by (auto simp: forward_def own_words_def)

lemma warn_once_form: "\<exists>ks. fst (warn_once k t fs w) = w\<lparr>wk_warned := ks\<rparr> \<and> (\<forall>e \<in> set (snd (warn_once k t fs w)). own_words e)"
proof -
  show ?thesis
  proof (cases "k \<in> set (wk_warned w)")
    case True
    then have "fst (warn_once k t fs w) = w\<lparr>wk_warned := wk_warned w\<rparr>" "snd (warn_once k t fs w) = []"
      by (simp_all add: warn_once_def)
    then show ?thesis by (intro exI [of _ "wk_warned w"]) simp
  next
    case False
    then show ?thesis using forward_own by (intro exI [of _ "wk_warned w @ [k]"]) (simp add: warn_once_def Let_def)
  qed
qed

lemma warn_limit_form: "\<exists>ks. fst (warn_limit ev k fs w) = w\<lparr>wk_warned := ks\<rparr> \<and> (\<forall>e \<in> set (snd (warn_limit ev k fs w)). own_words e)"
  unfolding warn_limit_def by (rule warn_once_form)

lemma length_del: "length (om_del k m) \<le> length m"
  by (simp add: om_del_def)

lemma register_form:
  assumes ok: "worker_ok w" and i: "om_get (wk_identities w) p = Some client" and r: "register p client w = (w', es, done)"
  shows "worker_ok w'" "wk_identities w' = wk_identities w" "wk_broker w' = wk_broker w" "\<forall>e \<in> set es. own_words e"
    "done \<Longrightarrow> client \<in> set (om_keys (wk_ports w'))"
proof -
  consider (full) ev k fs where "register p client w = (fst (warn_limit ev k fs w), snd (warn_limit ev k fs w), False)"
    | (new) "om_get (wk_ports w) client = None" "length (wk_ports w) < max_participants"
        "register p client w = (w\<lparr>wk_ports := om_set client (wk_next_set w, [p]) (wk_ports w), wk_next_set := Suc (wk_next_set w),
            wk_waits := wk_waits w @ [(client, wk_next_set w)]\<rparr>, [Context_Lock_Requested client (wk_next_set w)], True)"
    | (known) j ps where "om_get (wk_ports w) client = Some (j, ps)" "p \<in> set ps \<or> length ps < max_ports_per_participant"
        "register p client w = (w\<lparr>wk_ports := om_set client (j, js_add p ps) (wk_ports w)\<rparr>, [], True)"
  proof (cases "om_get (wk_ports w) client")
    case None
    show ?thesis
    proof (cases "max_participants \<le> length (wk_ports w)")
      case True
      then have "register p client w = (fst (warn_limit ''worker.limit-exceeded'' ''MAX_PARTICIPANTS'' [field ''clientId'' client] w),
          snd (warn_limit ''worker.limit-exceeded'' ''MAX_PARTICIPANTS'' [field ''clientId'' client] w), False)"
        using None by (simp add: register_def split: prod.split)
      then show ?thesis by (rule full)
    next
      case False
      then show ?thesis using None by (intro new) (simp_all add: register_def Let_def)
    qed
  next
    case (Some q)
    obtain j ps where q: "q = (j, ps)" by (cases q)
    show ?thesis
    proof (cases "p \<notin> set ps \<and> max_ports_per_participant \<le> length ps")
      case True
      then have "register p client w = (fst (warn_limit ''worker.limit-exceeded'' ''MAX_PORTS_PER_PARTICIPANT'' [field ''clientId'' client] w),
          snd (warn_limit ''worker.limit-exceeded'' ''MAX_PORTS_PER_PARTICIPANT'' [field ''clientId'' client] w), False)"
        using Some q by (simp add: register_def split: prod.split)
      then show ?thesis by (rule full)
    next
      case False
      then show ?thesis using Some q by (intro known [of j ps]) (auto simp: register_def)
    qed
  qed
  then have "worker_ok w' \<and> wk_identities w' = wk_identities w \<and> wk_broker w' = wk_broker w \<and> (\<forall>e \<in> set es. own_words e) \<and>
    (done \<longrightarrow> client \<in> set (om_keys (wk_ports w')))"
  proof cases
    case full
    then show ?thesis using r ok warn_limit_form [of ev k fs w] by auto
  next
    case new
    then have "client \<notin> set (om_keys (wk_ports w))" by (simp add: om_get_None_iff)
    then show ?thesis using new r ok i
      by (auto simp: worker_ok_def length_om_set own_words_def max_ports_per_participant_def)
  next
    case known
    then have k: "client \<in> set (om_keys (wk_ports w))" by (auto dest: om_get_Some_key)
    have "length (js_add p ps) \<le> max_ports_per_participant \<and> distinct (js_add p ps) \<and> js_add p ps \<noteq> []"
      using known ok by (auto simp: worker_ok_def js_add_def)
    then show ?thesis using known r ok i k
      by (auto simp: worker_ok_def length_om_set)
  qed
  then show "worker_ok w'" "wk_identities w' = wk_identities w" "wk_broker w' = wk_broker w" "\<forall>e \<in> set es. own_words e"
    "done \<Longrightarrow> client \<in> set (om_keys (wk_ports w'))" by auto
qed

lemma participants_take_part_le:
  "broker_ok b \<Longrightarrow> set (participants (fst (take_part client names b)) c) \<subseteq>
     (if c \<in> set names then insert client (set (participants b c)) else set (participants b c) - {client})"
  using participants_join_all_le [of client "js_dedup names" "b\<lparr>bk_configs := leave_others client (js_dedup names) (bk_configs b)\<rparr>" c]
  by (auto simp: take_part_def Let_def participants_leave split: if_splits)

definition deliveries_of :: "message \<Rightarrow> broker_effect \<Rightarrow> bool" where
  "deliveries_of m e \<longleftrightarrow> (case e of Deliver c m' \<Rightarrow> m' = m | Warn_Configurations \<Rightarrow> True)"

lemma join_all_effects: "\<forall>e \<in> set (snd (join_all client cs b)). e = Warn_Configurations"
proof (induction client cs b rule: join_all.induct)
  case (2 client c cs b)
  have "\<forall>e \<in> set (snd (join_one client c b)). e = Warn_Configurations"
    by (auto simp: join_one_def split: option.split)
  then show ?case using 2 [OF surjective_pairing [symmetric]] by (auto split: prod.split)
qed simp

lemma take_part_effects: "\<forall>e \<in> set (snd (take_part client names b)). e = Warn_Configurations"
  by (simp add: take_part_def Let_def join_all_effects)

lemma handle_message_form:
  assumes "broker_ok b"
  shows "broker_ok (fst (handle_message clients client m b))"
    "set (participants (fst (handle_message clients client m b)) c) \<subseteq> insert client (set (participants b c))"
    "\<forall>e \<in> set (snd (handle_message clients client m b)). deliveries_of m e"
proof -
  have r: "\<forall>e \<in> set (route m client b). deliveries_of m e"
    by (auto simp: route_def deliveries_of_def split: option.split)
  have t: "\<forall>e \<in> set (snd (take_part client ns b)). deliveries_of m e" for ns
    using take_part_effects [of client ns b] by (auto simp: deliveries_of_def)
  have p: "set (participants (fst (take_part client ns b)) c) \<subseteq> insert client (set (participants b c))" for ns
    using participants_take_part_le [OF assms, of client ns c] by (auto split: if_splits)
  show "broker_ok (fst (handle_message clients client m b))"
    using assms take_part_ok by (cases "msg_body m") (simp_all add: handle_message_def)
  show "set (participants (fst (handle_message clients client m b)) c) \<subseteq> insert client (set (participants b c))"
    using p by (cases "msg_body m") (simp_all add: handle_message_def subset_insertI)
  show "\<forall>e \<in> set (snd (handle_message clients client m b)). deliveries_of m e"
    using r t by (cases "msg_body m") (auto simp: handle_message_def deliveries_of_def)
qed

lemma perform_words:
  "deliveries_of m e \<Longrightarrow> \<forall>x \<in> set (perform w e). words_of (msg_from m) x"
  by (cases e) (auto simp: deliveries_of_def words_of_def forward_own)

lemma accept_form:
  assumes ok: "worker_ok w" and i: "om_get (wk_identities w) p = Some (msg_from m)"
  shows "worker_ok (fst (accept p m w))" "wk_identities (fst (accept p m w)) = wk_identities w"
    "\<forall>e \<in> set (snd (accept p m w)). words_of (msg_from m) e"
proof -
  obtain w1 es ok1 where r: "register p (msg_from m) w = (w1, es, ok1)" by (cases "register p (msg_from m) w")
  note f = register_form [OF ok i r]
  let ?b = "handle_message (om_keys (wk_ports w1)) (msg_from m) m (wk_broker w1)"
  have b: "broker_ok (wk_broker w1)" using f(1) by (simp add: worker_ok_def)
  have own: "\<forall>e \<in> set es. words_of (msg_from m) e" using f(4) by (simp add: words_of_def)
  have "worker_ok (w1\<lparr>wk_broker := fst ?b\<rparr>)" if ok1
  proof -
    have "set (participants (fst ?b) c) \<subseteq> set (om_keys (wk_ports w1))" for c
      using handle_message_form(2) [OF b, of "om_keys (wk_ports w1)" "msg_from m" m c] f(1) f(5) [OF that]
      by (fastforce simp: worker_ok_def)
    then show ?thesis using f(1) handle_message_form(1) [OF b] by (simp add: worker_ok_def)
  qed
  moreover have "words_of (msg_from m) (Post p (welcome_for c i))" for c i
    by (simp add: words_of_def own_words_def welcome_for_def)
  moreover have "\<forall>e \<in> set (concat (map (perform w1) (snd ?b))). words_of (msg_from m) e"
    using handle_message_form(3) [OF b] perform_words by fastforce
  ultimately show "worker_ok (fst (accept p m w))" "wk_identities (fst (accept p m w)) = wk_identities w"
    "\<forall>e \<in> set (snd (accept p m w)). words_of (msg_from m) e"
    using f r own by (cases ok1; auto simp: accept_def to_broker_def Let_def split: prod.split message_body.split)+
qed

text \<open>What a step on a port keeps and says: the identities grow only, and what is posted comes from the
  worker itself or from the identity of the port.\<close>

definition step_well :: "worker_port \<Rightarrow> worker \<Rightarrow> worker_result \<Rightarrow> bool" where
  "step_well p w r \<longleftrightarrow> worker_ok (fst r) \<and>
     (\<forall>q c. om_get (wk_identities w) q = Some c \<longrightarrow> om_get (wk_identities (fst r)) q = Some c) \<and>
     (\<forall>e \<in> set (snd r). own_words e \<or> (\<exists>c. om_get (wk_identities (fst r)) p = Some c \<and> words_of c e))"

lemma warn_once_well: "worker_ok w \<Longrightarrow> step_well p w (warn_once k t fs w)"
  using warn_once_form [of k t fs w] by (auto simp: step_well_def)

lemma warn_limit_well: "worker_ok w \<Longrightarrow> step_well p w (warn_limit ev k fs w)"
  unfolding warn_limit_def by (rule warn_once_well)

lemma accept_well:
  assumes "worker_ok w" and "om_get (wk_identities w) p = Some (msg_from m)"
  shows "step_well p w (accept p m w)"
  using accept_form [OF assms] assms(2) by (auto simp: step_well_def)

lemma identify_ok:
  assumes "worker_ok w" and "om_get (wk_identities w) p = None" and "c \<noteq> broker_id"
  shows "worker_ok (w\<lparr>wk_identities := om_set p c (wk_identities w)\<rparr>)"
  using assms by (fastforce simp: worker_ok_def)

lemma step_well_weaken:
  "step_well p (w\<lparr>wk_identities := om_set p c (wk_identities w)\<rparr>) r \<Longrightarrow> om_get (wk_identities w) p = None \<Longrightarrow> step_well p w r"
  unfolding step_well_def by (auto split: if_splits) (metis fun_upd_apply option.distinct(1))+

lemma receive_well:
  assumes ok: "worker_ok w"
  shows "step_well p w (receive p h raw w)"
proof (cases "decode_message h raw")
  case (Inl failure)
  have drop: "step_well p w (w, [])" using ok by (simp add: step_well_def)
  have other: "step_well p w (case warn_once k t fs w of (w', es) \<Rightarrow> (w', es @ [Post p (welcome_for c i)]))" for k t fs c i
    using warn_once_well [OF ok, of p k t fs]
    by (auto simp: step_well_def own_words_def welcome_for_def split: prod.split)
  show ?thesis using Inl drop other warn_limit_well [OF ok]
    by (cases failure) (simp_all add: receive_def drop_message_def split: option.split)
next
  case (Inr m)
  have refused: "step_well p w (refuse r p m w)" for r
    unfolding refuse_def by (rule warn_once_well [OF ok])
  show ?thesis
  proof (cases "om_get (wk_identities w) p")
    case None
    show ?thesis
    proof (cases "msg_from m = broker_id")
      case True
      then show ?thesis using refused Inr None by (simp add: receive_def)
    next
      case False
      have "step_well p w (accept p m (w\<lparr>wk_identities := om_set p (msg_from m) (wk_identities w)\<rparr>))"
        using identify_ok [OF ok None False] None by (intro step_well_weaken [OF accept_well]) simp_all
      then show ?thesis using refused Inr None False by (simp add: receive_def)
    qed
  next
    case (Some c)
    then show ?thesis using refused Inr accept_well [OF ok] by (simp add: receive_def)
  qed
qed

lemma context_gone_ok:
  assumes "worker_ok w"
  shows "worker_ok (fst (context_gone client i w))"
proof -
  define w1 where "w1 = w\<lparr>wk_waits := filter (\<lambda>x. x \<noteq> (client, i)) (wk_waits w)\<rparr>"
  have ok: "worker_ok w1" using assms by (simp add: w1_def)
  then have b: "broker_ok (wk_broker w1)" by (simp add: worker_ok_def)
  let ?b = "fst (take_part client [] (wk_broker w1))"
  have "set (participants ?b c) \<subseteq> set (om_keys (om_del client (wk_ports w1)))" for c
    using participants_take_part_le [OF b, of client "[]" c] ok by (fastforce simp: worker_ok_def)
  then have "worker_ok (w1\<lparr>wk_ports := om_del client (wk_ports w1), wk_broker := ?b\<rparr>)"
    using ok take_part_ok [OF b] length_del [of client "wk_ports w1"] by (auto simp: worker_ok_def)
  moreover have "context_gone client i w = (case om_get (wk_ports w1) client of
      Some (j, ps) \<Rightarrow> if j = i then to_broker (handle_disconnect client) (w1\<lparr>wk_ports := om_del client (wk_ports w1)\<rparr>) else (w1, [])
    | None \<Rightarrow> (w1, []))" unfolding context_gone_def Let_def w1_def ..
  moreover have "fst (to_broker (handle_disconnect client) (w1\<lparr>wk_ports := om_del client (wk_ports w1)\<rparr>)) =
      w1\<lparr>wk_ports := om_del client (wk_ports w1), wk_broker := ?b\<rparr>"
    by (simp add: to_broker_def handle_disconnect_def split: prod.split)
  ultimately show ?thesis using ok by (auto split: option.split)
qed

lemma worker_step_ok: "worker_ok w \<Longrightarrow> worker_ok (fst (worker_step e w))"
proof (cases e)
  case (Receive p h raw)
  assume "worker_ok w"
  then show ?thesis using Receive receive_well by (simp add: step_well_def)
next
  case (Context_Gone client i)
  assume "worker_ok w"
  then show ?thesis using Context_Gone context_gone_ok by simp
next
  case (Message_Error p)
  assume "worker_ok w"
  from warn_once_well [OF this] show ?thesis using Message_Error by (simp add: report_message_error_def step_well_def)
next
  case Dispose
  assume "worker_ok w"
  then show ?thesis using Dispose
    by (simp add: worker_ok_def dispose_worker_def broker_ok_def participants_def)
qed

lemma worker_run_ok: "worker_ok w \<Longrightarrow> worker_ok (worker_run es w)"
  by (induction es w rule: worker_run.induct) (simp_all add: worker_step_ok)

text \<open>
  C33. No port can speak as another context. Over everything that can happen to a worker, what it posts
  when a message arrives on a port is its own welcome or log record, or a message in the name of the one
  identity the port has said hello as; a port keeps that identity for good, and it is never the worker's
  own.
\<close>

theorem ports_keep_to_their_identity:
  assumes "w = worker_run evs (worker_init i)" and "r = worker_step (Receive p h raw) w"
    and "Post q m \<in> set (snd r)"
  shows "(if msg_from m = broker_id then own_words (Post q m)
      else om_get (wk_identities (fst r)) p = Some (msg_from m)) \<and>
    om_get (wk_identities (fst r)) p \<noteq> Some broker_id \<and>
    (case om_get (wk_identities w) p of None \<Rightarrow> True | Some c \<Rightarrow> om_get (wk_identities (fst r)) p = Some c)"
proof -
  have ok: "worker_ok w" using worker_run_ok [OF worker_init_ok] assms(1) by simp
  from receive_well [OF this, of p h raw] have s: "step_well p w r" using assms(2) by simp
  then have "om_get (wk_identities (fst r)) p \<noteq> Some broker_id" by (simp add: step_well_def worker_ok_def)
  moreover have "own_words (Post q m) \<or> om_get (wk_identities (fst r)) p = Some (msg_from m)"
    using s assms(3) unfolding step_well_def words_of_def by fastforce
  ultimately show ?thesis using s by (auto simp: step_well_def own_words_def split: option.split)
qed

text \<open>
  C34. What the worker keeps is bounded, and it keeps nothing of a context it has forgotten: over
  everything that can happen, at most 1024 identities with at most 8 ports each and at most 4096
  configurations, every port registered under its own identity, and every participant of a
  configuration a connected context.
\<close>

theorem worker_is_bounded:
  "let w = worker_run evs (worker_init i) in
     length (wk_ports w) \<le> max_participants \<and> length (bk_configs (wk_broker w)) \<le> max_configurations \<and>
     list_all (\<lambda>(client, j, ps). length ps \<le> max_ports_per_participant \<and>
        list_all (\<lambda>p. om_get (wk_identities w) p = Some client) ps) (wk_ports w) \<and>
     set (participants (wk_broker w) c) \<subseteq> set (om_keys (wk_ports w))"
proof -
  define w where "w = worker_run evs (worker_init i)"
  have ok: "worker_ok w" using worker_run_ok [OF worker_init_ok] by (simp add: w_def)
  then have "om_inv (wk_ports w)" by (simp add: worker_ok_def)
  then have "list_all (\<lambda>(client, j, ps). length ps \<le> max_ports_per_participant \<and>
        list_all (\<lambda>p. om_get (wk_identities w) p = Some client) ps) (wk_ports w)"
    using ok by (auto simp: worker_ok_def list_all_iff om_get_iff_in_set)
  then show ?thesis unfolding w_def [symmetric] Let_def using ok by (simp add: worker_ok_def broker_ok_def)
qed

definition hello_heap :: wire_heap where
  "hello_heap a = (if a = 0 then WRecord
       [(js ''v'', WNumber (Finite 1)), (js ''type'', WString (js ''hello'')), (js ''from'', WString (js ''tab'')),
        (js ''to'', WString (js ''all'')), (js ''configNames'', WRef 2)]
     else WArray [WString (js ''scale'')] [])"

lemma hello_decoded:
  "decode_message hello_heap (WRef 0) = Inr \<lparr>msg_from = js ''tab'', msg_to = js ''all'', msg_body = M_Hello [js ''scale'']\<rparr>"
proof -
  have raw: "read_prop hello_heap (WRef 0) k = prop_at
       [(js ''v'', WNumber (Finite 1)), (js ''type'', WString (js ''hello'')), (js ''from'', WString (js ''tab'')),
        (js ''to'', WString (js ''all'')), (js ''configNames'', WRef 2)] (js k)" for k
    by (simp add: hello_heap_def)
  have "array_entries hello_heap (WRef 2) = Some [WString (js ''scale'')]" by (simp add: hello_heap_def)
  moreover have "is_record hello_heap (WRef 0)" by (simp add: hello_heap_def)
  moreover have "good_identifier (js ''tab'')" "good_identifier (js ''all'')" "good_name (js ''scale'')"
    by (simp_all add: good_identifier_def good_name_def max_identifier_length_def max_config_name_length_def)
  ultimately show ?thesis
    by (simp add: decode_form says_string_def says_number_def protocol_version_def raw prop_at_simps js_inj
        max_hello_configurations_def del: js_simps read_prop.simps is_record.simps array_entries.simps)
qed

lemma ports_keep_to_their_identity_witness:
  "Post 5 (welcome_for (js ''tab'') (js ''w'')) \<in> set (snd (worker_step (Receive 5 hello_heap (WRef 0)) (worker_init (js ''w'')))) \<and>
   om_get (wk_identities (fst (worker_step (Receive 5 hello_heap (WRef 0)) (worker_init (js ''w''))))) 5 \<noteq> Some broker_id"
proof -
  let ?r = "worker_step (Receive 5 hello_heap (WRef 0)) (worker_init (js ''w''))"
  have ne: "js ''tab'' \<noteq> broker_id" by (simp add: broker_id_def js_inj del: js_simps)
  have p: "Post 5 (welcome_for (js ''tab'') (js ''w'')) \<in> set (snd ?r)"
    using ne by (simp add: receive_def hello_decoded worker_init_def accept_def register_def max_participants_def
        Let_def split: prod.split)
  have "worker_init (js ''w'') = worker_run [] (worker_init (js ''w''))" by simp
  from ports_keep_to_their_identity [OF this refl p] p show ?thesis by simp
qed

end
