(* ===== verification/Configuration_Store.thy ===== *)
theory Configuration_Store
  imports Validation
begin

text \<open>
  The configurations remembered across reloads (\<open>storage/configuration-store.ts\<close>): one entry per
  configuration and an index of their names, in the origin's storage.

  The storage is the browser's: a map from keys to texts, any call of which may be refused. A text is the
  JSON of a value or something that is no JSON at all; \<open>json_image\<close> is what \<open>JSON.parse\<close> makes of what
  \<open>JSON.stringify\<close> made of a value. \<open>sn_refuses\<close> says which calls the storage refuses while an operation of
  the store runs. What the store reports are values of \<open>storage_problem\<close>, in order; log records are left
  out.
\<close>

section \<open>Storage\<close>

text \<open>A function or an undefined property is left out, and a number that is not finite becomes \<open>null\<close>.\<close>

fun is_json :: "js_value \<Rightarrow> bool" where
  "is_json JUndefined = False"
| "is_json JFunction = False"
| "is_json v = True"

fun json_image :: "js_value \<Rightarrow> js_value"
  and json_props :: "(string \<times> js_value) list \<Rightarrow> (string \<times> js_value) list"
  and json_items :: "js_value list \<Rightarrow> js_value list" where
  "json_image JUndefined = JUndefined"
| "json_image JFunction = JUndefined"
| "json_image JNull = JNull"
| "json_image (JBool b) = JBool b"
| "json_image (JString s) = JString s"
| "json_image (JNumber n) = (if is_finite n then JNumber n else JNull)"
| "json_image (JObject ps) = JObject (json_props ps)"
| "json_image (JHost tag ps) = JObject (json_props ps)"
| "json_image (JArray vs) = JArray (json_items vs)"
| "json_props [] = []"
| "json_props ((k, v) # ps) = (if is_json v then (k, json_image v) # json_props ps else json_props ps)"
| "json_items [] = []"
| "json_items (v # vs) = (if is_json v then json_image v else JNull) # json_items vs"

datatype stored_text = Json js_value | Not_Json

fun json_parse :: "stored_text \<Rightarrow> js_value option" where
  "json_parse (Json v) = Some v"
| "json_parse Not_Json = None"

definition json_stringify :: "js_value \<Rightarrow> stored_text" where
  "json_stringify v = Json (json_image v)"

type_synonym storage = "(js_string, stored_text) omap"

datatype storage_call = Get_Item js_string | Set_Item js_string | Remove_Item js_string

record store_env =
  sn_refuses :: "storage_call \<Rightarrow> bool"
  sn_canon :: "js_string \<Rightarrow> js_string option"

definition storage_prefix :: js_string where
  "storage_prefix = js (''serial-broker/configurations/v'' @ nat_digits 1)"

definition storage_index_key :: js_string where
  "storage_index_key = storage_prefix @ js ''/index''"

definition storage_entry_key :: "js_string \<Rightarrow> js_string" where
  "storage_entry_key name = storage_prefix @ js ''/entry/'' @ name"

datatype operation = Op_Read | Op_Write | Op_Clear

datatype storage_problem =
    Storage_Refused operation
  | Index_Not_Json
  | Index_Not_A_List
  | Index_Not_Names
  | Entry_Not_Json js_string
  | Entry_Invalid js_string

fun problem_code :: "storage_problem \<Rightarrow> error_code" where
  "problem_code (Storage_Refused op) = STORAGE_UNAVAILABLE"
| "problem_code _ = STORAGE_CORRUPT"

type_synonym 'a store_result = "storage \<times> storage_problem list \<times> 'a"

section \<open>Single calls\<close>

text \<open>\<open>#write\<close>, \<open>#writeIndex\<close> and \<open>#removeEntry\<close>.\<close>

definition store_write :: "store_env \<Rightarrow> js_string \<Rightarrow> stored_text \<Rightarrow> storage \<Rightarrow> bool store_result" where
  "store_write v key text st =
     (if sn_refuses v (Set_Item key) then (st, [Storage_Refused Op_Write], False) else (om_set key text st, [], True))"

definition write_index :: "store_env \<Rightarrow> js_string list \<Rightarrow> storage \<Rightarrow> bool store_result" where
  "write_index v names st = store_write v storage_index_key (json_stringify (JArray (map JString names))) st"

definition remove_item :: "store_env \<Rightarrow> js_string \<Rightarrow> storage \<Rightarrow> storage \<times> storage_problem list" where
  "remove_item v key st =
     (if sn_refuses v (Remove_Item key) then (st, [Storage_Refused Op_Clear]) else (om_del key st, []))"

fun strings_of :: "js_value list \<Rightarrow> js_string list" where
  "strings_of [] = []"
| "strings_of (JString s # vs) = s # strings_of vs"
| "strings_of (v # vs) = strings_of vs"

text \<open>\<open>#discardIndex\<close>: reported where the caller reports problems, removed either way.\<close>

definition discard_index :: "store_env \<Rightarrow> bool \<Rightarrow> storage_problem \<Rightarrow> storage \<Rightarrow> (js_string list \<times> bool) store_result" where
  "discard_index v reports problem st =
     (case remove_item v storage_index_key st of (st', ps) \<Rightarrow> (st', (if reports then [problem] else []) @ ps, [], True))"

text \<open>\<open>#readIndex\<close>: the names, and whether the index is intact.\<close>

definition read_index :: "store_env \<Rightarrow> bool \<Rightarrow> storage \<Rightarrow> (js_string list \<times> bool) store_result" where
  "read_index v reports st =
     (if sn_refuses v (Get_Item storage_index_key) then (st, [Storage_Refused Op_Read], [], True)
      else case om_get st storage_index_key of
        None \<Rightarrow> (st, [], [], True)
      | Some text \<Rightarrow>
          (case json_parse text of
             None \<Rightarrow> discard_index v reports Index_Not_Json st
           | Some (JArray vs) \<Rightarrow>
               (let names = js_dedup (strings_of vs); intact = (length names = length vs)
                in (st, if \<not> intact \<and> reports then [Index_Not_Names] else [], names, intact))
           | Some _ \<Rightarrow> discard_index v reports Index_Not_A_List st))"

datatype entry_outcome = Restored configuration | Discarded | Unreadable

text \<open>\<open>#discardEntry\<close>: removed, not only skipped.\<close>

definition discard_entry :: "store_env \<Rightarrow> js_string \<Rightarrow> storage_problem \<Rightarrow> storage \<Rightarrow> entry_outcome store_result" where
  "discard_entry v name problem st =
     (case remove_item v (storage_entry_key name) st of (st', ps) \<Rightarrow> (st', problem # ps, Discarded))"

text \<open>\<open>#restore\<close>.\<close>

definition restore_entry :: "store_env \<Rightarrow> js_string \<Rightarrow> storage \<Rightarrow> entry_outcome store_result" where
  "restore_entry v name st =
     (if sn_refuses v (Get_Item (storage_entry_key name)) then (st, [Storage_Refused Op_Read], Unreadable)
      else case om_get st (storage_entry_key name) of
        None \<Rightarrow> (st, [], Discarded)
      | Some text \<Rightarrow>
          (case json_parse text of
             None \<Rightarrow> discard_entry v name (Entry_Not_Json name) st
           | Some parsed \<Rightarrow>
               (case normalize_configuration (sn_canon v) (JString name) parsed of
                  Inr c \<Rightarrow> (st, [], Restored c)
                | Inl e \<Rightarrow> discard_entry v name (Entry_Invalid name) st)))"

section \<open>The store\<close>

fun load_names :: "store_env \<Rightarrow> js_string list \<Rightarrow> storage \<Rightarrow> (configuration list \<times> js_string list) store_result" where
  "load_names v [] st = (st, [], [], [])"
| "load_names v (n # ns) st =
     (case restore_entry v n st of (st1, ps1, outcome) \<Rightarrow>
      case load_names v ns st1 of (st2, ps2, cs, kept) \<Rightarrow>
        (st2, ps1 @ ps2,
         (case outcome of Restored c \<Rightarrow> c # cs | _ \<Rightarrow> cs),
         (if outcome = Discarded then kept else n # kept)))"

definition store_load :: "store_env \<Rightarrow> storage \<Rightarrow> configuration list store_result" where
  "store_load v st =
     (case read_index v True st of (st1, ps1, names, intact) \<Rightarrow>
      case load_names v names st1 of (st2, ps2, cs, kept) \<Rightarrow>
        if \<not> intact \<or> length kept \<noteq> length names
        then (case write_index v kept st2 of (st3, ps3, ok) \<Rightarrow> (st3, ps1 @ ps2 @ ps3, cs))
        else (st2, ps1 @ ps2, cs))"

text \<open>\<open>find\<close> reports nothing and changes nothing; a call that is refused finds nothing.\<close>

definition store_find :: "store_env \<Rightarrow> js_string \<Rightarrow> storage \<Rightarrow> configuration option" where
  "store_find v name st =
     (if sn_refuses v (Get_Item storage_index_key) then None
      else case json_parse (case om_get st storage_index_key of None \<Rightarrow> Json (JArray []) | Some text \<Rightarrow> text) of
        Some (JArray vs) \<Rightarrow>
          if JString name \<notin> set vs then None
          else if sn_refuses v (Get_Item (storage_entry_key name)) then None
          else (case om_get st (storage_entry_key name) of
                  None \<Rightarrow> None
                | Some text \<Rightarrow>
                    (case json_parse text of
                       None \<Rightarrow> None
                     | Some parsed \<Rightarrow>
                         (case normalize_configuration (sn_canon v) (JString name) parsed of
                            Inr c \<Rightarrow> Some c | Inl e \<Rightarrow> None)))
      | _ \<Rightarrow> None)"

definition store_remove :: "store_env \<Rightarrow> js_string \<Rightarrow> storage \<Rightarrow> storage \<times> storage_problem list" where
  "store_remove v name st =
     (case read_index v False st of (st1, ps1, names, intact) \<Rightarrow>
        if name \<notin> set names then (st1, ps1)
        else (case write_index v (js_remove name names) st1 of
                (st2, ps2, ok) \<Rightarrow>
                  if ok then (case remove_item v (storage_entry_key name) st2 of (st3, ps3) \<Rightarrow> (st3, ps1 @ ps2 @ ps3))
                  else (st2, ps1 @ ps2)))"

text \<open>\<open>#keepingStoredResolution\<close>.\<close>

definition keeping_stored_resolution :: "store_env \<Rightarrow> configuration \<Rightarrow> storage \<Rightarrow> configuration" where
  "keeping_stored_resolution v c st =
     (if nc_device c \<noteq> Auto None then c
      else case store_find v (nc_name c) st of
        None \<Rightarrow> c
      | Some stored \<Rightarrow>
          (case nc_device stored of Auto (Some d) \<Rightarrow> c\<lparr>nc_device := nc_device stored\<rparr> | _ \<Rightarrow> c))"

text \<open>\<open>toStorable\<close>: what is infinite is left out, so that the default applies.\<close>

fun finite_limit :: "limit \<Rightarrow> js_value" where
  "finite_limit (Limit i) = js_int i"
| "finite_limit Unlimited = JUndefined"

definition set_prop :: "string \<Rightarrow> js_value \<Rightarrow> js_value \<Rightarrow> js_value" where
  "set_prop k v obj = (case obj of JObject ps \<Rightarrow> JObject (om_set k v ps) | _ \<Rightarrow> obj)"

definition get_prop :: "string \<Rightarrow> js_value \<Rightarrow> js_value" where
  "get_prop k obj = (case obj of JObject ps \<Rightarrow> prop_of ps k | _ \<Rightarrow> JUndefined)"

definition to_storable :: "configuration \<Rightarrow> js_value" where
  "to_storable c =
     (let opts = to_setup_options c
      in set_prop ''remember'' (JBool True)
           (set_prop ''maxTabs'' (finite_limit (nc_max_tabs c))
             (set_prop ''connection''
               (set_prop ''maxAttempts'' (finite_limit (cs_max_attempts (nc_connection c))) (get_prop ''connection'' opts))
               opts)))"

definition list_name :: "store_env \<Rightarrow> js_string \<Rightarrow> storage \<Rightarrow> storage \<times> storage_problem list" where
  "list_name v name st =
     (case read_index v False st of (st1, ps1, names, intact) \<Rightarrow>
        if intact \<and> name \<in> set names then (st1, ps1)
        else (case write_index v (if name \<in> set names then names else names @ [name]) st1 of
                (st2, ps2, ok) \<Rightarrow> (st2, ps1 @ ps2)))"

definition store_save :: "store_env \<Rightarrow> configuration \<Rightarrow> storage \<Rightarrow> storage \<times> storage_problem list" where
  "store_save v c st =
     (if \<not> nc_remember c then store_remove v (nc_name c) st
      else (case store_write v (storage_entry_key (nc_name c))
              (json_stringify (to_storable (keeping_stored_resolution v c st))) st of
              (st1, ps1, ok) \<Rightarrow>
                if ok then (case list_name v (nc_name c) st1 of (st2, ps2) \<Rightarrow> (st2, ps1 @ ps2)) else (st1, ps1)))"

lemmas read_index_defs = read_index_def discard_index_def
lemmas restore_entry_defs = restore_entry_def discard_entry_def

section \<open>What is stored is what was set up\<close>

lemma json_image_int [simp]: "json_image (js_int i) = js_int i" "is_json (js_int i)"
  by (simp_all add: js_int_def)

lemma json_image_device: "json_image (to_device_options d) = to_device_options d" "is_json (to_device_options d)"
proof -
  have r: "json_image (resolved_options r) = resolved_options r \<and> is_json (resolved_options r)" for r
    by (cases r) simp_all
  show "json_image (to_device_options d) = to_device_options d" "is_json (to_device_options d)"
    by (cases d rule: to_device_options.cases; simp add: r)+
qed

lemma default_limit_valid [simp]: "limit_between low high Unlimited" by simp

text \<open>What is left out is what the default says again.\<close>

lemma stored_connection_roundtrip:
  assumes "valid_connection c"
  shows "\<exists>ps. json_image (set_prop ''maxAttempts'' (finite_limit (cs_max_attempts c)) (JObject
        [(''initialDelayMs'', js_int (cs_initial_delay c)), (''factor'', JNumber (Finite (cs_factor c))),
         (''maxDelayMs'', js_int (cs_max_delay c)), (''jitter'', JNumber (Finite (cs_jitter c))),
         (''maxAttempts'', limit_value (cs_max_attempts c)), (''stableAfterMs'', js_int (cs_stable_after c)),
         (''openTimeoutMs'', js_int (cs_open_timeout c)), (''writeTimeoutMs'', js_int (cs_write_timeout c)),
         (''maxWriteChunkBytes'', js_int (cs_max_chunk c)), (''autoReconnect'', JBool (cs_auto_reconnect c))])) = JObject ps
      \<and> normalize_connection ps = Inr c"
proof (cases "cs_max_attempts c")
  case (Limit n)
  then show ?thesis using assms
    by (simp add: set_prop_def normalize_connection_def Let_def valid_connection_def int_opt.read_write
        limit_opt.read_write [of _ _ "Limit n", simplified])
next
  case Unlimited
  then show ?thesis using assms
    by (simp add: set_prop_def normalize_connection_def Let_def valid_connection_def int_opt.read_write or_default_def
        default_connection_def del: or_default_values)
qed

lemma storable_restores:
  assumes "valid_configuration canon c" and "canonical_labels canon" and "nc_remember c"
  shows "normalize_configuration canon (JString (nc_name c)) (json_image (to_storable c)) = Inr c"
proof -
  have enc: "es_encoding (nc_encoding c) \<noteq> []" "canon (es_encoding (nc_encoding c)) = Some (es_encoding (nc_encoding c))"
    using assms by (auto simp: valid_configuration_def canonical_labels_def)
  obtain ps where ps: "json_image (set_prop ''maxAttempts'' (finite_limit (cs_max_attempts (nc_connection c)))
      (get_prop ''connection'' (to_setup_options c))) = JObject ps" "normalize_connection ps = Inr (nc_connection c)"
    using stored_connection_roundtrip [of "nc_connection c"] assms(1)
    by (auto simp: valid_configuration_def to_setup_options_def get_prop_def)
  define conn where "conn = set_prop ''maxAttempts'' (finite_limit (cs_max_attempts (nc_connection c)))
      (get_prop ''connection'' (to_setup_options c))"
  have obj: "is_json conn" by (simp add: conn_def set_prop_def to_setup_options_def get_prop_def)
  have stored: "to_storable c = set_prop ''remember'' (JBool True) (set_prop ''maxTabs'' (finite_limit (nc_max_tabs c))
      (set_prop ''connection'' conn (to_setup_options c)))"
    by (simp add: to_storable_def conn_def Let_def)
  note roundtrips = name_roundtrip device_roundtrip serial_roundtrip int_opt.read_write limit_opt.read_write
  note facts = assms(1,3) enc ps(2) ps(1) [folded conn_def] obj json_image_device
  show ?thesis
  proof (cases "nc_max_tabs c")
    case (Limit n)
    then show ?thesis using facts limit_opt.read_write [of _ _ "Limit n"]
      by (simp add: stored set_prop_def to_setup_options_def normalize_configuration_def
          valid_configuration_def optional_object_def roundtrips normalize_receive_def valid_receive_def
          normalize_encoding_def validate_encoding_label_def)
  next
    case Unlimited
    then show ?thesis using facts
      by (simp add: stored set_prop_def to_setup_options_def normalize_configuration_def
          valid_configuration_def optional_object_def roundtrips normalize_receive_def valid_receive_def
          normalize_encoding_def validate_encoding_label_def or_default_def)
  qed
qed

section \<open>What the storage remembers\<close>

text \<open>
  The abstract state of the store: the configurations by name. \<open>names_of\<close> is what the index lists,
  \<open>entry_of\<close> the configuration under a name, and \<open>remembered\<close> the map the two make.
\<close>

definition names_of :: "storage \<Rightarrow> js_string list" where
  "names_of st = (case om_get st storage_index_key of Some (Json (JArray vs)) \<Rightarrow> js_dedup (strings_of vs) | _ \<Rightarrow> [])"

definition entry_of :: "(js_string \<Rightarrow> js_string option) \<Rightarrow> storage \<Rightarrow> js_string \<Rightarrow> configuration option" where
  "entry_of canon st n = (case om_get st (storage_entry_key n) of
     Some (Json parsed) \<Rightarrow> (case normalize_configuration canon (JString n) parsed of Inr c \<Rightarrow> Some c | Inl e \<Rightarrow> None)
   | _ \<Rightarrow> None)"

definition remembered :: "(js_string \<Rightarrow> js_string option) \<Rightarrow> storage \<Rightarrow> js_string \<Rightarrow> configuration option" where
  "remembered canon st n = (if n \<in> set (names_of st) then entry_of canon st n else None)"

definition never_refuses :: "store_env \<Rightarrow> bool" where
  "never_refuses v \<longleftrightarrow> (\<forall>call. \<not> sn_refuses v call)"

lemma never_refusesD: "never_refuses v \<Longrightarrow> sn_refuses v call = False"
  by (simp add: never_refuses_def)

lemma entry_key_neq [simp]: "storage_entry_key n \<noteq> storage_index_key" "storage_index_key \<noteq> storage_entry_key n"
  by (simp_all add: storage_entry_key_def storage_index_key_def)

lemma entry_key_eq [simp]: "storage_entry_key n = storage_entry_key m \<longleftrightarrow> n = m"
  by (simp add: storage_entry_key_def)

lemma strings_of_strings [simp]: "strings_of (map JString ns) = ns"
  by (induction ns) simp_all

lemma json_strings [simp]: "json_items (map JString ns) = map JString ns"
  by (induction ns) simp_all

lemma in_strings_of: "JString n \<in> set vs \<longleftrightarrow> n \<in> set (strings_of vs)"
  by (induction vs rule: strings_of.induct) auto

lemma length_strings_of: "length (strings_of vs) \<le> length vs"
  by (induction vs rule: strings_of.induct) auto

lemma strings_of_all: "length (strings_of vs) = length vs \<Longrightarrow> map JString (strings_of vs) = vs"
proof (induction vs)
  case (Cons v vs)
  then show ?case using length_strings_of [of vs] by (cases v) simp_all
qed simp

lemma length_js_dedup: "length (js_dedup xs) \<le> length xs"
  by (induction xs) (auto intro: le_trans [OF length_filter_le])

lemma js_dedup_all: "length (js_dedup xs) = length xs \<Longrightarrow> js_dedup xs = xs"
proof (induction xs)
  case (Cons x xs)
  have "length (filter (\<lambda>y. y \<noteq> x) (js_dedup xs)) = length xs" using Cons.prems by simp
  moreover have "length (filter (\<lambda>y. y \<noteq> x) (js_dedup xs)) \<le> length (js_dedup xs)" by simp
  ultimately have len: "length (js_dedup xs) = length xs" "length (filter (\<lambda>y. y \<noteq> x) (js_dedup xs)) = length (js_dedup xs)"
    using length_js_dedup [of xs] by linarith+
  then have "filter (\<lambda>y. y \<noteq> x) (js_dedup xs) = js_dedup xs" by (metis filter_id_conv length_filter_less less_irrefl)
  then show ?case using Cons.IH len(1) by simp
qed simp

lemma intact_names:
  assumes "length (js_dedup (strings_of vs)) = length vs"
  shows "map JString (js_dedup (strings_of vs)) = vs"
proof -
  have "length (js_dedup (strings_of vs)) = length (strings_of vs)" "length (strings_of vs) = length vs"
    using assms length_js_dedup [of "strings_of vs"] length_strings_of [of vs] by linarith+
  then show ?thesis by (simp add: js_dedup_all strings_of_all)
qed

lemma distinct_names_of [simp]: "distinct (names_of st)"
  by (simp add: names_of_def split: option.split stored_text.split js_value.split)

lemma names_of_written [simp]:
  "distinct ns \<Longrightarrow> names_of (om_set storage_index_key (json_stringify (JArray (map JString ns))) st) = ns"
  by (simp add: names_of_def json_stringify_def js_dedup_id)

lemma names_of_other [simp]:
  "names_of (om_set (storage_entry_key n) t st) = names_of st" "names_of (om_del (storage_entry_key n) st) = names_of st"
  by (simp_all add: names_of_def)

lemma names_of_deleted [simp]: "names_of (om_del storage_index_key st) = []"
  by (simp add: names_of_def)

lemma entry_of_index [simp]:
  "entry_of canon (om_set storage_index_key t st) n = entry_of canon st n"
  "entry_of canon (om_del storage_index_key st) n = entry_of canon st n"
  by (simp_all add: entry_of_def)

lemma entry_of_deleted [simp]:
  "entry_of canon (om_del (storage_entry_key n) st) m = (if m = n then None else entry_of canon st m)"
  by (simp add: entry_of_def)

lemma entry_of_written:
  "entry_of canon (om_set (storage_entry_key n) (Json p) st) m =
     (if m = n then (case normalize_configuration canon (JString n) p of Inr c \<Rightarrow> Some c | Inl e \<Rightarrow> None)
      else entry_of canon st m)"
  by (simp add: entry_of_def)

lemma entry_of_valid:
  "entry_of canon st n = Some c \<Longrightarrow> valid_configuration canon c \<and> nc_name c = n"
  by (auto simp: entry_of_def split: option.splits stored_text.splits sum.splits dest: normalized_results)

lemma find_remembered: "never_refuses v \<Longrightarrow> store_find v n st = remembered (sn_canon v) st n"
proof -
  assume quiet: "never_refuses v"
  have entry: "(case om_get st (storage_entry_key n) of None \<Rightarrow> None
      | Some text \<Rightarrow> (case json_parse text of None \<Rightarrow> None
         | Some parsed \<Rightarrow> (case normalize_configuration (sn_canon v) (JString n) parsed of Inr c \<Rightarrow> Some c | Inl e \<Rightarrow> None))) =
     entry_of (sn_canon v) st n"
    by (simp add: entry_of_def split: option.split stored_text.split)
  show ?thesis
  proof (cases "om_get st storage_index_key")
    case (Some t)
    show ?thesis
    proof (cases t)
      case (Json p)
      then show ?thesis using quiet Some entry
        by (cases p) (simp_all add: store_find_def remembered_def names_of_def never_refusesD in_strings_of)
    qed (use quiet Some in \<open>simp add: store_find_def remembered_def names_of_def never_refusesD\<close>)
  qed (use quiet in \<open>simp add: store_find_def remembered_def names_of_def never_refusesD\<close>)
qed

text \<open>Whatever the storage refuses, reading the index changes neither a name that counts nor an entry.\<close>

lemma read_index_keeps:
  assumes "read_index v r st = (st', ps, names, intact)"
  shows "names_of st' = names_of st" and "entry_of canon st' = entry_of canon st"
    and "sn_refuses v (Get_Item storage_index_key) = False \<Longrightarrow> names = names_of st"
    and "sn_refuses v (Get_Item storage_index_key) \<Longrightarrow> names = [] \<and> intact \<and> st' = st"
    and "distinct names"
    and "never_refuses v \<Longrightarrow> intact \<Longrightarrow> om_get st' storage_index_key \<in> {None, Some (json_stringify (JArray (map JString names)))}"
    and "never_refuses v \<Longrightarrow> \<not> r \<Longrightarrow> ps = []"
proof -
  let ?Goal = "names_of st' = names_of st \<and> entry_of canon st' = entry_of canon st \<and>
    (if sn_refuses v (Get_Item storage_index_key) then names = [] \<and> intact \<and> st' = st else names = names_of st) \<and>
    distinct names \<and>
    (never_refuses v \<longrightarrow> intact \<longrightarrow> om_get st' storage_index_key \<in> {None, Some (json_stringify (JArray (map JString names)))}) \<and>
    (never_refuses v \<longrightarrow> \<not> r \<longrightarrow> ps = [])"
  have ?Goal
  proof (cases "sn_refuses v (Get_Item storage_index_key)")
    case True
    then show ?thesis using assms by (auto simp: read_index_defs never_refusesD)
  next
    case read: False
    show ?thesis
    proof (cases "om_get st storage_index_key")
      case None
      then show ?thesis using assms read by (auto simp: read_index_defs names_of_def)
    next
      case (Some t)
      have discarded: ?Goal if "names_of st = []"
        "read_index v r st = (case remove_item v storage_index_key st of (s', qs) \<Rightarrow> (s', (if r then [q] else []) @ qs, [], True))" for q
        using that assms by (auto simp: remove_item_def never_refusesD fun_eq_iff read split: if_splits)
      show ?thesis
      proof (cases t)
        case Not_Json
        then show ?thesis using read Some by (intro discarded) (simp_all add: read_index_defs names_of_def Let_def)
      next
        case (Json p)
        show ?thesis
        proof (cases "\<exists>vs. p = JArray vs")
          case True
          then obtain vs where vs: "p = JArray vs" by blast
          have names: "names = js_dedup (strings_of vs)" "st' = st" "intact \<longleftrightarrow> length names = length vs" "ps = (if \<not> intact \<and> r then [Index_Not_Names] else [])"
            using assms read Some Json vs by (auto simp: read_index_defs Let_def)
          have "json_items vs = vs" if "length (js_dedup (strings_of vs)) = length vs"
            using intact_names [OF that] json_strings by metis
          then show ?thesis using names read Some Json vs intact_names [of vs]
            by (auto simp: names_of_def json_stringify_def)
        next
          case False
          then show ?thesis using read Some Json
            by (intro discarded; cases p) (simp_all add: read_index_defs names_of_def Let_def)
        qed
      qed
    qed
  qed
  then show "names_of st' = names_of st" and "entry_of canon st' = entry_of canon st"
    and "sn_refuses v (Get_Item storage_index_key) = False \<Longrightarrow> names = names_of st"
    and "sn_refuses v (Get_Item storage_index_key) \<Longrightarrow> names = [] \<and> intact \<and> st' = st"
    and "distinct names"
    and "never_refuses v \<Longrightarrow> intact \<Longrightarrow> om_get st' storage_index_key \<in> {None, Some (json_stringify (JArray (map JString names)))}"
    and "never_refuses v \<Longrightarrow> \<not> r \<Longrightarrow> ps = []"
    by (auto split: if_splits)
qed

text \<open>An entry that is discarded was not a configuration.\<close>

lemma restore_entry_keeps:
  assumes "restore_entry v n st = (st', ps, outcome)"
  shows "om_get st' storage_index_key = om_get st storage_index_key"
    and "entry_of (sn_canon v) st' = entry_of (sn_canon v) st"
    and "outcome = Discarded \<Longrightarrow> entry_of (sn_canon v) st n = None"
    and "outcome = Restored c \<Longrightarrow> entry_of (sn_canon v) st n = Some c"
    and "never_refuses v \<Longrightarrow> outcome \<noteq> Unreadable"
proof -
  have discarded: "entry_of (sn_canon v) st n = None \<Longrightarrow> remove_item v (storage_entry_key n) st = (s', qs) \<Longrightarrow>
      om_get s' storage_index_key = om_get st storage_index_key \<and> entry_of (sn_canon v) s' = entry_of (sn_canon v) st" for s' qs
    by (auto simp: remove_item_def fun_eq_iff split: if_splits)
  have "om_get st' storage_index_key = om_get st storage_index_key \<and> entry_of (sn_canon v) st' = entry_of (sn_canon v) st \<and>
    (case outcome of Discarded \<Rightarrow> entry_of (sn_canon v) st n = None | Restored c \<Rightarrow> entry_of (sn_canon v) st n = Some c
      | Unreadable \<Rightarrow> \<not> never_refuses v)"
  proof (cases "sn_refuses v (Get_Item (storage_entry_key n))")
    case True
    then show ?thesis using assms by (auto simp: restore_entry_defs never_refuses_def)
  next
    case read: False
    show ?thesis
    proof (cases "om_get st (storage_entry_key n)")
      case None
      then show ?thesis using assms read by (auto simp: restore_entry_defs entry_of_def)
    next
      case (Some t)
      show ?thesis
      proof (cases t)
        case Not_Json
        then have "entry_of (sn_canon v) st n = None" using Some by (simp add: entry_of_def)
        then show ?thesis using assms read Some Not_Json discarded
          by (auto simp: restore_entry_defs Let_def split: prod.splits)
      next
        case (Json p)
        show ?thesis
        proof (cases "normalize_configuration (sn_canon v) (JString n) p")
          case (Inl e)
          then have "entry_of (sn_canon v) st n = None" using Some Json by (simp add: entry_of_def)
          then show ?thesis using assms read Some Json Inl discarded
            by (auto simp: restore_entry_defs Let_def split: prod.splits)
        next
          case (Inr c)
          then show ?thesis using assms read Some Json by (auto simp: restore_entry_defs Let_def entry_of_def)
        qed
      qed
    qed
  qed
  then show "om_get st' storage_index_key = om_get st storage_index_key"
    and "entry_of (sn_canon v) st' = entry_of (sn_canon v) st"
    and "outcome = Discarded \<Longrightarrow> entry_of (sn_canon v) st n = None"
    and "outcome = Restored c \<Longrightarrow> entry_of (sn_canon v) st n = Some c"
    and "never_refuses v \<Longrightarrow> outcome \<noteq> Unreadable"
    by auto
qed


lemma load_names_keeps:
  "load_names v ns st = (st', ps, cs, kept) \<Longrightarrow>
     om_get st' storage_index_key = om_get st storage_index_key \<and>
     entry_of (sn_canon v) st' = entry_of (sn_canon v) st \<and>
     set kept \<subseteq> set ns \<and> (distinct ns \<longrightarrow> distinct kept) \<and>
     {n \<in> set ns. entry_of (sn_canon v) st n \<noteq> None} \<subseteq> set kept \<and>
     (never_refuses v \<longrightarrow> kept = filter (\<lambda>n. entry_of (sn_canon v) st n \<noteq> None) ns \<and>
       cs = map (\<lambda>n. the (entry_of (sn_canon v) st n)) kept)"
proof (induction ns arbitrary: st ps cs kept)
  case (Cons n ns)
  obtain st1 ps1 outcome where one: "restore_entry v n st = (st1, ps1, outcome)" by (metis prod_cases3)
  obtain ps2 cs2 kept2 where rest: "load_names v ns st1 = (st', ps2, cs2, kept2)"
    using Cons.prems one by (auto split: prod.splits)
  have out: "cs = (case outcome of Restored c \<Rightarrow> c # cs2 | _ \<Rightarrow> cs2)" "kept = (if outcome = Discarded then kept2 else n # kept2)"
    using Cons.prems one rest by (auto split: prod.splits)
  note ih = Cons.IH [OF rest]
  note keeps = restore_entry_keeps [OF one]
  show ?case
  proof (cases outcome)
    case (Restored c)
    then show ?thesis using ih keeps(1,2) keeps(4) [OF Restored] out by auto
  next
    case Discarded
    then show ?thesis using ih keeps(1-3) out by auto
  next
    case Unreadable
    then show ?thesis using ih keeps(1,2,5) out by auto
  qed
qed auto


lemma write_index_keeps:
  assumes "write_index v ns st = (st', ps, ok)" and "distinct ns"
  shows "ok \<Longrightarrow> names_of st' = ns" and "\<not> ok \<Longrightarrow> st' = st" and "entry_of canon st' = entry_of canon st"
    and "never_refuses v \<Longrightarrow> ok \<and> ps = [] \<and> om_get st' storage_index_key = Some (json_stringify (JArray (map JString ns)))"
  using assms by (auto simp: write_index_def store_write_def never_refuses_def fun_eq_iff split: if_splits)

lemma remembered_cong:
  "names_of st' = names_of st \<Longrightarrow> entry_of canon st' = entry_of canon st \<Longrightarrow> remembered canon st' = remembered canon st"
  by (simp add: remembered_def fun_eq_iff)

lemma remembered_relisted:
  assumes "entry_of canon st' = entry_of canon st" and "set (names_of st') \<subseteq> set (names_of st)"
    and "{n \<in> set (names_of st). entry_of canon st n \<noteq> None} \<subseteq> set (names_of st')"
  shows "remembered canon st' = remembered canon st"
proof (rule ext)
  fix n show "remembered canon st' n = remembered canon st n"
    using assms by (cases "entry_of canon st n") (auto simp: remembered_def)
qed

section \<open>Loading\<close>

text \<open>
  Loading forgets nothing. Whatever the storage holds and whichever of its calls it refuses, every
  configuration that could be restored before the load can be restored after it: what is removed or taken
  off the list is corrupt, or gone already.
\<close>

theorem load_forgets_nothing:
  "remembered (sn_canon v) (fst (store_load v st)) = remembered (sn_canon v) st"
proof -
  obtain st1 ps1 names intact where index: "read_index v True st = (st1, ps1, names, intact)" by (metis prod_cases4)
  obtain st2 ps2 cs kept where rest: "load_names v names st1 = (st2, ps2, cs, kept)" by (metis prod_cases4)
  note keeps = read_index_keeps [OF index] and load = load_names_keeps [OF rest]
  have names2: "names_of st2 = names_of st" using load keeps(1) by (simp add: names_of_def)
  have entries2: "entry_of (sn_canon v) st2 = entry_of (sn_canon v) st" using load keeps(2) by simp
  have same: ?thesis if "fst (store_load v st) = st2" using remembered_cong [OF names2 entries2] that by simp
  show ?thesis
  proof (cases "\<not> intact \<or> length kept \<noteq> length names")
    case True
    obtain st3 ps3 ok where wrote: "write_index v kept st2 = (st3, ps3, ok)" by (metis prod_cases3)
    have final: "fst (store_load v st) = st3" using index rest wrote True by (simp add: store_load_def)
    have d: "distinct kept" using load keeps(5) by simp
    show ?thesis
    proof (cases ok)
      case True
      have "names = names_of st" using keeps(3,4) \<open>\<not> intact \<or> length kept \<noteq> length names\<close> rest by (cases "sn_refuses v (Get_Item storage_index_key)") auto
      then show ?thesis unfolding final
        using remembered_relisted [of "sn_canon v" st3 st] write_index_keeps(1,3) [OF wrote d] True entries2 load keeps(2) by simp
    next
      case False
      then show ?thesis using same final write_index_keeps(2) [OF wrote d] by simp
    qed
  next
    case False
    then show ?thesis using same index rest by (simp add: store_load_def)
  qed
qed



section \<open>Saving and removing\<close>

lemma list_name_keeps:
  assumes "list_name v n st = (st', ps)" and "never_refuses v"
  shows "set (names_of st') = insert n (set (names_of st)) \<and> entry_of canon st' = entry_of canon st \<and> ps = []"
proof -
  obtain st1 ps1 names intact where index: "read_index v False st = (st1, ps1, names, intact)" by (metis prod_cases4)
  let ?ns = "if n \<in> set names then names else names @ [n]"
  obtain st2 ps2 ok where wrote: "write_index v ?ns st1 = (st2, ps2, ok)" by (metis prod_cases3)
  note keeps = read_index_keeps [OF index]
  have names: "names = names_of st" "ps1 = []" using keeps(3,7) assms(2) never_refusesD by blast+
  have d: "distinct ?ns" using keeps(5) by simp
  show ?thesis
  proof (cases "intact \<and> n \<in> set names")
    case True
    then show ?thesis using assms(1) index keeps(1,2) names by (auto simp: list_name_def)
  next
    case False
    have "list_name v n st = (if intact \<and> n \<in> set names then (st1, ps1)
        else (case write_index v ?ns st1 of (st2, ps2, ok) \<Rightarrow> (st2, ps1 @ ps2)))"
      by (simp add: list_name_def index)
    also have "\<dots> = (st2, ps1 @ ps2)" unfolding if_not_P [OF False] wrote by simp
    finally have "st' = st2" "ps = ps1 @ ps2" using assms(1) by simp_all
    then show ?thesis using write_index_keeps [OF wrote d] assms(2) keeps(2) names by auto
  qed
qed

lemma remove_keeps:
  assumes "store_remove v n st = (st', ps)"
  shows "m \<noteq> n \<Longrightarrow> remembered canon st' m = remembered canon st m"
    and "never_refuses v \<Longrightarrow> remembered canon st' n = None"
proof -
  obtain st1 ps1 names intact where index: "read_index v False st = (st1, ps1, names, intact)" by (metis prod_cases4)
  note keeps = read_index_keeps [OF index]
  have rem1: "remembered canon st1 = remembered canon st" by (rule remembered_cong [OF keeps(1,2)])
  obtain st2 ps2 ok where wrote: "write_index v (js_remove n names) st1 = (st2, ps2, ok)" by (metis prod_cases3)
  have d: "distinct (js_remove n names)" using keeps(5) by simp
  note w = write_index_keeps [OF wrote d]
  obtain st3 ps3 where gone: "remove_item v (storage_entry_key n) st2 = (st3, ps3)" by fastforce
  have g: "names_of st3 = names_of st2" "m \<noteq> n \<Longrightarrow> entry_of canon st3 m = entry_of canon st2 m" for m
    using gone by (auto simp: remove_item_def split: if_splits)
  have st': "st' = (if n \<notin> set names then st1 else if ok then st3 else st2)"
    using assms index wrote gone by (auto simp: store_remove_def)
  have names: "n \<in> set names \<Longrightarrow> names = names_of st" using keeps(3,4) by fastforce
  show "remembered canon st' m = remembered canon st m" if "m \<noteq> n"
  proof (cases "n \<in> set names \<and> ok")
    case True
    then show ?thesis using st' g that w(1,3) names keeps(2) by (auto simp: remembered_def)
  next
    case False
    then show ?thesis using st' rem1 w(2) by (cases "n \<in> set names") auto
  qed
  show "remembered canon st' n = None" if "never_refuses v"
  proof -
    have "names = names_of st" "ok" using keeps(3) w(4) never_refusesD [OF that] that by auto
    then show ?thesis using st' g(1) w(1) keeps(1) by (auto simp: remembered_def)
  qed
qed


text \<open>The device an unresolved automatic configuration is stored with.\<close>

fun kept_resolution :: "configuration \<Rightarrow> configuration option \<Rightarrow> configuration" where
  "kept_resolution c None = c"
| "kept_resolution c (Some old) =
     (case nc_device old of Auto (Some d) \<Rightarrow> if nc_device c = Auto None then c\<lparr>nc_device := Auto (Some d)\<rparr> else c | _ \<Rightarrow> c)"

lemma kept_resolution_same [simp]:
  "nc_name (kept_resolution c old) = nc_name c" "nc_remember (kept_resolution c old) = nc_remember c"
  by (cases old; auto split: device_filter.split option.split)+

lemma kept_resolution_valid:
  assumes "valid_configuration canon c" and "case old of None \<Rightarrow> True | Some c' \<Rightarrow> valid_configuration canon c'"
  shows "valid_configuration canon (kept_resolution c old)"
  using assms by (cases old) (auto simp: valid_configuration_def split: device_filter.split option.split)

lemma keeping_is_kept:
  "never_refuses v \<Longrightarrow> keeping_stored_resolution v c st = kept_resolution c (remembered (sn_canon v) st (nc_name c))"
  by (cases "remembered (sn_canon v) st (nc_name c)")
     (auto simp: keeping_stored_resolution_def find_remembered split: device_filter.split option.split)

text \<open>
  C37. The store is a map from names to configurations. With a storage that answers, a lookup returns what
  the map holds; saving a valid configuration puts it under its name - with the device an earlier
  automatic setup resolved to, if it has none of its own - or removes the name when it is not to be
  remembered; removing takes the name out; and none of them touches another name or has anything to report.
\<close>

theorem store_is_a_map:
  assumes "never_refuses v" and "canonical_labels (sn_canon v)" and "valid_configuration (sn_canon v) c"
  shows "store_find v n st = remembered (sn_canon v) st n \<and>
    remembered (sn_canon v) (fst (store_remove v n st)) = (remembered (sn_canon v) st)(n := None) \<and>
    remembered (sn_canon v) (fst (store_save v c st)) = (remembered (sn_canon v) st)(nc_name c :=
      if nc_remember c then Some (kept_resolution c (remembered (sn_canon v) st (nc_name c))) else None)"
proof (intro conjI)
  show "store_find v n st = remembered (sn_canon v) st n" by (rule find_remembered [OF assms(1)])
  have removed: "remembered (sn_canon v) (fst (store_remove v m st)) = (remembered (sn_canon v) st)(m := None)" for m
    using remove_keeps [of v m st] assms(1) by (cases "store_remove v m st") (auto simp: fun_eq_iff)
  then show "remembered (sn_canon v) (fst (store_remove v n st)) = (remembered (sn_canon v) st)(n := None)" .
  let ?c = "kept_resolution c (remembered (sn_canon v) st (nc_name c))"
  let ?st = "om_set (storage_entry_key (nc_name c)) (json_stringify (to_storable ?c)) st"
  obtain st2 ps2 where listed: "list_name v (nc_name c) ?st = (st2, ps2)" by fastforce
  have "case remembered (sn_canon v) st (nc_name c) of None \<Rightarrow> True | Some c' \<Rightarrow> valid_configuration (sn_canon v) c'"
    by (auto simp: remembered_def entry_of_valid split: option.split if_splits)
  then have valid: "valid_configuration (sn_canon v) ?c" by (rule kept_resolution_valid [OF assms(3)])
  have stored: "normalize_configuration (sn_canon v) (JString (nc_name c)) (json_image (to_storable ?c)) = Inr ?c" if "nc_remember c"
    using storable_restores [OF valid assms(2)] that by simp
  show "remembered (sn_canon v) (fst (store_save v c st)) = (remembered (sn_canon v) st)(nc_name c :=
      if nc_remember c then Some ?c else None)"
  proof (cases "nc_remember c")
    case True
    have "store_save v c st = (st2, ps2)"
      using True listed never_refusesD [OF assms(1)] by (simp add: store_save_def store_write_def keeping_is_kept [OF assms(1)])
    then show ?thesis using True list_name_keeps [OF listed assms(1), of "sn_canon v"] stored
      by (auto simp: fun_eq_iff remembered_def json_stringify_def entry_of_written)
  next
    case False
    then show ?thesis using removed by (simp add: store_save_def)
  qed
qed

section \<open>A read that is refused\<close>

definition sample_labels :: "js_string \<Rightarrow> js_string option" where
  "sample_labels l = (if l = js ''utf-8'' then Some l else None)"

definition sample_configuration :: "string \<Rightarrow> configuration" where
  "sample_configuration n = \<lparr>nc_name = js n, nc_device = Auto None,
     nc_serial = \<lparr>ss_baud_rate = 9600, ss_data_bits = 8, ss_stop_bits = 1, ss_parity = js ''none'',
       ss_buffer_size = 255, ss_flow_control = js ''none''\<rparr>,
     nc_connection = default_connection, nc_encoding = default_encoding, nc_receive = default_receive,
     nc_remember = True, nc_max_tabs = Unlimited\<rparr>"

definition sample_store :: store_env where
  "sample_store = \<lparr>sn_refuses = (\<lambda>call. False), sn_canon = sample_labels\<rparr>"

lemma sample_labels_canonical: "canonical_labels sample_labels"
  by (simp add: canonical_labels_def sample_labels_def)

lemma sample_configuration_valid:
  "valid_name (js n) \<Longrightarrow> valid_configuration sample_labels (sample_configuration n)"
  by (simp add: sample_configuration_def valid_configuration_def valid_serial_def int_between_def bound_defs
      valid_parity_def valid_flow_control_def valid_connection_def default_connection_def valid_receive_def
      default_receive_def default_encoding_def sample_labels_def)

lemma sample_names: "valid_name (js ''a'')" "valid_name (js ''b'')"
  by (simp_all add: valid_name_def max_config_name_length_def is_control_def is_high_def is_low_def)

text \<open>
  A save forgets the others when the list cannot be read. With \<open>a\<close> remembered, saving \<open>b\<close> while the
  storage refuses the read of the index, and nothing else, writes an index of \<open>b\<close> alone: \<open>a\<close> is no longer
  remembered once the storage answers again, although nothing was wrong with it.
\<close>

theorem refused_read_forgets_others:
  "let st = fst (store_save sample_store (sample_configuration ''a'') []);
       refusing = sample_store\<lparr>sn_refuses := (\<lambda>call. call = Get_Item storage_index_key)\<rparr>;
       st' = fst (store_save refusing (sample_configuration ''b'') st)
   in store_find sample_store (js ''a'') st = Some (sample_configuration ''a'') \<and>
      store_find sample_store (js ''a'') st' = None"
proof -
  have quiet: "never_refuses sample_store" and canon: "sn_canon sample_store = sample_labels"
    by (simp_all add: never_refuses_def sample_store_def)
  let ?a = "sample_configuration ''a''" and ?b = "sample_configuration ''b''"
  define st where "st = fst (store_save sample_store ?a [])"
  have a: "nc_name ?a = js ''a''" "nc_remember ?a" "nc_name ?b = js ''b''" "nc_remember ?b" "nc_device ?a = Auto None"
    by (simp_all add: sample_configuration_def)
  have st: "st = [(storage_entry_key (js ''a''), json_stringify (to_storable ?a)),
      (storage_index_key, json_stringify (JArray [JString (js ''a'')]))]"
    by (simp add: st_def store_save_def a store_write_def sample_store_def keeping_stored_resolution_def store_find_def
        list_name_def read_index_defs write_index_def)
  have "entry_of sample_labels st (js ''a'') = Some ?a"
    using storable_restores [OF sample_configuration_valid [OF sample_names(1)] sample_labels_canonical] a
    by (simp add: entry_of_def st json_stringify_def)
  then have "store_find sample_store (js ''a'') st = Some ?a"
    unfolding find_remembered [OF quiet] canon by (simp add: remembered_def st names_of_def json_stringify_def)
  moreover have "js ''a'' \<notin> set (names_of (fst (store_save
      (sample_store\<lparr>sn_refuses := (\<lambda>call. call = Get_Item storage_index_key)\<rparr>) ?b st)))"
    by (simp add: store_save_def a store_write_def sample_store_def list_name_def read_index_defs write_index_def
        names_of_def json_stringify_def)
  ultimately show ?thesis
    unfolding Let_def st_def [symmetric] find_remembered [OF quiet] by (simp add: remembered_def)
qed

section \<open>Instances\<close>

definition sample_storage :: storage where
  "sample_storage = [(storage_index_key, json_stringify (JArray [JString (js ''a''), JNull, JString (js ''b'')])),
     (storage_entry_key (js ''b''), Not_Json)]"


lemma store_is_a_map_witness:
  "store_find sample_store (js ''a'') (fst (store_save sample_store (sample_configuration ''a'') sample_storage)) =
     Some (sample_configuration ''a'')"
proof -
  have quiet: "never_refuses sample_store" and canon: "sn_canon sample_store = sample_labels"
    by (simp_all add: never_refuses_def sample_store_def)
  have valid: "valid_configuration (sn_canon sample_store) (sample_configuration ''a'')"
    unfolding canon by (rule sample_configuration_valid [OF sample_names(1)])
  have labels: "canonical_labels (sn_canon sample_store)" unfolding canon by (rule sample_labels_canonical)
  have before: "remembered sample_labels sample_storage (js ''a'') = None"
    by (simp add: remembered_def entry_of_def sample_storage_def)
  have name: "nc_name (sample_configuration ''a'') = js ''a''" "nc_remember (sample_configuration ''a'')"
    by (simp_all add: sample_configuration_def)
  show ?thesis using store_is_a_map [OF quiet labels valid] before by (simp add: canon name del: js_simps)
qed

end
