(* ===== verification/Held_Lock.thy ===== *)
theory Held_Lock
  imports SB_Prelude
begin

text \<open>
  A Web Lock requested and held for as long as a context wants it (\<open>core/held-lock.ts\<close>): the life of one
  request after the other, with what the browser says of it as operations.

  \<open>'h\<close> is where the \<open>hold\<close> callback stands while the lock is held. A request that is not \<open>No_Request\<close> is
  the code's \<open>#abort\<close>; \<open>Settled\<close> and \<open>Handled\<close> are the two microtasks between the end of a request and
  \<open>#abort = undefined\<close>. The lock is the context's exactly while the request is \<open>Holding\<close>.
\<close>

datatype outcome = Fulfilled | Failed | Aborted

datatype 'h request = No_Request | Queued | Holding 'h | Settled outcome | Handled

record 'h held_lock =
  hl_stopped :: bool
  hl_request :: "'h request"
  hl_retry :: bool

definition hl_init :: "'h held_lock" where
  "hl_init = \<lparr>hl_stopped = False, hl_request = No_Request, hl_retry = False\<rparr>"

definition hl_start :: "'h held_lock \<Rightarrow> 'h held_lock" where
  "hl_start l = (if hl_stopped l \<or> hl_request l \<noteq> No_Request then l else l\<lparr>hl_request := Queued\<rparr>)"

text \<open>Aborting a request that is queued has the browser withdraw it; it does nothing to one that is held.\<close>

definition hl_stop :: "'h held_lock \<Rightarrow> 'h held_lock" where
  "hl_stop l = (if hl_stopped l then l else l\<lparr>hl_stopped := True, hl_retry := False\<rparr>)"

text \<open>Granted after \<open>stop()\<close>: returning lets the lock go at once.\<close>

definition hl_granted :: "'h \<Rightarrow> 'h held_lock \<Rightarrow> 'h held_lock" where
  "hl_granted h l =
     (if hl_request l = Queued
      then l\<lparr>hl_request := (if hl_stopped l then Settled Fulfilled else Holding h)\<rparr> else l)"

definition hl_refused :: "'h held_lock \<Rightarrow> 'h held_lock" where
  "hl_refused l = (if hl_request l = Queued then l\<lparr>hl_request := Settled Failed\<rparr> else l)"

definition hl_withdrawn :: "'h held_lock \<Rightarrow> 'h held_lock" where
  "hl_withdrawn l = (if hl_request l = Queued \<and> hl_stopped l then l\<lparr>hl_request := Settled Aborted\<rparr> else l)"

definition hl_holding :: "'h held_lock \<Rightarrow> 'h option" where
  "hl_holding l = (case hl_request l of Holding h \<Rightarrow> Some h | _ \<Rightarrow> None)"

text \<open>Where the callback goes on, and where it ends.\<close>

definition hl_goes_on :: "'h \<Rightarrow> 'h held_lock \<Rightarrow> 'h held_lock" where
  "hl_goes_on h l = (if hl_holding l \<noteq> None then l\<lparr>hl_request := Holding h\<rparr> else l)"

definition hl_hold_ends :: "outcome \<Rightarrow> 'h held_lock \<Rightarrow> 'h held_lock" where
  "hl_hold_ends r l = (if hl_holding l \<noteq> None then l\<lparr>hl_request := Settled r\<rparr> else l)"

text \<open>The handler of a rejection, and the \<open>finally\<close> after it. Whether the failure is reported, and whether the
  request has ended, is said beside the new state.\<close>

definition hl_handle :: "'h held_lock \<Rightarrow> 'h held_lock \<times> bool" where
  "hl_handle l = (case hl_request l of
     Settled r \<Rightarrow>
       if r = Failed \<and> \<not> hl_stopped l then (l\<lparr>hl_request := Handled, hl_retry := True\<rparr>, True)
       else (l\<lparr>hl_request := Handled\<rparr>, False)
   | _ \<Rightarrow> (l, False))"

definition hl_finish :: "'h held_lock \<Rightarrow> 'h held_lock \<times> bool" where
  "hl_finish l = (if hl_request l = Handled then (l\<lparr>hl_request := No_Request\<rparr>, True) else (l, False))"

text \<open>The timer of the pause. No timer fires between the two microtasks of a request that has ended.\<close>

definition hl_retry_fires :: "'h held_lock \<Rightarrow> 'h held_lock" where
  "hl_retry_fires l =
     (if hl_retry l \<and> hl_request l \<noteq> Handled then hl_start (l\<lparr>hl_retry := False\<rparr>) else l)"

lemmas hl_defs = hl_start_def hl_stop_def hl_granted_def hl_refused_def hl_withdrawn_def hl_goes_on_def
  hl_hold_ends_def hl_retry_fires_def

section \<open>Still trying\<close>

text \<open>A lock that is wanted is requested, held or about to be requested again.\<close>

definition hl_trying :: "'h held_lock \<Rightarrow> bool" where
  "hl_trying l \<longleftrightarrow> hl_retry l \<or> hl_request l = Queued \<or> hl_request l = Settled Failed \<or> hl_holding l \<noteq> None"

text \<open>A request only ends without a failure when the lock is not wanted any more: \<open>gave_up\<close> says whether its
  user has stopped wanting it by itself.\<close>

definition hl_ok :: "bool \<Rightarrow> 'h held_lock \<Rightarrow> bool" where
  "hl_ok gave_up l \<longleftrightarrow> (hl_stopped l \<longrightarrow> \<not> hl_retry l) \<and>
     (\<not> hl_stopped l \<and> \<not> gave_up \<longrightarrow>
        (\<forall>r. hl_request l = Settled r \<longrightarrow> r = Failed) \<and> (hl_request l = Handled \<longrightarrow> hl_retry l))"

lemma hl_holding_iff [simp]: "hl_holding l = Some h \<longleftrightarrow> hl_request l = Holding h"
  by (simp add: hl_holding_def split: request.split)

lemma hl_not_holding: "hl_holding l = None \<longleftrightarrow> (\<forall>h. hl_request l \<noteq> Holding h)"
  by (simp add: hl_holding_def split: request.split)

lemma hl_ok_init [simp]: "hl_ok d hl_init"
  by (simp add: hl_ok_def hl_init_def)

lemma hl_ok_steps:
  assumes "hl_ok d l"
  shows "hl_ok d (hl_start l)" "hl_ok d (hl_stop l)" "hl_ok d (hl_granted h l)" "hl_ok d (hl_refused l)"
    "hl_ok d (hl_withdrawn l)" "hl_ok d (hl_goes_on h l)" "hl_ok d (hl_retry_fires l)" "hl_ok d (fst (hl_handle l))"
    "hl_ok d (fst (hl_finish l))"
  using assms by (auto simp: hl_ok_def hl_defs hl_handle_def hl_finish_def split: request.split)

lemma hl_ok_ends: "hl_ok d l \<Longrightarrow> r = Failed \<or> hl_stopped l \<or> d \<Longrightarrow> hl_ok d (hl_hold_ends r l)"
  by (auto simp: hl_ok_def hl_defs)

text \<open>Once it is wanted it stays so until it is stopped.\<close>

lemma hl_trying_steps:
  assumes "hl_ok False l" and "hl_trying l"
  shows "hl_trying (hl_start l)" "\<not> hl_stopped l \<Longrightarrow> hl_trying (hl_granted h l)" "hl_trying (hl_refused l)"
    "\<not> hl_stopped l \<Longrightarrow> hl_trying (hl_withdrawn l)" "hl_trying (hl_goes_on h l)"
    "hl_trying (hl_hold_ends Failed l)"
    "\<not> hl_stopped l \<Longrightarrow> hl_trying (hl_retry_fires l)" "\<not> hl_stopped l \<Longrightarrow> hl_trying (fst (hl_handle l))"
    "hl_trying (fst (hl_finish l))"
  using assms
  by (auto simp: hl_trying_def hl_ok_def hl_defs hl_handle_def hl_finish_def hl_holding_def split: request.splits if_splits)

lemma hl_stopped_steps [simp]:
  "hl_stopped (hl_start l) = hl_stopped l" "hl_stopped (hl_stop l)" "hl_stopped (hl_granted h l) = hl_stopped l"
  "hl_stopped (hl_refused l) = hl_stopped l" "hl_stopped (hl_withdrawn l) = hl_stopped l"
  "hl_stopped (hl_goes_on h l) = hl_stopped l" "hl_stopped (hl_hold_ends r l) = hl_stopped l"
  "hl_stopped (hl_retry_fires l) = hl_stopped l" "hl_stopped (fst (hl_handle l)) = hl_stopped l"
  "hl_stopped (fst (hl_finish l)) = hl_stopped l"
  by (simp_all add: hl_defs hl_handle_def hl_finish_def split: request.split)

text \<open>Starting makes it wanted, unless it was stopped.\<close>

lemma hl_start_trying: "hl_ok False l \<Longrightarrow> \<not> hl_stopped l \<Longrightarrow> hl_trying (hl_start l)"
  by (cases "hl_request l") (auto simp: hl_trying_def hl_start_def hl_ok_def hl_holding_def)

section \<open>One lock, many contexts\<close>

text \<open>
  What an exclusive lock is used for: as long as the steps of the system keep the lock manager's record of
  the holder true, whoever holds the lock is alone.
\<close>

locale exclusive_lock =
  fixes sys_ok :: "'s \<Rightarrow> bool"
    and start :: 's
    and step :: "'e \<Rightarrow> 's \<Rightarrow> 's"
    and holder :: "'s \<Rightarrow> nat option"
    and holds :: "'s \<Rightarrow> nat \<Rightarrow> bool"
  assumes start_ok: "sys_ok start"
    and step_ok: "sys_ok s \<Longrightarrow> sys_ok (step ev s)"
    and record_true: "sys_ok s \<Longrightarrow> holds s i \<Longrightarrow> holder s = Some i"
begin

lemma system_run_ok: "sys_ok s \<Longrightarrow> sys_ok (fold step evs s)"
  by (induction evs arbitrary: s) (simp_all add: step_ok)

lemma system_reachable_ok: "sys_ok (fold step evs start)"
  by (rule system_run_ok [OF start_ok])

lemma one_holder:
  assumes "holds (fold step evs start) i" and "holds (fold step evs start) j"
  shows "i = j"
  using record_true [OF system_reachable_ok assms(1)] record_true [OF system_reachable_ok assms(2)] by simp

end

end
