(* ===== verification/Election.thy ===== *)
theory Election
  imports Held_Lock
begin

text \<open>
  The election of the context that owns a configuration's port (\<open>owner/election.ts\<close>), and the election of
  any number of contexts around the one lock the browser grants them.

  The lock manager is the browser's, and what is used of it is its law: the ownership lock is granted to a
  context only while no context holds it, a context that has died holds nothing, and locks are not stolen.
  A term's lock is asked for once and by one context, since a term is a fresh identifier; it is granted or
  refused at any time.
\<close>

section \<open>One context\<close>

text \<open>The \<open>hold\<close> callback inside the ownership lock: it asks for the lock of a new term, counts as the
  owner while it holds that one too, and returns, or throws, once that one is let go.\<close>

datatype 't hold = Term_Asked 't | Term_Kept 't | Term_Over outcome

record 't election =
  el_lock :: "'t hold held_lock"
  el_owner :: bool
  el_stopped :: bool

datatype 't callback = Acquired 't | Lost

definition el_init :: "'t election" where
  "el_init = \<lparr>el_lock = hl_init, el_owner = False, el_stopped = False\<rparr>"

datatype 't election_event =
    El_Start
  | El_Stop
  | El_Granted 't
  | El_Refused
  | El_Withdrawn
  | El_Term_Granted
  | El_Term_Refused
  | El_Term_Let_Go
  | El_Hold_Returns
  | El_Handlers
  | El_Finally
  | El_Retry

definition el_stop :: "'t election \<Rightarrow> 't election" where
  "el_stop e = e\<lparr>el_stopped := True, el_lock := hl_stop (el_lock e)\<rparr>"

text \<open>The callback of the term's lock. Stopped while it was being granted: returning lets both go at once.\<close>

definition el_term_granted :: "'t election \<Rightarrow> 't election \<times> 't callback list" where
  "el_term_granted e = (case hl_holding (el_lock e) of
     Some (Term_Asked t) \<Rightarrow>
       if el_stopped e then (e\<lparr>el_lock := hl_goes_on (Term_Over Fulfilled) (el_lock e)\<rparr>, [])
       else (e\<lparr>el_lock := hl_goes_on (Term_Kept t) (el_lock e), el_owner := True\<rparr>, [Acquired t])
   | _ \<Rightarrow> (e, []))"

definition el_term_refused :: "'t election \<Rightarrow> 't election" where
  "el_term_refused e = (case hl_holding (el_lock e) of
     Some (Term_Asked t) \<Rightarrow> e\<lparr>el_lock := hl_goes_on (Term_Over Failed) (el_lock e)\<rparr>
   | _ \<Rightarrow> e)"

text \<open>\<open>await released\<close>: only \<open>stop()\<close> resolves it.\<close>

definition el_term_let_go :: "'t election \<Rightarrow> 't election" where
  "el_term_let_go e = (case hl_holding (el_lock e) of
     Some (Term_Kept t) \<Rightarrow> if hl_stopped (el_lock e) then e\<lparr>el_lock := hl_goes_on (Term_Over Fulfilled) (el_lock e)\<rparr> else e
   | _ \<Rightarrow> e)"

definition el_hold_returns :: "'t election \<Rightarrow> 't election" where
  "el_hold_returns e = (case hl_holding (el_lock e) of
     Some (Term_Over r) \<Rightarrow> e\<lparr>el_lock := hl_hold_ends r (el_lock e)\<rparr>
   | _ \<Rightarrow> e)"

text \<open>\<open>onEnded\<close>.\<close>

definition el_finally :: "'t election \<Rightarrow> 't election \<times> 't callback list" where
  "el_finally e = (case hl_finish (el_lock e) of (l, ended) \<Rightarrow>
     if ended \<and> el_owner e then (e\<lparr>el_lock := l, el_owner := False\<rparr>, [Lost]) else (e\<lparr>el_lock := l\<rparr>, []))"

fun el_step :: "'t election_event \<Rightarrow> 't election \<Rightarrow> 't election \<times> 't callback list" where
  "el_step El_Start e = (e\<lparr>el_lock := hl_start (el_lock e)\<rparr>, [])"
| "el_step El_Stop e = (el_stop e, [])"
| "el_step (El_Granted t) e = (e\<lparr>el_lock := hl_granted (Term_Asked t) (el_lock e)\<rparr>, [])"
| "el_step El_Refused e = (e\<lparr>el_lock := hl_refused (el_lock e)\<rparr>, [])"
| "el_step El_Withdrawn e = (e\<lparr>el_lock := hl_withdrawn (el_lock e)\<rparr>, [])"
| "el_step El_Term_Granted e = el_term_granted e"
| "el_step El_Term_Refused e = (el_term_refused e, [])"
| "el_step El_Term_Let_Go e = (el_term_let_go e, [])"
| "el_step El_Hold_Returns e = (el_hold_returns e, [])"
| "el_step El_Handlers e = (e\<lparr>el_lock := fst (hl_handle (el_lock e))\<rparr>, [])"
| "el_step El_Finally e = el_finally e"
| "el_step El_Retry e = (e\<lparr>el_lock := hl_retry_fires (el_lock e)\<rparr>, [])"

text \<open>Where a context that counts as the owner stands: both locks held, or both let go and \<open>onLost\<close> to come.\<close>

fun owner_request :: "bool \<Rightarrow> bool \<Rightarrow> 't hold request \<Rightarrow> bool" where
  "owner_request owner stopped (Holding (Term_Kept t)) = owner"
| "owner_request owner stopped (Holding (Term_Asked t)) = (\<not> owner)"
| "owner_request owner stopped (Holding (Term_Over r)) = ((r = Failed \<and> \<not> owner) \<or> (r = Fulfilled \<and> stopped))"
| "owner_request owner stopped (Settled r) = (owner \<longrightarrow> stopped)"
| "owner_request owner stopped Handled = (owner \<longrightarrow> stopped)"
| "owner_request owner stopped Queued = (\<not> owner)"
| "owner_request owner stopped No_Request = (\<not> owner)"

definition el_ok :: "'t election \<Rightarrow> bool" where
  "el_ok e \<longleftrightarrow> hl_ok False (el_lock e) \<and> el_stopped e = hl_stopped (el_lock e) \<and>
     owner_request (el_owner e) (el_stopped e) (hl_request (el_lock e))"

lemma el_ok_init [simp]: "el_ok el_init"
  by (simp add: el_ok_def el_init_def) (simp add: hl_init_def)

lemma owner_request_stop: "owner_request own False r \<Longrightarrow> owner_request own True r"
  by (cases "(own, False, r)" rule: owner_request.cases) auto

lemma el_ok_step:
  assumes "el_ok e"
  shows "el_ok (fst (el_step ev e))"
proof -
  obtain l own st where e: "e = \<lparr>el_lock = l, el_owner = own, el_stopped = st\<rparr>" by (cases e)
  have ok: "hl_ok False l" "st = hl_stopped l" "owner_request own st (hl_request l)" using assms by (auto simp: el_ok_def e)
  show ?thesis
  proof (cases ev)
    case El_Stop
    then show ?thesis using ok hl_ok_steps(2) [OF ok(1)] owner_request_stop [of own "hl_request l"]
      by (cases st) (simp_all add: el_ok_def e el_stop_def hl_stop_def)
  next
    case El_Term_Granted
    show ?thesis
    proof (cases "\<exists>t. hl_request l = Holding (Term_Asked t)")
      case True
      then show ?thesis using ok El_Term_Granted hl_ok_steps(6) [OF ok(1)]
        by (auto simp: el_ok_def e el_term_granted_def hl_goes_on_def hl_holding_def)
    next
      case False
      then have "fst (el_step ev e) = e" using El_Term_Granted
        by (auto simp: e el_term_granted_def hl_holding_def split: request.split hold.split)
      then show ?thesis using assms by simp
    qed
  next
    case El_Hold_Returns
    show ?thesis
    proof (cases "\<exists>r. hl_request l = Holding (Term_Over r)")
      case True
      then obtain r where r: "hl_request l = Holding (Term_Over r)" by blast
      then have "r = Failed \<or> hl_stopped l" using ok by auto
      then show ?thesis using ok r El_Hold_Returns hl_ok_ends [OF ok(1), of r]
        by (auto simp: el_ok_def e el_hold_returns_def hl_hold_ends_def hl_holding_def)
    next
      case False
      then have "fst (el_step ev e) = e" using El_Hold_Returns
        by (auto simp: e el_hold_returns_def hl_holding_def split: request.split hold.split)
      then show ?thesis using assms by simp
    qed
  next
    case El_Finally
    then show ?thesis using ok hl_ok_steps(9) [OF ok(1)]
      by (auto simp: el_ok_def e el_finally_def hl_finish_def split: if_splits)
  next
    case El_Handlers
    then show ?thesis using ok hl_ok_steps(8) [OF ok(1)]
      by (auto simp: el_ok_def e hl_handle_def split: request.splits if_splits)
  qed (use ok hl_ok_steps [OF ok(1)] in
    \<open>auto simp: el_ok_def e el_term_refused_def el_term_let_go_def hl_defs hl_holding_def split: request.splits hold.splits if_splits\<close>)
qed

text \<open>A context that has joined stays in the election: it holds the lock, waits for it, or is about to ask for
  it again.\<close>

definition el_participates :: "'t election \<Rightarrow> bool" where
  "el_participates e \<longleftrightarrow> hl_trying (el_lock e)"

lemma el_participates_step:
  assumes "el_ok e" and "el_participates e" and "ev \<noteq> El_Stop" and "\<not> el_stopped e"
  shows "el_participates (fst (el_step ev e))"
proof -
  have ok: "hl_ok False (el_lock e)" "hl_trying (el_lock e)" "\<not> hl_stopped (el_lock e)"
    "owner_request (el_owner e) False (hl_request (el_lock e))"
    using assms by (auto simp: el_ok_def el_participates_def)
  show ?thesis
  proof (cases ev)
    case El_Hold_Returns
    then show ?thesis using ok hl_trying_steps(6) [OF ok(1,2)]
      by (auto simp: el_participates_def el_hold_returns_def split: option.split hold.split)
  qed (use ok assms hl_trying_steps [OF ok(1,2)] in
    \<open>auto simp: el_participates_def el_term_granted_def el_term_refused_def el_term_let_go_def el_finally_def
       split: option.split hold.split prod.split\<close>)
qed

lemma el_stopped_step:
  "el_stopped (fst (el_step ev e)) \<longleftrightarrow> el_stopped e \<or> ev = El_Stop"
  by (cases ev) (auto simp: el_stop_def el_term_granted_def el_term_refused_def el_term_let_go_def el_hold_returns_def
      el_finally_def split: option.split hold.split prod.split)

section \<open>Any number of contexts\<close>

text \<open>
  The contexts are numbered. \<open>ey_holder\<close> is the lock manager's record of the ownership lock, \<open>ey_dead\<close>
  the contexts that have died, \<open>ey_terms\<close> every term begun, and \<open>ey_said\<close> every callback, in order.
\<close>

record 't election_sys =
  ey_tabs :: "nat \<Rightarrow> 't election"
  ey_holder :: "nat option"
  ey_dead :: "nat list"
  ey_terms :: "'t list"
  ey_said :: "(nat \<times> 't callback) list"

definition ey_init :: "'t election_sys" where
  "ey_init = \<lparr>ey_tabs = (\<lambda>i. el_init), ey_holder = None, ey_dead = [], ey_terms = [], ey_said = []\<rparr>"

datatype 't sys_event = Tab nat "'t election_event" | Dies nat

text \<open>The browser grants a free lock only, and a term is new.\<close>

fun granted_term :: "'t election_event \<Rightarrow> 't option" where
  "granted_term (El_Granted t) = Some t"
| "granted_term _ = None"

definition possible :: "'t election_event \<Rightarrow> 't election_sys \<Rightarrow> bool" where
  "possible ev s = (case granted_term ev of None \<Rightarrow> True | Some t \<Rightarrow> ey_holder s = None \<and> t \<notin> set (ey_terms s))"

definition new_holder :: "nat \<Rightarrow> bool \<Rightarrow> nat option \<Rightarrow> nat option" where
  "new_holder i has h = (if has then Some i else if h = Some i then None else h)"

fun ey_step :: "'t sys_event \<Rightarrow> 't election_sys \<Rightarrow> 't election_sys" where
  "ey_step (Tab i ev) s =
     (if i \<in> set (ey_dead s) \<or> \<not> possible ev s then s
      else (case el_step ev (ey_tabs s i) of (e, said) \<Rightarrow>
        s\<lparr>ey_tabs := (ey_tabs s)(i := e),
          ey_holder := new_holder i (hl_holding (el_lock e) \<noteq> None) (ey_holder s),
          ey_terms := (case granted_term ev of None \<Rightarrow> ey_terms s | Some t \<Rightarrow> t # ey_terms s),
          ey_said := ey_said s @ map (Pair i) said\<rparr>))"
| "ey_step (Dies i) s =
     s\<lparr>ey_dead := i # ey_dead s, ey_holder := new_holder i False (ey_holder s)\<rparr>"

definition alive :: "'t election_sys \<Rightarrow> nat \<Rightarrow> bool" where
  "alive s i \<longleftrightarrow> i \<notin> set (ey_dead s)"

definition holds_lock :: "'t election_sys \<Rightarrow> nat \<Rightarrow> bool" where
  "holds_lock s i \<longleftrightarrow> alive s i \<and> hl_holding (el_lock (ey_tabs s i)) \<noteq> None"

text \<open>A context is the owner when it says so and has not left: an owner that has left is closing the port.\<close>

definition owns :: "'t election_sys \<Rightarrow> nat \<Rightarrow> bool" where
  "owns s i \<longleftrightarrow> alive s i \<and> el_owner (ey_tabs s i) \<and> \<not> el_stopped (ey_tabs s i)"

definition ey_ok :: "'t election_sys \<Rightarrow> bool" where
  "ey_ok s \<longleftrightarrow> (\<forall>i. el_ok (ey_tabs s i)) \<and> (\<forall>i. holds_lock s i \<longleftrightarrow> ey_holder s = Some i)"

lemma ey_ok_init: "ey_ok ey_init"
  by (simp add: ey_ok_def ey_init_def holds_lock_def) (simp add: el_init_def hl_init_def hl_holding_def)

text \<open>Only a granted request makes a context hold the lock.\<close>

lemma el_step_holding:
  "hl_holding (el_lock (fst (el_step ev e))) \<noteq> None \<Longrightarrow> hl_holding (el_lock e) = None \<Longrightarrow> granted_term ev \<noteq> None"
  by (cases ev)
     (auto simp: el_stop_def el_term_granted_def el_term_refused_def el_term_let_go_def el_hold_returns_def el_finally_def
      hl_defs hl_handle_def hl_finish_def hl_holding_def split: request.splits if_splits)

lemma ey_ok_step: "ey_ok s \<Longrightarrow> ey_ok (ey_step ev s)"
proof (cases ev)
  case (Dies i)
  assume ok: "ey_ok s"
  then show ?thesis
    by (auto simp: Dies ey_ok_def holds_lock_def alive_def new_holder_def)
next
  case (Tab i ev')
  assume ok: "ey_ok s"
  show ?thesis
  proof (cases "i \<in> set (ey_dead s) \<or> \<not> possible ev' s")
    case True
    then show ?thesis using ok Tab by auto
  next
    case False
    obtain e said where step: "el_step ev' (ey_tabs s i) = (e, said)" by fastforce
    have e_ok: "el_ok e" using el_ok_step [of "ey_tabs s i" ev'] ok step by (simp add: ey_ok_def)
    have before: "hl_holding (el_lock (ey_tabs s i)) \<noteq> None \<longleftrightarrow> ey_holder s = Some i"
      using ok False by (auto simp: ey_ok_def holds_lock_def alive_def)
    have free: "ey_holder s = None \<or> ey_holder s = Some i" if "hl_holding (el_lock e) \<noteq> None"
    proof (cases "ey_holder s = Some i")
      case other: False
      then have "hl_holding (el_lock (ey_tabs s i)) = None" using before by blast
      then have "granted_term ev' \<noteq> None" using el_step_holding [of ev' "ey_tabs s i"] that step by simp
      then show ?thesis using False by (auto simp: possible_def)
    qed simp
    have "holds_lock (ey_step ev s) j \<longleftrightarrow> ey_holder (ey_step ev s) = Some j" for j
      using ok False step before free
      by (cases "j = i") (auto simp: Tab ey_ok_def holds_lock_def alive_def new_holder_def split: if_splits)
    moreover have "el_ok (ey_tabs (ey_step ev s) j)" for j
      using ok False step e_ok by (auto simp: Tab ey_ok_def)
    ultimately show ?thesis by (simp add: ey_ok_def)
  qed
qed

interpretation ownership: exclusive_lock ey_ok ey_init ey_step ey_holder holds_lock
  by unfold_locales (auto simp: ey_ok_init ey_ok_step, simp add: ey_ok_def)

lemma owner_holds_both:
  assumes "ey_ok s" and "owns s i"
  shows "holds_lock s i \<and> (\<exists>t. hl_holding (el_lock (ey_tabs s i)) = Some (Term_Kept t))"
proof -
  have "el_ok (ey_tabs s i)" "el_owner (ey_tabs s i)" "\<not> el_stopped (ey_tabs s i)" "alive s i"
    using assms by (auto simp: ey_ok_def owns_def)
  then show ?thesis unfolding el_ok_def holds_lock_def
    by (cases "(el_owner (ey_tabs s i), el_stopped (ey_tabs s i), hl_request (el_lock (ey_tabs s i)))" rule: owner_request.cases)
       (auto simp: hl_holding_def)
qed

text \<open>
  C3. The election elects at most one. Over any number of contexts joining, leaving, failing and dying in
  any order, two contexts that have not left never both count as the owner; and the one that does holds the
  ownership lock and the lock of its term.
\<close>

theorem at_most_one_owner:
  assumes "s = fold ey_step evs ey_init" and "owns s i"
  shows "ey_holder s = Some i \<and> (\<exists>t. hl_holding (el_lock (ey_tabs s i)) = Some (Term_Kept t)) \<and>
    {j. owns s j} = {i}"
proof -
  have ok: "ey_ok s" unfolding assms(1) by (rule ownership.system_reachable_ok)
  have alone: "j = i" if "owns s j" for j
    using ownership.one_holder [of evs j i] owner_holds_both [OF ok] that assms(2) by (simp add: assms(1))
  note both = owner_holds_both [OF ok assms(2)]
  have "ey_holder s = Some i" using ok both unfolding ey_ok_def by blast
  moreover have "{j. owns s j} = {i}" using alone assms(2) by blast
  ultimately show ?thesis using both by blast
qed

section \<open>Succession\<close>

lemma ey_step_tab:
  "ey_tabs (ey_step (Tab j ev) s) i =
     (if i = j \<and> j \<notin> set (ey_dead s) \<and> possible ev s then fst (el_step ev (ey_tabs s i)) else ey_tabs s i)"
  by (simp split: prod.split)

lemma tab_step_participates:
  assumes "ey_ok s" and "el_participates (ey_tabs s i)" and "\<not> el_stopped (ey_tabs s i)" and "ev \<noteq> Tab i El_Stop"
  shows "el_participates (ey_tabs (ey_step ev s) i) \<and> \<not> el_stopped (ey_tabs (ey_step ev s) i)"
proof (cases ev)
  case (Tab j ev')
  have "el_ok (ey_tabs s i)" using assms(1) by (simp add: ey_ok_def)
  then show ?thesis
    using assms Tab el_participates_step [of "ey_tabs s i" ev'] el_stopped_step [of ev' "ey_tabs s i"]
    by (simp add: ey_step_tab del: ey_step.simps) blast
qed (use assms in simp)

lemma run_participates:
  "ey_ok s \<Longrightarrow> el_participates (ey_tabs s i) \<Longrightarrow> \<not> el_stopped (ey_tabs s i) \<Longrightarrow> Tab i El_Stop \<notin> set evs \<Longrightarrow>
   el_participates (ey_tabs (fold ey_step evs s) i) \<and> \<not> el_stopped (ey_tabs (fold ey_step evs s) i)"
proof (induction evs arbitrary: s)
  case (Cons ev evs)
  have next_step: "el_participates (ey_tabs (ey_step ev s) i) \<and> \<not> el_stopped (ey_tabs (ey_step ev s) i)"
    using tab_step_participates [OF Cons.prems(1-3), of ev] Cons.prems(4) by auto
  have "Tab i El_Stop \<notin> set evs" using Cons.prems by simp
  then show ?case using Cons.IH [OF ey_ok_step [OF Cons.prems(1)]] next_step by simp
qed simp

lemma dead_stays: "set (ey_dead s) \<subseteq> set (ey_dead (fold ey_step evs s))"
proof (induction evs arbitrary: s)
  case (Cons ev evs)
  have "set (ey_dead s) \<subseteq> set (ey_dead (ey_step ev s))"
    by (cases ev) (auto split: prod.split)
  then show ?case using Cons.IH [of "ey_step ev s"] by auto
qed simp

lemma not_stopped_run:
  "Tab i El_Stop \<notin> set evs \<Longrightarrow> \<not> el_stopped (ey_tabs s i) \<Longrightarrow> \<not> el_stopped (ey_tabs (fold ey_step evs s) i)"
proof (induction evs arbitrary: s)
  case (Cons ev evs)
  have "\<not> el_stopped (ey_tabs (ey_step ev s) i)"
  proof (cases ev)
    case (Tab j ev')
    then show ?thesis using Cons.prems el_stopped_step [of ev' "ey_tabs s i"]
      by (simp add: ey_step_tab del: ey_step.simps) blast
  qed (use Cons.prems in simp)
  then show ?case using Cons by simp
qed simp

text \<open>
  C4. A successor is always queued. A context that has joined, not left and not died is, after anything that
  may happen, holding the lock, waiting for it, or about to ask for it again after a refusal; and when it
  waits for a free lock, being granted that one and its term's makes it the owner.
\<close>

theorem successor_always_queued:
  assumes "s = fold ey_step (evs @ Tab i El_Start # evs') ey_init" and "Tab i El_Stop \<notin> set (evs @ evs')"
    and "alive s i"
  shows "el_participates (ey_tabs s i) \<and>
    (if hl_request (el_lock (ey_tabs s i)) = Queued \<and> ey_holder s = None \<and> t \<notin> set (ey_terms s)
     then owns (fold ey_step [Tab i (El_Granted t), Tab i El_Term_Granted] s) i else True)"
proof -
  define s0 where "s0 = fold ey_step evs ey_init"
  define s1 where "s1 = ey_step (Tab i El_Start) s0"
  have s: "s = fold ey_step evs' s1" using assms(1) by (simp add: s0_def s1_def)
  have ok0: "ey_ok s0" unfolding s0_def by (rule ownership.system_reachable_ok)
  have running: "\<not> el_stopped (ey_tabs s0 i)"
    unfolding s0_def using assms(2) by (intro not_stopped_run) (simp_all add: ey_init_def el_init_def)
  have up: "i \<notin> set (ey_dead s0)"
    using dead_stays [of s0 "Tab i El_Start # evs'"] assms(3) s by (auto simp: alive_def s1_def)
  have tab: "el_ok (ey_tabs s0 i)" using ok0 by (simp add: ey_ok_def)
  then have "hl_trying (hl_start (el_lock (ey_tabs s0 i)))"
    using running by (intro hl_start_trying) (simp_all add: el_ok_def)
  then have "el_participates (ey_tabs s1 i)" "\<not> el_stopped (ey_tabs s1 i)"
    using up running by (simp_all add: s1_def possible_def el_participates_def)
  then have now: "el_participates (ey_tabs s i)" "\<not> el_stopped (ey_tabs s i)"
    unfolding s using run_participates [OF ey_ok_step [OF ok0], of "Tab i El_Start" i evs'] assms(2) by (auto simp: s1_def)
  have "ey_ok s" unfolding assms(1) by (rule ownership.system_reachable_ok)
  then have "el_ok (ey_tabs s i)" by (simp add: ey_ok_def)
  then have "\<not> hl_stopped (el_lock (ey_tabs s i))" using now(2) by (simp add: el_ok_def)
  then show ?thesis using now assms(3)
    by (auto simp: owns_def alive_def possible_def el_term_granted_def hl_granted_def hl_goes_on_def hl_holding_def)
qed

section \<open>What the contexts are told\<close>

text \<open>Whether a context that was told this counts as the owner; \<open>None\<close> when it was told out of turn.\<close>

fun told :: "bool \<Rightarrow> 't callback list \<Rightarrow> bool option" where
  "told owner [] = Some owner"
| "told owner (Acquired t # cs) = (if owner then None else told True cs)"
| "told owner (Lost # cs) = (if owner then told False cs else None)"

lemma told_append: "told own (cs @ ds) = (case told own cs of None \<Rightarrow> None | Some own' \<Rightarrow> told own' ds)"
  by (induction own cs rule: told.induct) auto

definition callbacks_of :: "nat \<Rightarrow> (nat \<times> 't callback) list \<Rightarrow> 't callback list" where
  "callbacks_of i said = map snd (filter (\<lambda>p. fst p = i) said)"

lemma callbacks_of_append [simp]: "callbacks_of i (xs @ ys) = callbacks_of i xs @ callbacks_of i ys"
  by (simp add: callbacks_of_def)

lemma callbacks_of_own [simp]: "callbacks_of i (map (Pair j) cs) = (if i = j then cs else [])"
  by (simp add: callbacks_of_def filter_map comp_def)

lemma el_step_told:
  assumes "el_ok e" and "el_step ev e = (e', cs)"
  shows "told (el_owner e) cs = Some (el_owner e')"
proof -
  have asked: "\<not> el_owner e" if "hl_holding (el_lock e) = Some (Term_Asked t)" for t
    using assms(1) that by (simp add: el_ok_def)
  show ?thesis using assms asked
    by (cases ev) (auto simp: el_stop_def el_term_granted_def el_term_refused_def el_term_let_go_def el_hold_returns_def
        el_finally_def split: option.splits hold.splits prod.splits if_splits)
qed

definition acquired_terms :: "(nat \<times> 't callback) list \<Rightarrow> 't list" where
  "acquired_terms said = concat (map (\<lambda>p. case snd p of Acquired t \<Rightarrow> [t] | Lost \<Rightarrow> []) said)"

lemma acquired_terms_append [simp]: "acquired_terms (xs @ ys) = acquired_terms xs @ acquired_terms ys"
  by (simp add: acquired_terms_def)

text \<open>A term is new when it is asked for, and not taken yet while it is asked for.\<close>

definition terms_fresh :: "'t election_sys \<Rightarrow> bool" where
  "terms_fresh s \<longleftrightarrow> distinct (acquired_terms (ey_said s)) \<and> set (acquired_terms (ey_said s)) \<subseteq> set (ey_terms s) \<and>
     (\<forall>i t. hl_request (el_lock (ey_tabs s i)) = Holding (Term_Asked t) \<longrightarrow> alive s i \<longrightarrow>
        t \<in> set (ey_terms s) \<and> t \<notin> set (acquired_terms (ey_said s)))"


lemma el_step_acquires:
  assumes "el_step ev e = (e', cs)"
  shows "acquired_terms (map (Pair i) cs) = [] \<or>
    (\<exists>t. acquired_terms (map (Pair i) cs) = [t] \<and> hl_request (el_lock e) = Holding (Term_Asked t) \<and>
       hl_request (el_lock e') = Holding (Term_Kept t))"
  using assms
  by (cases ev) (auto simp: acquired_terms_def el_term_granted_def el_finally_def hl_goes_on_def
      split: option.splits hold.splits prod.splits if_splits)

lemma el_step_asks:
  assumes "el_step ev e = (e', cs)" and "hl_request (el_lock e') = Holding (Term_Asked t)"
  shows "hl_request (el_lock e) = Holding (Term_Asked t) \<or> ev = El_Granted t"
  using assms
  by (cases ev) (auto simp: el_stop_def el_term_granted_def el_term_refused_def el_term_let_go_def el_hold_returns_def
      el_finally_def hl_defs hl_handle_def hl_finish_def hl_holding_def
      split: option.splits hold.splits prod.splits if_splits request.splits)

lemma terms_fresh_step:
  assumes ok: "ey_ok s" and fresh: "terms_fresh s"
  shows "terms_fresh (ey_step ev s)"
proof (cases ev)
  case (Dies i)
  then show ?thesis using fresh by (auto simp: terms_fresh_def alive_def)
next
  case (Tab i ev')
  show ?thesis
  proof (cases "i \<in> set (ey_dead s) \<or> \<not> possible ev' s")
    case True
    then show ?thesis using fresh Tab by auto
  next
    case False
    obtain e cs where step: "el_step ev' (ey_tabs s i) = (e, cs)" by fastforce
    let ?new = "acquired_terms (map (Pair i) cs)"
    let ?s = "ey_step ev s"
    have up: "alive s i" using False by (simp add: alive_def)
    have fields: "ey_said ?s = ey_said s @ map (Pair i) cs" "ey_tabs ?s = (ey_tabs s)(i := e)" "ey_dead ?s = ey_dead s"
      "ey_terms ?s = (case granted_term ev' of None \<Rightarrow> ey_terms s | Some t \<Rightarrow> t # ey_terms s)"
      using False step Tab by auto
    have more: "set (ey_terms s) \<subseteq> set (ey_terms ?s)" unfolding fields by (auto split: option.split)
    have alone: "j = i" if "alive s j" "hl_request (el_lock (ey_tabs s j)) = Holding h"
      "hl_request (el_lock (ey_tabs s i)) = Holding h'" for j h h'
    proof -
      have "holds_lock s j" "holds_lock s i" using that up by (auto simp: holds_lock_def hl_holding_def)
      then show ?thesis using ok unfolding ey_ok_def by (metis option.inject)
    qed
    consider "?new = []" | t where "?new = [t]" "hl_request (el_lock (ey_tabs s i)) = Holding (Term_Asked t)"
      "hl_request (el_lock e) = Holding (Term_Kept t)"
      using el_step_acquires [OF step] by blast
    then have acquired: "distinct (acquired_terms (ey_said ?s))" "set (acquired_terms (ey_said ?s)) \<subseteq> set (ey_terms ?s)"
      using fresh up more by (cases; auto simp: terms_fresh_def fields(1))+
    have "t \<in> set (ey_terms ?s) \<and> t \<notin> set (acquired_terms (ey_said ?s))"
      if asked: "hl_request (el_lock (ey_tabs ?s j)) = Holding (Term_Asked t)" and "alive ?s j" for j t
    proof (cases "j = i")
      case True
      then have asking: "hl_request (el_lock e) = Holding (Term_Asked t)" using asked fields(2) by simp
      have none_new: "?new = []" using el_step_acquires [OF step, of i] asking by auto
      show ?thesis
      proof (cases "ev' = El_Granted t")
        case granted: True
        then have "t \<notin> set (ey_terms s)" using False by (simp add: possible_def)
        moreover have "acquired_terms (ey_said ?s) = acquired_terms (ey_said s)" using none_new unfolding fields(1) by simp
        ultimately show ?thesis using fresh granted by (auto simp: terms_fresh_def fields(4))
      next
        case again: False
        then have "hl_request (el_lock (ey_tabs s i)) = Holding (Term_Asked t)" using el_step_asks [OF step asking] by blast
        then show ?thesis using fresh up none_new more by (auto simp: terms_fresh_def fields(1))
      qed
    next
      case other: False
      then have before: "hl_request (el_lock (ey_tabs s j)) = Holding (Term_Asked t)" "alive s j"
        using that fields by (simp_all add: alive_def)
      have "?new = []" using el_step_acquires [OF step, of i] alone [OF before(2,1)] other by blast
      then show ?thesis using fresh before more by (auto simp: terms_fresh_def fields(1))
    qed
    then show ?thesis using acquired by (simp add: terms_fresh_def)
  qed
qed

lemma terms_fresh_run: "ey_ok s \<Longrightarrow> terms_fresh s \<Longrightarrow> terms_fresh (fold ey_step evs s)"
  by (induction evs arbitrary: s) (simp_all add: ey_ok_step terms_fresh_step)

definition told_true :: "'t election_sys \<Rightarrow> bool" where
  "told_true s \<longleftrightarrow> (\<forall>i. told False (callbacks_of i (ey_said s)) = Some (el_owner (ey_tabs s i)))"

lemma told_true_step:
  assumes "ey_ok s" and "told_true s"
  shows "told_true (ey_step ev s)"
proof (cases ev)
  case (Tab i ev')
  obtain e cs where step: "el_step ev' (ey_tabs s i) = (e, cs)" by fastforce
  have "el_ok (ey_tabs s i)" using assms(1) by (simp add: ey_ok_def)
  then show ?thesis using assms(2) step el_step_told [of "ey_tabs s i" ev' e cs] Tab
    by (simp add: told_true_def told_append)
qed (use assms(2) in \<open>simp add: told_true_def\<close>)

lemma told_true_run: "ey_ok s \<Longrightarrow> told_true s \<Longrightarrow> told_true (fold ey_step evs s)"
  by (induction evs arbitrary: s) (simp_all add: ey_ok_step told_true_step)

text \<open>
  What the contexts are told is in turn, and no term is taken twice: every context hears \<open>onAcquired\<close>
  and \<open>onLost\<close> alternately, the last of them telling what \<open>isOwner\<close> says; and over all contexts, no term
  is acquired more than once.
\<close>

theorem callbacks_in_turn:
  "told False (callbacks_of i (ey_said (fold ey_step (evs :: 'a sys_event list) ey_init))) = Some (el_owner (ey_tabs (fold ey_step evs ey_init) i)) \<and>
   distinct (acquired_terms (ey_said (fold ey_step evs ey_init)))"
proof -
  have start: "told_true (ey_init :: 'a election_sys)" "terms_fresh (ey_init :: 'a election_sys)"
    by (simp_all add: told_true_def terms_fresh_def ey_init_def acquired_terms_def callbacks_of_def)
       (simp_all add: el_init_def hl_init_def)
  show ?thesis
    using told_true_run [OF ey_ok_init start(1), of evs] terms_fresh_run [OF ey_ok_init start(2), of evs]
    unfolding told_true_def terms_fresh_def by blast
qed

section \<open>Instances\<close>

definition sample_election :: "nat sys_event list" where
  "sample_election = [Tab 0 El_Start, Tab 1 El_Start, Tab 0 (El_Granted 7), Tab 0 El_Term_Granted]"

lemma at_most_one_owner_witness: "{j. owns (fold ey_step sample_election ey_init) j} = {0}"
proof -
  have "owns (fold ey_step sample_election ey_init) 0"
    by (simp add: sample_election_def ey_init_def el_init_def hl_init_def owns_def alive_def possible_def new_holder_def
        el_term_granted_def hl_defs hl_holding_def)
  then show ?thesis using at_most_one_owner [OF refl] by blast
qed

lemma successor_always_queued_witness:
  "el_participates (ey_tabs (fold ey_step sample_election ey_init) 1) \<and>
   owns (fold ey_step (sample_election @ [Dies 0, Tab 1 (El_Granted 8), Tab 1 El_Term_Granted]) ey_init) 1"
proof -
  let ?before = "[Tab 0 El_Start] :: nat sys_event list"
  let ?after = "[Tab 0 (El_Granted 7), Tab 0 El_Term_Granted] :: nat sys_event list"
  have "alive (fold ey_step (?before @ Tab 1 El_Start # ?after) ey_init) 1"
    by (simp add: ey_init_def el_init_def hl_init_def alive_def possible_def new_holder_def
        el_term_granted_def hl_defs hl_holding_def)
  moreover have "Tab 1 El_Stop \<notin> set (?before @ ?after)" by simp
  moreover have "sample_election = ?before @ Tab 1 El_Start # ?after" by (simp add: sample_election_def)
  ultimately have here: "el_participates (ey_tabs (fold ey_step sample_election ey_init) 1)"
    using successor_always_queued [OF refl, of 1 ?before ?after] by metis
  let ?s = "fold ey_step (?before @ Tab 1 El_Start # (?after @ [Dies 0])) ey_init"
  have waits: "hl_request (el_lock (ey_tabs ?s 1)) = Queued \<and> ey_holder ?s = None \<and> 8 \<notin> set (ey_terms ?s)"
    and up: "alive ?s 1" and stays: "Tab 1 El_Stop \<notin> set (?before @ (?after @ [Dies 0]))"
    by (simp_all add: ey_init_def el_init_def hl_init_def alive_def possible_def new_holder_def
        el_term_granted_def hl_defs hl_holding_def)
  note both = successor_always_queued [OF refl stays up, of 8]
  have "owns (fold ey_step [Tab 1 (El_Granted 8), Tab 1 El_Term_Granted] ?s) 1"
    using both [THEN conjunct2] unfolding if_P [OF waits] .
  moreover have "sample_election @ [Dies 0, Tab 1 (El_Granted 8), Tab 1 El_Term_Granted] =
      (?before @ Tab 1 El_Start # (?after @ [Dies 0])) @ [Tab 1 (El_Granted 8), Tab 1 El_Term_Granted]"
    by (simp add: sample_election_def)
  ultimately show ?thesis using here by (metis fold_append comp_apply)
qed

end
