(* ===== verification/Tab_Slot.thy ===== *)
theory Tab_Slot
  imports Election
begin

text \<open>
  One of a configuration's \<open>maxTabs\<close> places (\<open>client/tab-slot.ts\<close>): a tab queues at the gate lock, inside
  it asks for every place at once, keeps the first it is granted and lets the gate go. Then any number of
  tabs around the browser's locks.

  A place's request is \<open>Waiting\<close>, \<open>Kept\<close> while its callback runs, \<open>Ended\<close> once it has settled (with
  whether it was refused), and \<open>Over\<close> after its handlers. The code's \<open>unsettled\<close> is the number of places
  that are not \<open>Over\<close>. Requests are withdrawn once the tab has a place or stopped: that is when
  \<open>placeAbort\<close> is aborted. A session starts its slot once.
\<close>

section \<open>One tab\<close>

datatype place = Waiting | Kept | Ended bool | Over

datatype gate_hold = Taking | Leaving outcome

record slot =
  sl_gate :: "gate_hold held_lock"
  sl_held :: bool
  sl_stopped :: bool
  sl_places :: "place list"
  sl_failure :: bool

definition sl_init :: slot where
  "sl_init = \<lparr>sl_gate = hl_init, sl_held = False, sl_stopped = False, sl_places = [], sl_failure = False\<rparr>"

definition sl_start :: "slot \<Rightarrow> slot" where
  "sl_start s = (if sl_held s then s else s\<lparr>sl_gate := hl_start (sl_gate s)\<rparr>)"

text \<open>\<open>leaveGate\<close> and \<open>refused\<close>: the promise settles once.\<close>

definition leave_gate :: "outcome \<Rightarrow> slot \<Rightarrow> slot" where
  "leave_gate r s = (case hl_request (sl_gate s) of
     Holding Taking \<Rightarrow> s\<lparr>sl_gate := (sl_gate s)\<lparr>hl_request := Holding (Leaving r)\<rparr>\<rparr>
   | _ \<Rightarrow> s)"

definition sl_stop :: "slot \<Rightarrow> slot" where
  "sl_stop s =
     (if sl_stopped s then s
      else (let s' = leave_gate Fulfilled (s\<lparr>sl_stopped := True, sl_held := False\<rparr>)
            in s'\<lparr>sl_gate := hl_stop (sl_gate s')\<rparr>))"

text \<open>\<open>#takePlace\<close> up to where it waits: every place is asked for.\<close>

definition gate_granted :: "nat \<Rightarrow> slot \<Rightarrow> slot" where
  "gate_granted m s =
     (if hl_request (sl_gate s) = Queued \<and> \<not> hl_stopped (sl_gate s)
      then s\<lparr>sl_gate := hl_granted Taking (sl_gate s), sl_places := replicate m Waiting, sl_failure := False\<rparr>
      else s\<lparr>sl_gate := hl_granted Taking (sl_gate s)\<rparr>)"

definition gate_returns :: "slot \<Rightarrow> slot" where
  "gate_returns s = (case hl_holding (sl_gate s) of
     Some (Leaving r) \<Rightarrow> s\<lparr>sl_gate := hl_hold_ends r (sl_gate s)\<rparr>
   | _ \<Rightarrow> s)"

definition place_is :: "slot \<Rightarrow> nat \<Rightarrow> place \<Rightarrow> bool" where
  "place_is s k p \<longleftrightarrow> k < length (sl_places s) \<and> sl_places s ! k = p"

definition set_place :: "nat \<Rightarrow> place \<Rightarrow> slot \<Rightarrow> slot" where
  "set_place k p s = s\<lparr>sl_places := (sl_places s)[k := p]\<rparr>"

text \<open>The callback of a place's lock, and whether it calls \<open>onAcquired\<close>.\<close>

definition place_granted :: "nat \<Rightarrow> slot \<Rightarrow> slot \<times> bool" where
  "place_granted k s =
     (if \<not> place_is s k Waiting then (s, False)
      else if sl_held s \<or> sl_stopped s then (set_place k (Ended False) s, False)
      else (leave_gate Fulfilled (set_place k Kept (s\<lparr>sl_held := True\<rparr>)), True))"

definition place_refused :: "nat \<Rightarrow> slot \<Rightarrow> slot" where
  "place_refused k s = (if place_is s k Waiting then set_place k (Ended True) s else s)"

definition place_withdrawn :: "nat \<Rightarrow> slot \<Rightarrow> slot" where
  "place_withdrawn k s =
     (if place_is s k Waiting \<and> (sl_held s \<or> sl_stopped s) then set_place k (Ended False) s else s)"

definition place_let_go :: "nat \<Rightarrow> slot \<Rightarrow> slot" where
  "place_let_go k s = (if place_is s k Kept \<and> sl_stopped s then set_place k (Ended False) s else s)"

definition all_over :: "slot \<Rightarrow> bool" where
  "all_over s \<longleftrightarrow> list_all (\<lambda>p. p = Over) (sl_places s)"

text \<open>The \<open>catch\<close> and the \<open>finally\<close> of a place's request.\<close>

definition request_over :: "slot \<Rightarrow> slot" where
  "request_over s =
     (if all_over s \<and> \<not> sl_held s
      then leave_gate (if \<not> sl_failure s \<or> sl_stopped s then Fulfilled else Failed) s else s)"

definition place_over :: "nat \<Rightarrow> slot \<Rightarrow> slot" where
  "place_over k s =
     (if place_is s k (Ended True) then request_over (set_place k Over (s\<lparr>sl_failure := True\<rparr>))
      else if place_is s k (Ended False) then request_over (set_place k Over s)
      else s)"

datatype slot_event =
    Sl_Start
  | Sl_Stop
  | Gate_Granted
  | Gate_Refused
  | Gate_Withdrawn
  | Gate_Returns
  | Gate_Handlers
  | Gate_Finally
  | Gate_Retry
  | Place_Granted nat
  | Place_Refused nat
  | Place_Withdrawn nat
  | Place_Let_Go nat
  | Place_Over nat

fun sl_step :: "nat \<Rightarrow> slot_event \<Rightarrow> slot \<Rightarrow> slot" where
  "sl_step m Sl_Start s = sl_start s"
| "sl_step m Sl_Stop s = sl_stop s"
| "sl_step m Gate_Granted s = gate_granted m s"
| "sl_step m Gate_Refused s = s\<lparr>sl_gate := hl_refused (sl_gate s)\<rparr>"
| "sl_step m Gate_Withdrawn s = s\<lparr>sl_gate := hl_withdrawn (sl_gate s)\<rparr>"
| "sl_step m Gate_Returns s = gate_returns s"
| "sl_step m Gate_Handlers s = s\<lparr>sl_gate := fst (hl_handle (sl_gate s))\<rparr>"
| "sl_step m Gate_Finally s = s\<lparr>sl_gate := fst (hl_finish (sl_gate s))\<rparr>"
| "sl_step m Gate_Retry s = s\<lparr>sl_gate := hl_retry_fires (sl_gate s)\<rparr>"
| "sl_step m (Place_Granted k) s = fst (place_granted k s)"
| "sl_step m (Place_Refused k) s = place_refused k s"
| "sl_step m (Place_Withdrawn k) s = place_withdrawn k s"
| "sl_step m (Place_Let_Go k) s = place_let_go k s"
| "sl_step m (Place_Over k) s = place_over k s"

section \<open>What holds of a tab\<close>

text \<open>How the gate's request, its retry timer and the rest fit, for a slot that was started.\<close>

fun gate_fits :: "bool \<Rightarrow> bool \<Rightarrow> bool \<Rightarrow> bool \<Rightarrow> gate_hold request \<Rightarrow> bool" where
  "gate_fits held stopped done retry Queued = (\<not> held \<and> \<not> retry \<and> done)"
| "gate_fits held stopped done retry (Holding Taking) = (\<not> held \<and> \<not> stopped \<and> \<not> retry)"
| "gate_fits held stopped done retry (Holding (Leaving r)) =
     (\<not> retry \<and> (case r of Fulfilled \<Rightarrow> held \<or> stopped | Failed \<Rightarrow> \<not> held \<and> done | Aborted \<Rightarrow> False))"
| "gate_fits held stopped done retry (Settled r) =
     (\<not> retry \<and> (case r of Fulfilled \<Rightarrow> held \<or> stopped | Failed \<Rightarrow> \<not> held \<and> done | Aborted \<Rightarrow> stopped))"
| "gate_fits held stopped done retry Handled = (stopped \<or> (if retry then \<not> held \<and> done else held))"
| "gate_fits held stopped done retry No_Request = (stopped \<or> (if retry then \<not> held \<and> done else held))"

text \<open>While the tab neither has a place nor stopped, a request only ends refused.\<close>

definition refusals_seen :: "slot \<Rightarrow> bool" where
  "refusals_seen s \<longleftrightarrow> (\<not> sl_held s \<and> \<not> sl_stopped s \<longrightarrow>
     Ended False \<notin> set (sl_places s) \<and> (Over \<in> set (sl_places s) \<longrightarrow> sl_failure s))"

definition places_fit :: "nat \<Rightarrow> slot \<Rightarrow> bool" where
  "places_fit m s \<longleftrightarrow> (sl_places s = [] \<or> length (sl_places s) = m) \<and>
     (\<forall>k k'. place_is s k Kept \<longrightarrow> place_is s k' Kept \<longrightarrow> k = k') \<and>
     (\<not> sl_stopped s \<longrightarrow> (sl_held s \<longleftrightarrow> (\<exists>k. place_is s k Kept)))"

definition slot_ok :: "nat \<Rightarrow> bool \<Rightarrow> slot \<Rightarrow> bool" where
  "slot_ok m started s \<longleftrightarrow> hl_ok (sl_held s) (sl_gate s) \<and> sl_stopped s = hl_stopped (sl_gate s) \<and>
     (sl_stopped s \<longrightarrow> \<not> sl_held s) \<and> places_fit m s \<and> refusals_seen s \<and>
     (hl_request (sl_gate s) = Holding Taking \<longrightarrow> length (sl_places s) = m \<and> \<not> (m > 0 \<and> all_over s)) \<and>
     (if started then gate_fits (sl_held s) (sl_stopped s) (all_over s) (hl_retry (sl_gate s)) (hl_request (sl_gate s))
      else hl_request (sl_gate s) = No_Request \<and> \<not> hl_retry (sl_gate s) \<and> sl_places s = [] \<and> \<not> sl_held s)"


lemma slot_ok_init: "slot_ok m False sl_init"
  by (simp add: slot_ok_def sl_init_def places_fit_def refusals_seen_def place_is_def) (simp add: hl_init_def)

text \<open>The events of the gate leave the places alone.\<close>

lemma slot_ok_gate:
  assumes "slot_ok m True s" and "hl_ok (sl_held s) g" and "hl_stopped g = sl_stopped s"
    and "gate_fits (sl_held s) (sl_stopped s) (all_over s) (hl_retry g) (hl_request g)"
    and "hl_request g = Holding Taking \<longrightarrow> hl_request (sl_gate s) = Holding Taking"
  shows "slot_ok m True (s\<lparr>sl_gate := g\<rparr>)"
  using assms by (simp add: slot_ok_def places_fit_def refusals_seen_def place_is_def all_over_def)

lemma slot_parts:
  assumes "slot_ok m True s"
  shows "hl_ok (sl_held s) (sl_gate s)" and "hl_stopped (sl_gate s) = sl_stopped s"
    and "sl_stopped s \<Longrightarrow> \<not> sl_held s" and "sl_stopped s \<Longrightarrow> \<not> hl_retry (sl_gate s)"
    and "gate_fits (sl_held s) (sl_stopped s) (all_over s) (hl_retry (sl_gate s)) (hl_request (sl_gate s))"
  using assms unfolding slot_ok_def hl_ok_def if_True by blast+

lemma gate_event_ok:
  assumes "slot_ok m True s"
    and "ev \<in> {Gate_Refused, Gate_Withdrawn, Gate_Returns, Gate_Handlers, Gate_Finally, Gate_Retry}"
  shows "slot_ok m True (sl_step m ev s)"
proof -
  note p = slot_parts [OF assms(1)]
  note ok = hl_ok_steps [OF p(1)]
  define g where "g = sl_gate s"
  have fits: "gate_fits (sl_held s) (hl_stopped g) (all_over s) (hl_retry g) (hl_request g)"
    and ok_g: "hl_ok (sl_held s) g" and st: "hl_stopped g \<Longrightarrow> \<not> sl_held s \<and> \<not> hl_retry g" "hl_stopped g = sl_stopped s"
    using p by (auto simp: g_def)
  have gate: "slot_ok m True (s\<lparr>sl_gate := g'\<rparr>)"
    if "hl_ok (sl_held s) g'" "hl_stopped g' = hl_stopped g"
      "gate_fits (sl_held s) (hl_stopped g) (all_over s) (hl_retry g') (hl_request g')"
      "hl_request g' = Holding Taking \<longrightarrow> hl_request g = Holding Taking" for g'
    using slot_ok_gate [OF assms(1), of g'] that st(2) by (simp add: g_def)
  show ?thesis
  proof (cases ev)
    case Gate_Refused
    have "slot_ok m True (s\<lparr>sl_gate := hl_refused g\<rparr>)"
      using fits ok(4) by (intro gate) (auto simp: g_def hl_refused_def split: if_splits)
    then show ?thesis by (simp add: Gate_Refused g_def)
  next
    case Gate_Withdrawn
    have "slot_ok m True (s\<lparr>sl_gate := hl_withdrawn g\<rparr>)"
      using fits ok(5) by (intro gate) (auto simp: g_def hl_withdrawn_def split: if_splits)
    then show ?thesis by (simp add: Gate_Withdrawn g_def)
  next
    case Gate_Returns
    show ?thesis
    proof (cases "\<exists>r. hl_request g = Holding (Leaving r)")
      case True
      then obtain r where r: "hl_request g = Holding (Leaving r)" by blast
      have "r = Failed \<or> hl_stopped g \<or> sl_held s" using fits r st by (cases r) auto
      then have "hl_ok (sl_held s) (hl_hold_ends r g)" by (rule hl_ok_ends [OF ok_g])
      then have "slot_ok m True (s\<lparr>sl_gate := hl_hold_ends r g\<rparr>)"
        using fits r by (intro gate) (auto simp: hl_hold_ends_def hl_holding_def split: outcome.splits)
      then show ?thesis using r by (simp add: Gate_Returns g_def gate_returns_def hl_holding_def)
    next
      case False
      then have "gate_returns s = s"
        by (auto simp: gate_returns_def hl_holding_def g_def split: request.split gate_hold.split)
      then show ?thesis using assms(1) by (simp add: Gate_Returns)
    qed
  next
    case Gate_Handlers
    have "slot_ok m True (s\<lparr>sl_gate := fst (hl_handle g)\<rparr>)"
      using fits ok(8) st by (intro gate) (auto simp: g_def hl_handle_def split: request.splits outcome.splits if_splits)
    then show ?thesis by (simp add: Gate_Handlers g_def)
  next
    case Gate_Finally
    have "slot_ok m True (s\<lparr>sl_gate := fst (hl_finish g)\<rparr>)"
      using fits ok(9) by (intro gate) (auto simp: g_def hl_finish_def split: if_splits)
    then show ?thesis by (simp add: Gate_Finally g_def)
  next
    case Gate_Retry
    have "slot_ok m True (s\<lparr>sl_gate := hl_retry_fires g\<rparr>)"
    proof (cases "hl_retry g \<and> hl_request g = No_Request")
      case True
      then show ?thesis using fits ok(7) st by (intro gate) (auto simp: g_def hl_retry_fires_def hl_start_def)
    next
      case False
      then have "hl_retry_fires g = g" using fits
        by (cases "hl_request g" rule: request.exhaust)
           (auto simp: hl_retry_fires_def hl_start_def, metis gate_fits.simps(2,3) gate_hold.exhaust)
      then show ?thesis using assms(1) by (simp add: g_def)
    qed
    then show ?thesis by (simp add: Gate_Retry g_def)
  qed (use assms(2) in simp_all)
qed

lemma start_ok:
  assumes "slot_ok m False s" shows "slot_ok m True (sl_start s)"
proof (cases "sl_stopped s")
  case True
  then have "sl_start s = s" using assms by (auto simp: slot_ok_def sl_start_def hl_start_def)
  then show ?thesis using assms True unfolding slot_ok_def by auto
next
  case False
  then show ?thesis using assms
    by (simp add: slot_ok_def sl_start_def hl_start_def places_fit_def refusals_seen_def place_is_def all_over_def hl_ok_def)
qed


lemma leave_gate_fields [simp]:
  "sl_held (leave_gate r s) = sl_held s" "sl_stopped (leave_gate r s) = sl_stopped s"
  "sl_places (leave_gate r s) = sl_places s" "sl_failure (leave_gate r s) = sl_failure s"
  "hl_stopped (sl_gate (leave_gate r s)) = hl_stopped (sl_gate s)"
  "hl_retry (sl_gate (leave_gate r s)) = hl_retry (sl_gate s)"
  by (simp_all add: leave_gate_def split: request.split gate_hold.split)

lemma leave_gate_request:
  "hl_request (sl_gate (leave_gate r s)) =
     (if hl_request (sl_gate s) = Holding Taking then Holding (Leaving r) else hl_request (sl_gate s))"
  by (simp add: leave_gate_def split: request.split gate_hold.split)

lemma leave_gate_ok: "hl_ok d (sl_gate s) \<Longrightarrow> hl_ok d (sl_gate (leave_gate r s))"
  by (simp add: hl_ok_def leave_gate_request)

lemma leave_gate_same [simp]:
  "place_is (leave_gate r s) k p = place_is s k p" "all_over (leave_gate r s) = all_over s"
  "places_fit m (leave_gate r s) = places_fit m s" "refusals_seen (leave_gate r s) = refusals_seen s"
  by (simp_all add: place_is_def all_over_def places_fit_def refusals_seen_def)

lemma set_place_fields [simp]:
  "sl_held (set_place k p s) = sl_held s" "sl_stopped (set_place k p s) = sl_stopped s"
  "sl_gate (set_place k p s) = sl_gate s" "sl_failure (set_place k p s) = sl_failure s"
  "length (sl_places (set_place k p s)) = length (sl_places s)"
  "sl_places s = [] \<Longrightarrow> sl_places (set_place k p s) = []"
  by (simp_all add: set_place_def)

lemma place_is_set:
  "place_is (set_place k p s) j q \<longleftrightarrow> (if j = k then k < length (sl_places s) \<and> q = p else place_is s j q)"
  by (auto simp: place_is_def set_place_def nth_list_update)

lemma place_is_in_set: "q \<in> set (sl_places s) \<longleftrightarrow> (\<exists>k. place_is s k q)"
  by (auto simp: place_is_def in_set_conv_nth)

lemma place_is_unique: "place_is s k p \<Longrightarrow> place_is s k q \<Longrightarrow> p = q"
  by (simp add: place_is_def)

lemma all_over_iff: "all_over s \<longleftrightarrow> (\<forall>k p. place_is s k p \<longrightarrow> p = Over)"
  by (auto simp: all_over_def list_all_length place_is_def)

lemma refusals_seen_iff: "refusals_seen s \<longleftrightarrow> (\<not> sl_held s \<and> \<not> sl_stopped s \<longrightarrow>
     (\<forall>k. \<not> place_is s k (Ended False)) \<and> ((\<exists>k. place_is s k Over) \<longrightarrow> sl_failure s))"
  by (simp add: refusals_seen_def place_is_in_set)

lemma not_all_over: "place_is s k p \<Longrightarrow> p \<noteq> Over \<Longrightarrow> \<not> all_over s"
  by (auto simp: all_over_iff)

lemma stop_ok:
  assumes "slot_ok m st s" shows "slot_ok m st (sl_stop s)"
proof (cases "sl_stopped s")
  case True
  then show ?thesis using assms by (simp add: sl_stop_def)
next
  case False
  define s' where "s' = leave_gate Fulfilled (s\<lparr>sl_stopped := True, sl_held := False\<rparr>)"
  define g where "g = sl_gate s'"
  have stop: "sl_stop s = s'\<lparr>sl_gate := hl_stop g\<rparr>" using False by (simp add: sl_stop_def s'_def g_def Let_def)
  have req: "hl_request g = (if hl_request (sl_gate s) = Holding Taking then Holding (Leaving Fulfilled) else hl_request (sl_gate s))"
    and fields: "\<not> hl_stopped g" "hl_retry g = hl_retry (sl_gate s)"
    using False assms by (simp_all add: g_def s'_def leave_gate_request slot_ok_def)
  have gate: "hl_request (hl_stop g) = hl_request g" "hl_stopped (hl_stop g)" "\<not> hl_retry (hl_stop g)"
    using fields by (simp_all add: hl_stop_def)
  have places: "sl_places s' = sl_places s" "sl_held s' = False" "sl_stopped s' = True" by (simp_all add: s'_def)
  have fit: "places_fit m (s'\<lparr>sl_gate := hl_stop g\<rparr>)"
    using assms places by (simp add: slot_ok_def places_fit_def place_is_def)
  have fits: "gate_fits False True (all_over s) False (hl_request g)"
    if "gate_fits (sl_held s) False (all_over s) (hl_retry (sl_gate s)) (hl_request (sl_gate s))"
    using that unfolding req
    by (cases "(sl_held s, False, all_over s, hl_retry (sl_gate s), hl_request (sl_gate s))" rule: gate_fits.cases)
       (auto split: outcome.splits)
  show ?thesis unfolding stop using assms fit fits gate places fields(2) req False
    by (simp add: slot_ok_def refusals_seen_def hl_ok_def all_over_def split: if_splits)
qed


text \<open>The shape of a slot in which one place's request moved on without a place being taken or given up.\<close>

lemma set_place_ok:
  assumes "slot_ok m st s" and "place_is s k q" and "q \<noteq> Kept \<or> sl_stopped s" and "p \<noteq> Kept" and "p \<noteq> Over" and "q \<noteq> Over"
    and "p = Ended False \<Longrightarrow> sl_held s \<or> sl_stopped s"
  shows "slot_ok m st (set_place k p s)"
proof -
  let ?s = "set_place k p s"
  have k: "k < length (sl_places s)" using assms(2) by (simp add: place_is_def)
  have now: "place_is ?s k p" using k by (simp add: place_is_set)
  have over: "\<not> all_over ?s" "\<not> all_over s"
    using not_all_over [OF now] not_all_over [OF assms(2)] assms(5,6) by auto
  have keeps: "place_is ?s j Kept \<Longrightarrow> place_is s j Kept" for j
    using assms(4) by (auto simp: place_is_set split: if_splits)
  have kept: "place_is ?s j Kept \<longleftrightarrow> place_is s j Kept" if "\<not> sl_stopped s" for j
    using place_is_unique [OF assms(2), of Kept] assms(3,4) that by (auto simp: place_is_set)
  have fit: "places_fit m ?s"
    using assms(1) keeps kept unfolding slot_ok_def places_fit_def by (auto simp: set_place_def)
  have seen: "refusals_seen ?s"
    using assms(1,5,7) unfolding slot_ok_def by (auto simp: refusals_seen_iff place_is_set split: if_splits)
  show ?thesis using assms(1) fit seen over k unfolding slot_ok_def
    by (auto split: if_splits)
qed

lemma place_granted_ok:
  assumes "slot_ok m st s" shows "slot_ok m st (fst (place_granted k s))"
proof (cases "place_is s k Waiting \<and> \<not> sl_held s \<and> \<not> sl_stopped s")
  case False
  then show ?thesis using assms set_place_ok [OF assms, of k Waiting "Ended False"]
    by (auto simp: place_granted_def)
next
  case True
  let ?s = "set_place k Kept (s\<lparr>sl_held := True\<rparr>)"
  have k: "place_is s k Waiting" "\<not> sl_held s" "\<not> sl_stopped s" "k < length (sl_places s)"
    using True by (auto simp: place_is_def)
  have none: "\<not> place_is s j Kept" for j using assms k unfolding slot_ok_def places_fit_def by blast
  have held_is: "place_is (s\<lparr>sl_held := h\<rparr>) j q = place_is s j q" for j q h by (simp add: place_is_def)
  have kept: "place_is ?s j Kept \<longleftrightarrow> j = k" for j using none k(4) by (simp add: place_is_set held_is)
  have over: "\<not> all_over ?s" "\<not> all_over s" using not_all_over [of ?s k Kept] not_all_over [OF k(1)] kept by auto
  have started: "st" using assms k(4) unfolding slot_ok_def by (cases st) auto
  have gate: "gate_fits False False False (hl_retry (sl_gate s)) (hl_request (sl_gate s))"
    using assms started k over unfolding slot_ok_def by simp
  then have req: "hl_request (sl_gate s) = Holding Taking"
    by (cases "(False, False, False, hl_retry (sl_gate s), hl_request (sl_gate s))" rule: gate_fits.cases)
       (auto split: outcome.splits if_splits)
  have "slot_ok m st (leave_gate Fulfilled ?s)"
    using assms started gate over k kept req unfolding slot_ok_def places_fit_def
    by (simp add: leave_gate_request refusals_seen_def hl_ok_def set_place_def)
  then show ?thesis using True by (simp add: place_granted_def)
qed

lemma fits_done:
  "gate_fits held stopped d retry req \<Longrightarrow> (d \<Longrightarrow> d') \<Longrightarrow> gate_fits held stopped d' retry req"
  by (cases "(held, stopped, d, retry, req)" rule: gate_fits.cases) (auto split: outcome.splits if_splits)

lemma place_over_ok:
  assumes "slot_ok m st s" shows "slot_ok m st (place_over k s)"
proof (cases "\<exists>f. place_is s k (Ended f)")
  case False
  then show ?thesis using assms by (simp add: place_over_def)
next
  case True
  then obtain f where f: "place_is s k (Ended f)" by blast
  let ?s = "set_place k Over (s\<lparr>sl_failure := sl_failure s \<or> f\<rparr>)"
  have k: "k < length (sl_places s)" using f by (simp add: place_is_def)
  have held_is: "place_is (s\<lparr>sl_failure := h\<rparr>) j q = place_is s j q" for j q h by (simp add: place_is_def)
  have over: "place_over k s = request_over ?s"
    using f place_is_unique [OF f, of "Ended True"] by (cases f) (auto simp: place_over_def)
  have st: "st" using assms k unfolding slot_ok_def by (cases st) auto
  have not_over: "\<not> all_over s" by (rule not_all_over [OF f]) simp
  have kept: "place_is ?s j Kept \<longleftrightarrow> place_is s j Kept" for j
    using place_is_unique [OF f, of Kept] by (auto simp: place_is_set held_is)
  have fit: "places_fit m ?s"
    using assms kept unfolding slot_ok_def places_fit_def by (auto simp: set_place_def)
  have seen: "refusals_seen ?s" and failed: "\<not> sl_held s \<Longrightarrow> \<not> sl_stopped s \<Longrightarrow> f"
  proof -
    show "f" if "\<not> sl_held s" "\<not> sl_stopped s"
      using assms that f unfolding slot_ok_def refusals_seen_iff by (cases f) auto
    then show "refusals_seen ?s"
      using assms unfolding slot_ok_def by (auto simp: refusals_seen_iff place_is_set held_is split: if_splits)
  qed
  have gate: "gate_fits (sl_held s) (sl_stopped s) (all_over ?s) (hl_retry (sl_gate s)) (hl_request (sl_gate s))"
    using assms st not_over fits_done unfolding slot_ok_def by auto
  have base: "hl_ok (sl_held s) (sl_gate s)" "sl_stopped s = hl_stopped (sl_gate s)" "sl_stopped s \<Longrightarrow> \<not> sl_held s"
    "hl_request (sl_gate s) = Holding Taking \<Longrightarrow> length (sl_places s) = m"
    using assms unfolding slot_ok_def by auto
  show ?thesis
  proof (cases "all_over ?s \<and> \<not> sl_held s \<and> hl_request (sl_gate s) = Holding Taking")
    case True
    then have "\<not> sl_stopped s" using gate by simp
    then have "request_over ?s = leave_gate Failed ?s" using True failed by (simp add: request_over_def)
    then show ?thesis unfolding over using base fit seen gate st True leave_gate_ok [OF base(1)]
      by (simp add: slot_ok_def leave_gate_request hl_ok_def)
  next
    case False
    have "leave_gate r ?s = ?s" if "hl_request (sl_gate s) \<noteq> Holding Taking" for r
      using that by (simp add: leave_gate_def split: request.split gate_hold.split)
    then have "request_over ?s = ?s" using False by (auto simp: request_over_def)
    moreover have "\<not> (hl_request (sl_gate s) = Holding Taking \<and> all_over ?s)" using False gate by auto
    ultimately show ?thesis unfolding over using base fit seen gate st by (auto simp: slot_ok_def)
  qed
qed

lemma gate_granted_ok:
  assumes "slot_ok m st s" shows "slot_ok m st (gate_granted m s)"
proof (cases "hl_request (sl_gate s) = Queued")
  case False
  then show ?thesis using assms by (simp add: gate_granted_def hl_granted_def)
next
  case queued: True
  then have st: "st" using assms unfolding slot_ok_def by (cases st) auto
  have fits: "\<not> sl_held s" "\<not> hl_retry (sl_gate s)" "all_over s" using assms queued st by (simp_all add: slot_ok_def)
  show ?thesis
  proof (cases "hl_stopped (sl_gate s)")
    case True
    then show ?thesis using assms queued st fits
      by (simp add: gate_granted_def hl_granted_def slot_ok_def places_fit_def refusals_seen_def place_is_def all_over_def hl_ok_def)
  next
    case False
    then show ?thesis using assms queued st fits
      by (auto simp: gate_granted_def hl_granted_def slot_ok_def places_fit_def refusals_seen_def place_is_def all_over_def
          hl_ok_def list_all_length)
  qed
qed

lemma sl_step_ok:
  assumes "slot_ok m st s" and "ev \<noteq> Sl_Start"
  shows "slot_ok m st (sl_step m ev s)"
proof (cases "ev \<in> {Gate_Refused, Gate_Withdrawn, Gate_Returns, Gate_Handlers, Gate_Finally, Gate_Retry}")
  case True
  show ?thesis
  proof (cases st)
    case True
    then show ?thesis using gate_event_ok [of m s ev] assms(1) \<open>ev \<in> _\<close> by simp
  next
    case False
    then have "hl_request (sl_gate s) = No_Request" "\<not> hl_retry (sl_gate s)" using assms(1) by (simp_all add: slot_ok_def)
    then have "sl_step m ev s = s" using \<open>ev \<in> _\<close>
      by (auto simp: hl_refused_def hl_withdrawn_def gate_returns_def hl_handle_def hl_finish_def hl_retry_fires_def hl_holding_def)
    then show ?thesis using assms(1) by simp
  qed
next
  case False
  then show ?thesis
  proof (cases ev)
    case (Place_Refused k)
    then show ?thesis using assms(1) set_place_ok [OF assms(1), of k Waiting "Ended True"] by (simp add: place_refused_def)
  next
    case (Place_Withdrawn k)
    then show ?thesis using assms(1) set_place_ok [OF assms(1), of k Waiting "Ended False"] by (auto simp: place_withdrawn_def)
  next
    case (Place_Let_Go k)
    then show ?thesis using assms(1) set_place_ok [OF assms(1), of k Kept "Ended False"] by (auto simp: place_let_go_def)
  qed (use assms stop_ok gate_granted_ok place_granted_ok place_over_ok in simp_all)
qed


lemma sl_stopped_step: "sl_stopped (sl_step m ev s) \<longleftrightarrow> sl_stopped s \<or> ev = Sl_Stop"
  by (cases ev) (auto simp: sl_start_def sl_stop_def gate_granted_def gate_returns_def place_granted_def
      place_refused_def place_withdrawn_def place_let_go_def place_over_def request_over_def Let_def
      split: option.split gate_hold.split)

section \<open>Any number of tabs\<close>

text \<open>
  Every place has a lock of its own, and so has the gate. A tab's session starts its slot once.
\<close>

record slot_sys =
  ss_tabs :: "nat \<Rightarrow> slot"
  ss_gate :: "nat option"
  ss_places :: "nat \<Rightarrow> nat option"
  ss_started :: "nat list"
  ss_dead :: "nat list"

definition ss_init :: slot_sys where
  "ss_init = \<lparr>ss_tabs = (\<lambda>i. sl_init), ss_gate = None, ss_places = (\<lambda>k. None), ss_started = [], ss_dead = []\<rparr>"

datatype places_event = Tab_Event nat slot_event | Tab_Dies nat

fun lock_is_free :: "slot_sys \<Rightarrow> nat \<Rightarrow> slot_event \<Rightarrow> bool" where
  "lock_is_free s i Gate_Granted = (ss_gate s = None)"
| "lock_is_free s i (Place_Granted k) = (ss_places s k = None)"
| "lock_is_free s i Sl_Start = (i \<notin> set (ss_started s))"
| "lock_is_free s i _ = True"

fun ss_step :: "nat \<Rightarrow> places_event \<Rightarrow> slot_sys \<Rightarrow> slot_sys" where
  "ss_step m (Tab_Event i ev) s =
     (if i \<in> set (ss_dead s) \<or> \<not> lock_is_free s i ev then s
      else (let t = sl_step m ev (ss_tabs s i) in
        s\<lparr>ss_tabs := (ss_tabs s)(i := t),
          ss_gate := new_holder i (hl_holding (sl_gate t) \<noteq> None) (ss_gate s),
          ss_places := (\<lambda>k. new_holder i (place_is t k Kept) (ss_places s k)),
          ss_started := (if ev = Sl_Start then i # ss_started s else ss_started s)\<rparr>))"
| "ss_step m (Tab_Dies i) s =
     s\<lparr>ss_dead := i # ss_dead s, ss_gate := new_holder i False (ss_gate s),
       ss_places := (\<lambda>k. new_holder i False (ss_places s k))\<rparr>"

definition runs :: "slot_sys \<Rightarrow> nat \<Rightarrow> bool" where
  "runs s i \<longleftrightarrow> i \<notin> set (ss_dead s)"

definition in_gate :: "slot_sys \<Rightarrow> nat \<Rightarrow> bool" where
  "in_gate s i \<longleftrightarrow> runs s i \<and> hl_holding (sl_gate (ss_tabs s i)) \<noteq> None"

definition in_place :: "nat \<Rightarrow> slot_sys \<Rightarrow> nat \<Rightarrow> bool" where
  "in_place k s i \<longleftrightarrow> runs s i \<and> place_is (ss_tabs s i) k Kept"

definition uses :: "slot_sys \<Rightarrow> nat \<Rightarrow> bool" where
  "uses s i \<longleftrightarrow> runs s i \<and> sl_held (ss_tabs s i)"

definition ss_ok :: "nat \<Rightarrow> slot_sys \<Rightarrow> bool" where
  "ss_ok m s \<longleftrightarrow> (\<forall>i. slot_ok m (i \<in> set (ss_started s)) (ss_tabs s i)) \<and>
     (\<forall>i. in_gate s i \<longleftrightarrow> ss_gate s = Some i) \<and> (\<forall>k i. in_place k s i \<longleftrightarrow> ss_places s k = Some i)"

lemma ss_ok_init: "ss_ok m ss_init"
proof -
  have "hl_holding (sl_gate sl_init) = None" "\<not> place_is sl_init k p" for k p
    by (simp_all add: sl_init_def hl_init_def hl_holding_def place_is_def)
  then show ?thesis by (simp add: ss_ok_def ss_init_def slot_ok_init in_gate_def in_place_def)
qed

lemma sl_step_gate:
  "hl_holding (sl_gate (sl_step m ev s)) \<noteq> None \<Longrightarrow> hl_holding (sl_gate s) = None \<Longrightarrow> ev = Gate_Granted"
proof (cases ev)
  case Sl_Stop
  assume "hl_holding (sl_gate (sl_step m ev s)) \<noteq> None" "hl_holding (sl_gate s) = None"
  then show ?thesis
    by (auto simp: Sl_Stop sl_stop_def Let_def hl_stop_def hl_holding_def leave_gate_def split: request.splits if_splits gate_hold.splits)
next
  case (Place_Granted k)
  assume "hl_holding (sl_gate (sl_step m ev s)) \<noteq> None" "hl_holding (sl_gate s) = None"
  then show ?thesis
    by (auto simp: Place_Granted place_granted_def hl_holding_def leave_gate_def split: request.splits if_splits gate_hold.splits)
next
  case (Place_Over k)
  assume "hl_holding (sl_gate (sl_step m ev s)) \<noteq> None" "hl_holding (sl_gate s) = None"
  then show ?thesis
    by (auto simp: Place_Over place_over_def request_over_def hl_holding_def leave_gate_def split: request.splits if_splits gate_hold.splits)
qed (auto simp: sl_start_def gate_granted_def gate_returns_def place_refused_def place_withdrawn_def place_let_go_def
      hl_defs hl_handle_def hl_finish_def hl_holding_def split: request.splits if_splits gate_hold.splits option.splits)

lemma sl_step_kept:
  assumes "slot_ok m st s" and "place_is (sl_step m ev s) k Kept" and "\<not> place_is s k Kept"
  shows "ev = Place_Granted k"
proof -
  have moved: "place_is (set_place j p s') k Kept \<Longrightarrow> p \<noteq> Kept \<Longrightarrow> place_is s' k Kept" for j p s'
    by (auto simp: place_is_set split: if_splits)
  have other: "place_is (s\<lparr>sl_failure := f\<rparr>) k Kept = place_is s k Kept" "place_is (s\<lparr>sl_held := h\<rparr>) k Kept = place_is s k Kept"
    "place_is (s\<lparr>sl_gate := g\<rparr>) k Kept = place_is s k Kept"
    "place_is (s\<lparr>sl_stopped := h, sl_held := h'\<rparr>) k Kept = place_is s k Kept" for f h h' g
    by (simp_all add: place_is_def)
  show ?thesis
  proof (cases ev)
    case Gate_Granted
    then show ?thesis using assms(2,3) by (auto simp: gate_granted_def place_is_def split: if_splits)
  next
    case (Place_Granted j)
    then show ?thesis using assms(2,3) moved
      by (auto simp: place_granted_def place_is_set other split: if_splits)
  next
    case (Place_Over j)
    then show ?thesis using assms(2,3)
      by (auto simp: place_over_def request_over_def place_is_set other split: if_splits)
  next
    case Sl_Stop
    then show ?thesis using assms(2,3) by (auto simp: sl_stop_def Let_def place_is_def split: if_splits)
  next
    case Gate_Returns
    then show ?thesis using assms(2,3) by (auto simp: gate_returns_def place_is_def split: option.splits gate_hold.splits)
  qed (use assms(2,3) in \<open>auto simp: sl_start_def place_refused_def place_withdrawn_def place_let_go_def place_is_set other
      split: if_splits\<close>)
qed


lemma ss_ok_step:
  assumes ok: "ss_ok m s"
  shows "ss_ok m (ss_step m ev s)"
proof (cases ev)
  case (Tab_Dies i)
  then show ?thesis using ok
    by (auto simp: ss_ok_def in_gate_def in_place_def runs_def new_holder_def)
next
  case (Tab_Event i ev')
  show ?thesis
  proof (cases "i \<in> set (ss_dead s) \<or> \<not> lock_is_free s i ev'")
    case True
    then show ?thesis using ok Tab_Event by auto
  next
    case False
    let ?t = "sl_step m ev' (ss_tabs s i)"
    let ?s = "ss_step m ev s"
    have tab: "slot_ok m (i \<in> set (ss_started s)) (ss_tabs s i)"
      and gate: "\<And>j. in_gate s j \<longleftrightarrow> ss_gate s = Some j" and places: "\<And>k j. in_place k s j \<longleftrightarrow> ss_places s k = Some j"
      using ok unfolding ss_ok_def by blast+
    have up: "runs s i" using False by (simp add: runs_def)
    have fields: "ss_tabs ?s = (ss_tabs s)(i := ?t)" "ss_gate ?s = new_holder i (hl_holding (sl_gate ?t) \<noteq> None) (ss_gate s)"
      "ss_places ?s = (\<lambda>k. new_holder i (place_is ?t k Kept) (ss_places s k))" "ss_dead ?s = ss_dead s"
      "ss_started ?s = (if ev' = Sl_Start then i # ss_started s else ss_started s)"
      using False Tab_Event by (simp_all add: Let_def)
    have "slot_ok m (i \<in> set (ss_started ?s)) ?t"
    proof (cases "ev' = Sl_Start")
      case True
      then show ?thesis using start_ok [of m "ss_tabs s i"] tab False fields(5) by simp
    next
      case other: False
      then show ?thesis using sl_step_ok [OF tab other] fields(5) by simp
    qed
    then have tabs: "slot_ok m (j \<in> set (ss_started ?s)) (ss_tabs ?s j)" for j
      using ok fields(1,5) unfolding ss_ok_def by auto
    have free: "ss_gate s = None" if "hl_holding (sl_gate ?t) \<noteq> None" "ss_gate s \<noteq> Some i"
    proof -
      have "hl_holding (sl_gate (ss_tabs s i)) = None" using gate [of i] up that(2) unfolding in_gate_def by blast
      then have "ev' = Gate_Granted" using sl_step_gate [OF that(1)] by blast
      then show ?thesis using False by simp
    qed
    have empty: "ss_places s k = None" if "place_is ?t k Kept" "ss_places s k \<noteq> Some i" for k
    proof -
      have "\<not> place_is (ss_tabs s i) k Kept" using places [of k i] up that(2) unfolding in_place_def by blast
      then have "ev' = Place_Granted k" using sl_step_kept [OF tab that(1)] by blast
      then show ?thesis using False by simp
    qed
    have "in_gate ?s j \<longleftrightarrow> ss_gate ?s = Some j" for j
    proof (cases "j = i")
      case True
      then show ?thesis using up fields by (auto simp: in_gate_def runs_def new_holder_def)
    next
      case other: False
      then have "in_gate ?s j \<longleftrightarrow> in_gate s j" using fields by (simp add: in_gate_def runs_def)
      then show ?thesis using gate [of j] free other fields(2) by (auto simp: new_holder_def)
    qed
    moreover have "in_place k ?s j \<longleftrightarrow> ss_places ?s k = Some j" for k j
    proof (cases "j = i")
      case True
      then show ?thesis using up fields by (auto simp: in_place_def runs_def new_holder_def)
    next
      case other: False
      then have "in_place k ?s j \<longleftrightarrow> in_place k s j" using fields by (simp add: in_place_def runs_def)
      then show ?thesis using places [of k j] empty [of k] other fields(3) by (auto simp: new_holder_def)
    qed
    ultimately show ?thesis using tabs by (simp add: ss_ok_def)
  qed
qed

interpretation gate: exclusive_lock "ss_ok m" ss_init "ss_step m" ss_gate in_gate for m
  by unfold_locales (auto simp: ss_ok_init ss_ok_step, simp add: ss_ok_def)

interpretation place_lock: exclusive_lock "ss_ok m" ss_init "ss_step m" "\<lambda>s. ss_places s k" "in_place k" for m k
  by unfold_locales (auto simp: ss_ok_init ss_ok_step, simp add: ss_ok_def)

lemma uses_a_place:
  assumes "ss_ok m s" and "uses s i"
  shows "\<exists>k < m. ss_places s k = Some i"
proof -
  have slot: "slot_ok m (i \<in> set (ss_started s)) (ss_tabs s i)" and held: "sl_held (ss_tabs s i)" and up: "runs s i"
    using assms by (auto simp: ss_ok_def uses_def)
  have fit: "places_fit m (ss_tabs s i)" "\<not> sl_stopped (ss_tabs s i)"
    using slot held unfolding slot_ok_def by blast+
  then obtain k where k: "place_is (ss_tabs s i) k Kept" using held unfolding places_fit_def by blast
  then have "k < m" using fit(1) unfolding places_fit_def place_is_def by auto
  moreover have "in_place k s i" using k up by (simp add: in_place_def)
  ultimately show ?thesis using assms(1) unfolding ss_ok_def by blast
qed

text \<open>
  C11. The tab limit holds. Over any number of tabs queueing, stopping, failing and dying in any order, at
  most \<open>maxTabs\<close> of them count as using the configuration at once, each holding a place no other one
  holds.
\<close>

theorem at_most_max_tabs:
  "finite {i. uses (fold (ss_step m) evs ss_init) i} \<and> card {i. uses (fold (ss_step m) evs ss_init) i} \<le> m"
proof -
  define s where "s = fold (ss_step m) evs ss_init"
  have ok: "ss_ok m s" unfolding s_def by (rule gate.system_reachable_ok)
  have "{i. uses s i} \<subseteq> (\<lambda>k. the (ss_places s k)) ` {..<m}"
  proof
    fix i assume "i \<in> {i. uses s i}"
    then obtain k where "k < m" "ss_places s k = Some i" using uses_a_place [OF ok, of i] by blast
    then show "i \<in> (\<lambda>k. the (ss_places s k)) ` {..<m}" by (intro image_eqI [of _ _ k]) simp_all
  qed
  then have "finite {i. uses s i}" "card {i. uses s i} \<le> card ((\<lambda>k. the (ss_places s k)) ` {..<m})"
    by (auto intro: finite_subset card_mono)
  moreover have "card ((\<lambda>k. the (ss_places s k)) ` {..<m}) \<le> m"
    using card_image_le [of "{..<m}"] by simp
  ultimately show ?thesis by (simp add: s_def)
qed

lemma started_stays: "set (ss_started s) \<subseteq> set (ss_started (ss_step m ev s))"
  by (cases ev) (auto simp: Let_def)

text \<open>
  Nobody is left out. A tab that has started and not stopped has a place, or its request for one is
  under way or will be made again after a refusal; and while it is inside the gate, being granted any free
  place it still waits for gives it that place.
\<close>

theorem place_or_queued:
  assumes "s = fold (ss_step m) evs ss_init" and "i \<in> set (ss_started s)" and "\<not> sl_stopped (ss_tabs s i)"
    and "runs s i"
  shows "(uses s i \<or> hl_trying (sl_gate (ss_tabs s i))) \<and>
    (if place_is (ss_tabs s i) k Waiting \<and> ss_places s k = None \<and> \<not> uses s i
     then uses (ss_step m (Tab_Event i (Place_Granted k)) s) i else True)"
proof -
  have "ss_ok m s" unfolding assms(1) by (rule gate.system_reachable_ok)
  then have "slot_ok m (i \<in> set (ss_started s)) (ss_tabs s i)" unfolding ss_ok_def by blast
  then have slot: "slot_ok m True (ss_tabs s i)" using assms(2) by (simp only: simp_thms)
  have "gate_fits (sl_held (ss_tabs s i)) False (all_over (ss_tabs s i)) (hl_retry (sl_gate (ss_tabs s i)))
      (hl_request (sl_gate (ss_tabs s i)))"
    using slot_parts(5) [OF slot] assms(3) by simp
  then have "sl_held (ss_tabs s i) \<or> hl_trying (sl_gate (ss_tabs s i))"
    by (cases "(sl_held (ss_tabs s i), False, all_over (ss_tabs s i), hl_retry (sl_gate (ss_tabs s i)),
          hl_request (sl_gate (ss_tabs s i)))" rule: gate_fits.cases)
       (auto simp: hl_trying_def hl_holding_def split: outcome.splits if_splits)
  then show ?thesis using assms(3,4)
    by (auto simp: uses_def runs_def Let_def place_granted_def)
qed


definition sample_places :: "places_event list" where
  "sample_places = [Tab_Event 0 Sl_Start, Tab_Event 1 Sl_Start, Tab_Event 0 Gate_Granted]"

lemma place_or_queued_witness:
  "(uses (fold (ss_step 1) sample_places ss_init) 0 \<or> hl_trying (sl_gate (ss_tabs (fold (ss_step 1) sample_places ss_init) 0))) \<and>
   uses (ss_step 1 (Tab_Event 0 (Place_Granted 0)) (fold (ss_step 1) sample_places ss_init)) 0"
proof -
  let ?s = "fold (ss_step 1) sample_places ss_init"
  have now: "0 \<in> set (ss_started ?s)" "\<not> sl_stopped (ss_tabs ?s 0)" "runs ?s 0"
    and waits: "place_is (ss_tabs ?s 0) 0 Waiting \<and> ss_places ?s 0 = None \<and> \<not> uses ?s 0"
    by (simp_all add: sample_places_def ss_init_def sl_init_def hl_init_def sl_start_def hl_defs gate_granted_def Let_def
        runs_def uses_def place_is_def new_holder_def)
  note both = place_or_queued [OF refl now, of 0]
  show ?thesis using both unfolding if_P [OF waits] .
qed

end
