(* ===== verification/Persistence_Hold.thy ===== *)
theory Persistence_Hold
  imports Lock_Names
begin

text \<open>
  Forgetting a remembered configuration unless a tab still runs it (\<open>storage/persistence-hold.ts\<close>). What
  the browser answers to the n-th request of the lock, and to the n-th question who holds it, are the
  arguments; the result is whether the entry was forgotten, how often the lock was asked for, and how it
  ended.
\<close>

datatype hold_answer = Hold_Free | Hold_Unavailable | Hold_Refused

datatype query_answer = No_Query | Query_Fails | Holders "js_string list"

datatype forget_end = Forgotten | Kept_Entry | Hold_Failed

definition attempts_after_a_refusal :: nat where
  "attempts_after_a_refusal = 3"

definition persistence_lock_name :: "js_string \<Rightarrow> js_string" where
  "persistence_lock_name config = js (namespace @ ''/persisted/v'' @ nat_digits 1 @ ''/'') @ config"

text \<open>\<open>someoneHolds\<close>; \<open>None\<close> where the question itself is refused.\<close>

fun someone_holds :: "js_string \<Rightarrow> query_answer \<Rightarrow> bool option" where
  "someone_holds name No_Query = Some True"
| "someone_holds name Query_Fails = None"
| "someone_holds name (Holders held) = Some (list_ex (\<lambda>l. l = name) held)"

function forget_from :: "(nat \<Rightarrow> hold_answer) \<Rightarrow> (nat \<Rightarrow> query_answer) \<Rightarrow> js_string \<Rightarrow> nat \<Rightarrow> nat \<times> forget_end" where
  "forget_from ask who name attempt =
     (case ask attempt of
        Hold_Refused \<Rightarrow> (Suc attempt, Hold_Failed)
      | Hold_Free \<Rightarrow> (Suc attempt, Forgotten)
      | Hold_Unavailable \<Rightarrow>
          if attempts_after_a_refusal \<le> attempt then (Suc attempt, Kept_Entry)
          else (case someone_holds name (who attempt) of
                  None \<Rightarrow> (Suc attempt, Hold_Failed)
                | Some True \<Rightarrow> (Suc attempt, Kept_Entry)
                | Some False \<Rightarrow> forget_from ask who name (Suc attempt)))"
  by pat_completeness auto

termination
  by (relation "measure (\<lambda>(ask, who, name, attempt). attempts_after_a_refusal - attempt)")
     (auto split: if_splits)

declare forget_from.simps [simp del]

definition forget_unless_held :: "(nat \<Rightarrow> hold_answer) \<Rightarrow> (nat \<Rightarrow> query_answer) \<Rightarrow> js_string \<Rightarrow> nat \<times> forget_end" where
  "forget_unless_held ask who config = forget_from ask who (persistence_lock_name config) 0"

lemma forget_from_ends:
  "forget_from ask who name n = (k, r) \<Longrightarrow> n \<le> attempts_after_a_refusal \<Longrightarrow>
     n < k \<and> k \<le> Suc attempts_after_a_refusal \<and>
     (\<forall>j. n \<le> j \<longrightarrow> Suc j < k \<longrightarrow> ask j = Hold_Unavailable \<and> someone_holds name (who j) = Some False) \<and>
     (r = Forgotten \<longleftrightarrow> ask (k - 1) = Hold_Free)"
proof (induction ask who name n arbitrary: k r rule: forget_from.induct)
  case (1 ask who name n)
  note now = "1.prems"(1) [unfolded forget_from.simps [of ask who name n]]
  show ?case
  proof (cases "ask n")
    case Hold_Unavailable
    show ?thesis
    proof (cases "attempts_after_a_refusal \<le> n")
      case True
      then show ?thesis using now "1.prems"(2) Hold_Unavailable by auto
    next
      case False
      show ?thesis
      proof (cases "someone_holds name (who n) = Some False")
        case again: True
        have next_ask: "forget_from ask who name (Suc n) = (k, r)"
          using now Hold_Unavailable False again by simp
        have ih: "Suc n < k \<and> k \<le> Suc attempts_after_a_refusal \<and>
            (\<forall>j. Suc n \<le> j \<longrightarrow> Suc j < k \<longrightarrow> ask j = Hold_Unavailable \<and> someone_holds name (who j) = Some False) \<and>
            (r = Forgotten \<longleftrightarrow> ask (k - 1) = Hold_Free)"
          using "1.IH" [OF Hold_Unavailable False again _ next_ask] False by simp
        then show ?thesis using Hold_Unavailable again by (metis Suc_leI Suc_lessD le_neq_implies_less)
      next
        case other: False
        then show ?thesis using now "1.prems"(2) Hold_Unavailable False
          by (auto split: option.splits bool.splits)
      qed
    qed
  qed (use now "1.prems"(2) in auto)
qed

text \<open>
  C30. Forgetting comes to an end, and never without the lock. The lock is asked for at most four times; the
  entry is forgotten exactly when the last request was granted; and it is only asked for again after the
  browser has said that nobody holds it.
\<close>

theorem forgetting_ends:
  "case forget_unless_held ask who config of (k, r) \<Rightarrow>
     0 < k \<and> k \<le> 4 \<and> (r = Forgotten \<longleftrightarrow> ask (k - 1) = Hold_Free) \<and>
     list_all (\<lambda>j. ask j = Hold_Unavailable \<and> someone_holds (persistence_lock_name config) (who j) = Some False) [0..<k - 1]"
proof (cases "forget_unless_held ask who config")
  case (Pair k r)
  then show ?thesis using forget_from_ends [of ask who "persistence_lock_name config" 0 k r]
    by (auto simp: forget_unless_held_def attempts_after_a_refusal_def list_all_iff)
qed

end
