(* ===== verification/Session.thy ===== *)
theory Session
  imports Decode Rate_Limit Owner_Terms
begin

text \<open>
  One configuration in one browsing context (\<open>client/configuration-session.ts\<close>): what the session decides
  itself - its status, its terms, joining and leaving the bus, releasing, withdrawing, answering - and what
  it says to its collaborators, which are outputs. What the collaborators answer are tasks that arrive.

  The program is single-threaded, but the application's listeners run in the middle of its functions and
  call back into it, and so do the supervisor and the pending writes. A function is therefore a stack of
  tasks: what it does up to the point where it calls out, and the tasks that follow. At every step any calls
  from outside may come first; what arrives by itself waits until the stack is empty. An \<open>await\<close> ends a
  task, and what follows it arrives later, with anything in between.
  Timestamps and log records are left out, and \<open>se_name\<close> is the configuration's name as error texts carry it.
\<close>

section \<open>What is said and heard\<close>

text \<open>The messages about a configuration, with errors rebuilt. \<open>Bm_Other\<close> stands for the broker's bookkeeping
  and for diagnostics, which the session does nothing about.\<close>

datatype bus_message =
    Bm_Status_Request bool "resolved_device option"
  | Bm_Claimed term_id limit
  | Bm_Released term_id
  | Bm_Write_Request request_id bytes term_id
  | Bm_Write_Ready request_id term_id
  | Bm_Write_Approval request_id term_id bool
  | Bm_Write_Result request_id "sb_error option" "term_id option"
  | Bm_Data_Received bytes "js_string option"
  | Bm_Data_Sent bytes client_id
  | Bm_Status status limit status_device term_id
  | Bm_Error sb_error
  | Bm_Other

datatype recipient = To_All | To_One client_id

datatype emission =
    On_Receive bytes "js_string option" bool
  | On_Send bytes bool
  | On_Error_Report sb_error
  | On_Status_Change status status
  | On_Status_Told status

datatype said =
    Sent recipient bus_message
  | Attached
  | Detached
  | Emitted emission
  | Slot_Start
  | Slot_Stop
  | Election_Start
  | Election_Stop
  | Take_Own_Term term_id limit
  | End_Own_Term term_id
  | Dispose_Of_Terms
  | Authorize client_id bus_message
  | Add_Write bytes
  | Fail_All_Writes sb_error
  | Dispatch_Waiting_Writes
  | Resend_Writes
  | Result_For_Write request_id "term_id option" "sb_error option"
  | Term_Over_For_Writes term_id
  | Supervisor_Start term_id bool
  | Supervisor_Stop term_id
  | Supervisor_Retry term_id
  | Supervisor_Follow term_id
  | Supervisor_Use_Granted term_id
  | Supervisor_Device term_id bool
  | Port_Write term_id client_id request_id bytes
  | Approval_Taken client_id request_id term_id bool
  | Queue_Goodbye term_id
  | Device_Resolved resolved_device
  | Open_Picker bool
  | Pick_Awaited bool
  | Arm_Answer_Timer
  | Rejected sb_error

datatype task =
    \<comment> \<open>the application, through the client\<close>
    Call_Start
  | Call_Retry
  | Call_Release
  | Call_Send bytes
  | Call_Request_Access bool
  | Call_Report sb_error
  | Call_Resolve resolved_device
    \<comment> \<open>the collaborators\<close>
  | Place_Acquired
  | Bus_Reconnected
  | Heard client_id bus_message
  | Believed client_id bus_message bool millis
  | Term_Ended term_id bool
  | Term_Acquired term_id
  | Ownership_Lost
  | Supervisor_Status term_id status
  | Supervisor_Data term_id bytes "js_string option"
  | Supervisor_Error term_id sb_error
  | Supervisor_Stopped term_id
  | Write_Asks term_id client_id request_id
  | Write_Done term_id client_id request_id bytes "sb_error option"
  | Write_Dispatched request_id bytes term_id
  | Device_Event bool
  | Answer_Timer_Fires millis
  | Picked bool "sb_error + port_info"
  | Tell_Status
  | Stop_Awaited
  | Election_Over
  | Pick_Done bool
    \<comment> \<open>the rest of a function\<close>
  | After_Status status
  | Say "said list"
  | Clear_Listeners
  | Withdraw_Rest sb_error
  | Answer_Status millis

datatype release_stage = Not_Releasing | Awaiting_Stop | Awaiting_Election | Finished_Release

record session =
  se_config :: configuration
  se_status :: status
  se_last_error :: "error_code option"
  se_released :: bool
  se_joined :: bool
  se_after_gap :: bool
  se_withdrawal :: "sb_error option"
  se_term :: "term_id option"
  se_supervisor :: "term_id option"
  se_delayed_answer :: bool
  se_answers :: rate_limiter
  se_stage :: release_stage
  se_stopping :: "term_id option"
  se_cleared :: bool
  \<comment> \<open>what the collaborators know\<close>
  se_owner :: bool
  se_election_stopped :: bool
  se_disposed :: bool
  se_detached :: bool
  se_writes_failed :: bool

record session_env =
  se_client :: client_id
  se_name :: config_name

definition se_init :: "configuration \<Rightarrow> millis \<Rightarrow> session" where
  "se_init c now = \<lparr>se_config = c, se_status = Status_Idle, se_last_error = None, se_released = False,
     se_joined = False, se_after_gap = True, se_withdrawal = None, se_term = None, se_supervisor = None,
     se_delayed_answer = False, se_answers = limiter_init status_answer_rate now, se_stage = Not_Releasing,
     se_stopping = None, se_cleared = False, se_owner = False, se_election_stopped = False, se_disposed = False,
     se_detached = False, se_writes_failed = False\<rparr>"

type_synonym performed = "session \<times> said list \<times> task list"

definition quiet :: "session \<Rightarrow> performed" where
  "quiet s = (s, [], [])"

definition says :: "said list \<Rightarrow> session \<Rightarrow> performed" where
  "says xs s = (s, xs, [])"

text \<open>One call after another; the second runs before what the first left to do when the first calls nobody
  out, and after it otherwise.\<close>

definition followed_by :: "performed \<Rightarrow> task list \<Rightarrow> performed" where
  "followed_by p ts = (case p of (s, xs, ks) \<Rightarrow> (s, xs, ks @ ts))"

definition preceded_by :: "said list \<Rightarrow> performed \<Rightarrow> performed" where
  "preceded_by xs p = (case p of (s, ys, ks) \<Rightarrow> (s, xs @ ys, ks))"

section \<open>Errors\<close>

definition released_error :: "session_env \<Rightarrow> string \<Rightarrow> sb_error" where
  "released_error v msg = mk_error CONFIGURATION_RELEASED msg (no_options\<lparr>opt_config := Some (se_name v)\<rparr>)"

fun limit_label :: "limit \<Rightarrow> string" where
  "limit_label (Limit n) = nat_digits (nat n)"
| "limit_label Unlimited = ''Infinity''"

fun limit_context :: "limit \<Rightarrow> ctx_value" where
  "limit_context (Limit n) = CInt n"
| "limit_context Unlimited = CValue (JNumber Pos_Infinity)"

definition conflict_error :: "session_env \<Rightarrow> limit \<Rightarrow> limit \<Rightarrow> sb_error" where
  "conflict_error v own holding = mk_error CONFIGURATION_CONFLICT
     (''\"'' @ se_name v @ ''\" is used with maxTabs '' @ limit_label holding @ '' by the tab holding the port, and with maxTabs '' @
      limit_label own @ '' in this tab'')
     (no_options\<lparr>opt_config := Some (se_name v),
        opt_context := [(''maxTabs'', limit_context own), (''holdingTabMaxTabs'', limit_context holding)]\<rparr>)"

definition choose_again_error :: "session_env \<Rightarrow> string \<Rightarrow> sb_error" where
  "choose_again_error v kind = mk_error INVALID_ARGUMENT
     (''\"'' @ se_name v @ ''\" names its device, so there is nothing to choose again. To use another device, '' @
      ''release the configuration and set it up with the other device.'')
     (no_options\<lparr>opt_config := Some (se_name v),
        opt_context := [(''argumentName'', CText ''options.chooseAgain''),
          (''expected'', CText ''a configuration in auto mode''), (''actualValue'', CBool True),
          (''deviceKind'', CText kind)]\<rparr>)"

definition takes_no_part_error :: "session_env \<Rightarrow> status \<Rightarrow> sb_error" where
  "takes_no_part_error v st = mk_error PERMISSION_REQUIRED
     (if st = Status_Queued
      then ''This tab is queued behind the tabs using this configuration and cannot use the device yet''
      else ''This tab no longer takes part in this configuration'')
     (no_options\<lparr>opt_config := Some (se_name v), opt_context := [(''status'', CText (status_name st))]\<rparr>)"

fun id_context :: "int option \<Rightarrow> ctx_value" where
  "id_context (Some i) = CInt i"
| "id_context None = CAbsent"

definition mismatch_error :: "session_env \<Rightarrow> device_filter \<Rightarrow> port_info \<Rightarrow> sb_error" where
  "mismatch_error v f i = (let d = describe_device f in
     mk_error DEVICE_MISMATCH ''The selected port is not the configured device''
       (no_options\<lparr>opt_config := Some (se_name v),
          opt_context := [(''expectedDevice'', CText (dd_kind d)), (''expectedVendorId'', id_context (dd_vendor d)),
            (''expectedProductId'', id_context (dd_product d)), (''actualVendorId'', id_context (pi_vendor i)),
            (''actualProductId'', id_context (pi_product i))]\<rparr>))"

section \<open>Status, device and errors\<close>

definition emits :: "emission \<Rightarrow> session \<Rightarrow> said list" where
  "emits m s = (if se_cleared s then [] else [Emitted m])"

definition take_after_gap :: "session \<Rightarrow> session \<times> bool" where
  "take_after_gap s = (s\<lparr>se_after_gap := False\<rparr>, se_after_gap s)"

definition set_status :: "status \<Rightarrow> session \<Rightarrow> performed" where
  "set_status st s =
     (if se_status s = st \<or> (se_released s \<and> st \<noteq> Status_Released) then quiet s
      else (let s' = s\<lparr>se_status := st, se_after_gap := se_after_gap s \<or> st \<noteq> Status_Open\<rparr>
            in (s', emits (On_Status_Change st (se_status s)) s', [After_Status st])))"

definition emit_error :: "sb_error \<Rightarrow> bool \<Rightarrow> session \<Rightarrow> performed" where
  "emit_error e broadcast s =
     (let s' = s\<lparr>se_last_error := Some (err_code e)\<rparr>
      in (s', emits (On_Error_Report e) s', if broadcast then [Say [Sent To_All (Bm_Error e)]] else []))"

definition stays_failed :: "session \<Rightarrow> bool" where
  "stays_failed s \<longleftrightarrow> se_status s = Status_Failed \<and> \<not> cs_auto_reconnect (nc_connection (se_config s))"

fun status_device_of :: "device_filter \<Rightarrow> status_device" where
  "status_device_of f = (case effective_device f of
     None \<Rightarrow> Device_Auto
   | Some Any_Device \<Rightarrow> Device_Any
   | Some (Resolved Non_Usb) \<Rightarrow> Device_Non_Usb
   | Some (Resolved (Usb v p)) \<Rightarrow> Device_Usb v p)"

definition broadcast_status :: "status \<Rightarrow> session \<Rightarrow> said list" where
  "broadcast_status st s = (case se_term s of
     None \<Rightarrow> []
   | Some t \<Rightarrow> [Sent To_All (Bm_Status st (nc_max_tabs (se_config s)) (status_device_of (nc_device (se_config s))) t)])"

fun chosen_device :: "device_filter \<Rightarrow> resolved_device option" where
  "chosen_device (Auto r) = r"
| "chosen_device (Explicit d) = None"

definition request_status :: "bool \<Rightarrow> session \<Rightarrow> said list" where
  "request_status retry s =
     [Sent To_All (Bm_Status_Request retry (if retry then chosen_device (nc_device (se_config s)) else None))]"

definition adopt_device :: "resolved_device \<Rightarrow> session \<Rightarrow> session \<times> bool" where
  "adopt_device d s = (case nc_device (se_config s) of
     Auto r \<Rightarrow> if r = Some d then (s, False)
               else (s\<lparr>se_config := (se_config s)\<lparr>nc_device := Auto (Some d)\<rparr>\<rparr>, True)
   | Explicit _ \<Rightarrow> (s, False))"

definition told_of_device :: "resolved_device \<Rightarrow> bool \<Rightarrow> said list" where
  "told_of_device d changed = (if changed then [Device_Resolved d] else [])"

definition stop_timers :: "session \<Rightarrow> session" where
  "stop_timers s = s\<lparr>se_delayed_answer := False\<rparr>"

definition has_slot :: "session \<Rightarrow> bool" where
  "has_slot s \<longleftrightarrow> nc_max_tabs (se_config s) \<noteq> Unlimited"

definition slot_stop :: "session \<Rightarrow> said list" where
  "slot_stop s = (if has_slot s then [Slot_Stop] else [])"

section \<open>Joining and leaving\<close>

definition join_bus :: "session \<Rightarrow> performed" where
  "join_bus s =
     (if se_released s \<or> se_joined s then quiet s
      else (let s' = s\<lparr>se_joined := True\<rparr>
            in followed_by (if se_status s = Status_Queued then set_status Status_Idle s' else quiet s')
                 [Say ([Attached] @ request_status False s' @ [Election_Start])]))"

definition start_session :: "session \<Rightarrow> performed" where
  "start_session s = (if has_slot s then followed_by (set_status Status_Queued s) [Say [Slot_Start]] else join_bus s)"

text \<open>\<open>#stopBeingOwner\<close> up to its \<open>await\<close>, and what follows once the supervisor has stopped.\<close>

definition stop_being_owner :: "session \<Rightarrow> performed" where
  "stop_being_owner s =
     (let s' = s\<lparr>se_supervisor := None, se_term := None\<rparr> in
      case (se_supervisor s, se_term s) of
        (Some _, Some t) \<Rightarrow> says [Supervisor_Stop t] (s'\<lparr>se_stopping := Some t\<rparr>)
      | _ \<Rightarrow> quiet s')"

definition say_goodbye :: "term_id \<Rightarrow> session \<Rightarrow> performed" where
  "say_goodbye t s =
     says [Queue_Goodbye t, Sent To_All (Bm_Released t), Election_Stop, End_Own_Term t]
       (s\<lparr>se_stopping := None, se_election_stopped := True\<rparr>)"

definition release :: "session_env \<Rightarrow> session \<Rightarrow> performed" where
  "release v s =
     (if se_released s then quiet s
      else preceded_by [Fail_All_Writes (released_error v ''The configuration was released while this write was pending'')]
             (stop_being_owner (s\<lparr>se_released := True, se_writes_failed := True, se_stage := Awaiting_Stop\<rparr>)))"

definition finish_release :: "session \<Rightarrow> performed" where
  "finish_release s =
     (let leaves = se_joined s \<and> se_withdrawal s = None;
          s' = (stop_timers s)\<lparr>se_stage := Finished_Release, se_disposed := True,
                 se_detached := (se_detached s \<or> leaves)\<rparr>
      in followed_by
           (preceded_by ([Dispose_Of_Terms] @ (if leaves then [Detached] else []) @ slot_stop s)
             (set_status Status_Released s'))
           [Clear_Listeners])"

definition withdraw :: "session_env \<Rightarrow> limit \<Rightarrow> session \<Rightarrow> performed" where
  "withdraw v holding s =
     (let e = conflict_error v (nc_max_tabs (se_config s)) holding
      in followed_by (emit_error e False (s\<lparr>se_withdrawal := Some e\<rparr>)) [Withdraw_Rest e])"

definition withdraw_rest :: "sb_error \<Rightarrow> session \<Rightarrow> performed" where
  "withdraw_rest e s =
     preceded_by ([Fail_All_Writes e, Dispose_Of_Terms, Election_Stop, Detached] @ slot_stop s)
       (set_status Status_Failed ((stop_timers s)\<lparr>se_writes_failed := True, se_disposed := True,
          se_election_stopped := True, se_detached := True\<rparr>))"

section \<open>Ownership\<close>

definition start_term :: "term_id \<Rightarrow> session \<Rightarrow> performed" where
  "start_term t s =
     (s\<lparr>se_term := Some t, se_supervisor := Some t\<rparr>,
      [Sent To_All (Bm_Claimed t (nc_max_tabs (se_config s))), Supervisor_Start t (stays_failed s)],
      [Say [Take_Own_Term t (nc_max_tabs (se_config s))]])"

definition term_over :: "term_id \<Rightarrow> bool \<Rightarrow> session \<Rightarrow> performed" where
  "term_over t was_current s =
     preceded_by [Term_Over_For_Writes t]
       (if was_current \<and> \<not> se_owner s \<and> \<not> se_released s \<and> \<not> stays_failed s
        then set_status Status_Reconnecting s else quiet s)"

section \<open>Messages\<close>

fun about_ownership :: "bus_message \<Rightarrow> bool" where
  "about_ownership (Bm_Claimed t m) = True"
| "about_ownership (Bm_Status st m d t) = True"
| "about_ownership _ = False"

definition hear :: "client_id \<Rightarrow> bus_message \<Rightarrow> session \<Rightarrow> performed" where
  "hear c m s =
     (if se_released s \<or> \<not> se_joined s \<or> se_withdrawal s \<noteq> None then quiet s
      else if about_ownership m \<and> se_owner s then quiet s
      else says [Authorize c m] s)"

definition apply_status :: "session_env \<Rightarrow> status \<Rightarrow> limit \<Rightarrow> status_device \<Rightarrow> session \<Rightarrow> performed" where
  "apply_status v st tabs d s =
     (if se_released s \<or> se_withdrawal s \<noteq> None \<or> se_owner s then quiet s
      else if tabs \<noteq> nc_max_tabs (se_config s) then withdraw v tabs s
      else (case (case d of Device_Usb i p \<Rightarrow> Some (Usb i p) | Device_Non_Usb \<Rightarrow> Some Non_Usb | _ \<Rightarrow> None) of
              None \<Rightarrow> preceded_by (if st = Status_Open then [Resend_Writes] else []) (set_status st s)
            | Some r \<Rightarrow> (case adopt_device r s of (s', changed) \<Rightarrow>
                preceded_by (told_of_device r changed @ (if st = Status_Open then [Resend_Writes] else []))
                  (set_status st s'))))"

text \<open>\<open>#answerStatusRequest\<close> at the time \<open>now\<close>, and its timer.\<close>

definition answer_status :: "millis \<Rightarrow> session \<Rightarrow> performed" where
  "answer_status now s =
     (if \<not> se_owner s then quiet s
      else (case limiter_take status_answer_rate now (se_answers s) of
              (l, True) \<Rightarrow> says (broadcast_status (se_status s) s) (s\<lparr>se_answers := l\<rparr>)
            | (l, False) \<Rightarrow>
                if se_delayed_answer s then quiet (s\<lparr>se_answers := l\<rparr>)
                else says [Arm_Answer_Timer] (s\<lparr>se_answers := l, se_delayed_answer := True\<rparr>)))"

definition answer_timer :: "millis \<Rightarrow> session \<Rightarrow> performed" where
  "answer_timer now s =
     (if \<not> se_delayed_answer s then quiet s
      else (let s' = s\<lparr>se_delayed_answer := False\<rparr> in
            if se_released s \<or> \<not> se_owner s then quiet s'
            else says (broadcast_status (se_status s) s)
                   (s'\<lparr>se_answers := fst (limiter_take status_answer_rate now (se_answers s))\<rparr>)))"

definition status_requested :: "bool \<Rightarrow> resolved_device option \<Rightarrow> millis \<Rightarrow> session \<Rightarrow> performed" where
  "status_requested retry d now s =
     (case se_supervisor s of
        Some t \<Rightarrow>
          if \<not> retry then answer_status now s
          else (case (case d of None \<Rightarrow> (s, False) | Some r \<Rightarrow> adopt_device r s) of (s', changed) \<Rightarrow>
                  if changed then (s', told_of_device (the d) True @ [Supervisor_Follow t], [Answer_Status now])
                  else (s', [Supervisor_Retry t], [Answer_Status now]))
      | None \<Rightarrow> answer_status now s)"

text \<open>\<open>#apply\<close>. \<open>approved\<close> is what the pending writes answer to \<open>write-ready\<close>.\<close>

fun believe :: "session_env \<Rightarrow> client_id \<Rightarrow> bus_message \<Rightarrow> bool \<Rightarrow> millis \<Rightarrow> session \<Rightarrow> performed" where
  "believe v c (Bm_Write_Request r p t) approved now s =
     (if se_supervisor s \<noteq> None \<and> se_term s = Some t then says [Port_Write t c r p] s else quiet s)"
| "believe v c (Bm_Write_Ready r t) approved now s = says [Sent (To_One c) (Bm_Write_Approval r t approved)] s"
| "believe v c (Bm_Write_Approval r t yes) approved now s = says [Approval_Taken c r t yes] s"
| "believe v c (Bm_Write_Result r e t) approved now s = says [Result_For_Write r t e] s"
| "believe v c (Bm_Data_Received b x) approved now s =
     (case take_after_gap s of (s', gap) \<Rightarrow> says (emits (On_Receive b x gap) s) s')"
| "believe v c (Bm_Data_Sent b origin) approved now s = says (emits (On_Send b (origin = se_client v)) s) s"
| "believe v c (Bm_Status st tabs d t) approved now s = apply_status v st tabs d s"
| "believe v c (Bm_Status_Request retry d) approved now s = status_requested retry d now s"
| "believe v c (Bm_Error e) approved now s = emit_error e False s"
| "believe v c (Bm_Claimed t m) approved now s = quiet s"
| "believe v c (Bm_Released t) approved now s = quiet s"
| "believe v c Bm_Other approved now s = quiet s"

section \<open>Writes\<close>

definition send_write :: "session_env \<Rightarrow> bytes \<Rightarrow> session \<Rightarrow> performed" where
  "send_write v p s =
     (if se_released s then says [Rejected (released_error v ''This configuration has been released'')] s
      else (case se_withdrawal s of Some e \<Rightarrow> says [Rejected e] s | None \<Rightarrow> says [Add_Write p] s))"

definition dispatch_write :: "session_env \<Rightarrow> request_id \<Rightarrow> bytes \<Rightarrow> term_id \<Rightarrow> session \<Rightarrow> performed" where
  "dispatch_write v r p t s =
     (if se_owner s \<and> se_supervisor s \<noteq> None \<and> se_term s = Some t then says [Port_Write t (se_client v) r p] s
      else says [Sent To_All (Bm_Write_Request r p t)] s)"

text \<open>What the port in term \<open>t\<close> reports of a write: to this context at once, to another one over the bus.\<close>

definition write_done :: "session_env \<Rightarrow> term_id \<Rightarrow> client_id \<Rightarrow> request_id \<Rightarrow> bytes \<Rightarrow> sb_error option \<Rightarrow> session \<Rightarrow> performed" where
  "write_done v t origin r p e s =
     (let answer = (if origin = se_client v then [Result_For_Write r (Some t) e]
                    else [Sent (To_One origin) (Bm_Write_Result r e (Some t))])
      in if e = None
         then (s, answer @ emits (On_Send p (origin = se_client v)) s, [Say [Sent To_All (Bm_Data_Sent p origin)]])
         else says answer s)"

section \<open>Access\<close>

fun is_auto :: "device_filter \<Rightarrow> bool" where
  "is_auto (Auto r) = True"
| "is_auto (Explicit d) = False"

definition request_access :: "session_env \<Rightarrow> bool \<Rightarrow> session \<Rightarrow> performed" where
  "request_access v again s =
     (if again \<and> \<not> is_auto (nc_device (se_config s))
      then says [Rejected (choose_again_error v (dd_kind (describe_device (nc_device (se_config s)))))] s
      else if se_status s = Status_Open \<and> \<not> again then quiet s
      else if se_supervisor s = None \<and> (se_status s = Status_Queued \<or> se_withdrawal s \<noteq> None \<or> se_released s)
      then says [Rejected (takes_no_part_error v (se_status s))] s
      else says [Open_Picker again] s)"

text \<open>The port picked, within \<open>#pickPort\<close>; what follows its \<open>await\<close> is \<open>pick_done\<close>, which arrives later.\<close>

definition picked :: "session_env \<Rightarrow> bool \<Rightarrow> sb_error + port_info \<Rightarrow> session \<Rightarrow> performed" where
  "picked v again result s = (case result of
     Inl e \<Rightarrow> says [Rejected e] s
   | Inr i \<Rightarrow>
       if se_released s
       then says [Rejected (released_error v ''The configuration was released while the port picker was open'')] s
       else (case se_withdrawal s of
               Some e \<Rightarrow> says [Rejected e] s
             | None \<Rightarrow>
                 (case nc_device (se_config s) of
                    Auto r \<Rightarrow>
                      if again \<or> r = None
                      then (case adopt_device (resolve_device i) s of (s', changed) \<Rightarrow>
                              (s', told_of_device (resolve_device i) changed @ [Pick_Awaited changed], []))
                      else if \<not> matches_device (Auto r) i then says [Rejected (mismatch_error v (Auto r) i)] s
                      else says [Pick_Awaited False] s
                  | Explicit d \<Rightarrow>
                      if \<not> matches_device (Explicit d) i then says [Rejected (mismatch_error v (Explicit d) i)] s
                      else says [Pick_Awaited False] s)))"

definition pick_done :: "bool \<Rightarrow> session \<Rightarrow> performed" where
  "pick_done changed s = (case se_supervisor s of
     None \<Rightarrow> says (request_status True s) s
   | Some t \<Rightarrow> says [if changed then Supervisor_Follow t else Supervisor_Use_Granted t] s)"

section \<open>The session\<close>

fun perform :: "session_env \<Rightarrow> task \<Rightarrow> session \<Rightarrow> performed" where
  "perform v Call_Start s = start_session s"
| "perform v Call_Retry s =
     (if se_withdrawal s \<noteq> None then quiet s
      else (case se_supervisor s of
              Some t \<Rightarrow> says [Supervisor_Retry t] s
            | None \<Rightarrow> if se_status s = Status_Failed then says (request_status True s) s else quiet s))"
| "perform v Call_Release s = release v s"
| "perform v (Call_Send p) s = send_write v p s"
| "perform v (Call_Request_Access again) s = request_access v again s"
| "perform v (Call_Report e) s = emit_error e False s"
| "perform v (Call_Resolve d) s = (case adopt_device d s of (s', changed) \<Rightarrow> says (told_of_device d changed) s')"
| "perform v Place_Acquired s = join_bus s"
| "perform v Bus_Reconnected s =
     (let s' = s\<lparr>se_after_gap := True\<rparr> in
      if se_released s \<or> \<not> se_joined s \<or> se_withdrawal s \<noteq> None then quiet s'
      else says (if se_owner s then broadcast_status (se_status s) s else request_status False s) s')"
| "perform v (Heard c m) s = hear c m s"
| "perform v (Believed c m approved now) s = believe v c m approved now s"
| "perform v (Term_Ended t cur) s = term_over t cur s"
| "perform v (Term_Acquired t) s =
     (let s' = s\<lparr>se_owner := True\<rparr> in if se_released s then quiet s' else start_term t s')"
| "perform v Ownership_Lost s = stop_being_owner (s\<lparr>se_owner := False\<rparr>)"
| "perform v (Supervisor_Status t st) s =
     (if se_supervisor s \<noteq> Some t then quiet s else preceded_by (broadcast_status st s) (set_status st s))"
| "perform v (Supervisor_Data t b x) s =
     (case take_after_gap s of (s', gap) \<Rightarrow>
        (s', emits (On_Receive b x gap) s, [Say [Sent To_All (Bm_Data_Received b x)]]))"
| "perform v (Supervisor_Error t e) s = emit_error e True s"
| "perform v (Supervisor_Stopped t) s = say_goodbye t s"
| "perform v (Write_Asks t c r) s = says [Sent (To_One c) (Bm_Write_Ready r t)] s"
| "perform v (Write_Done t c r p e) s = write_done v t c r p e s"
| "perform v (Write_Dispatched r p t) s = dispatch_write v r p t s"
| "perform v (Device_Event plugged) s =
     (case se_supervisor s of Some t \<Rightarrow> says [Supervisor_Device t plugged] s | None \<Rightarrow> quiet s)"
| "perform v (Answer_Timer_Fires now) s = answer_timer now s"
| "perform v (Picked again result) s = picked v again result s"
| "perform v Tell_Status s = (if se_released s then quiet s else says (emits (On_Status_Told (se_status s)) s) s)"
| "perform v Stop_Awaited s =
     (if se_stage s = Awaiting_Stop \<and> se_stopping s = None
      then says [Election_Stop] (s\<lparr>se_stage := Awaiting_Election, se_election_stopped := True\<rparr>) else quiet s)"
| "perform v Election_Over s = (if se_stage s = Awaiting_Election then finish_release s else quiet s)"
| "perform v (After_Status st) s = (if st = Status_Open then says [Dispatch_Waiting_Writes] s else quiet s)"
| "perform v (Say xs) s = says xs s"
| "perform v Clear_Listeners s = quiet (s\<lparr>se_cleared := True\<rparr>)"
| "perform v (Withdraw_Rest e) s = withdraw_rest e s"
| "perform v (Answer_Status now) s = answer_status now s"
| "perform v (Pick_Done changed) s = pick_done changed s"

text \<open>
  What may call into the session while one of its functions runs: the application, the supervisor and the
  pending writes. What may arrive when none runs: everything but the rests of functions;
  the session is started once, first of all.
\<close>

fun may_call :: "task \<Rightarrow> bool" where
  "may_call Call_Retry = True"
| "may_call Call_Release = True"
| "may_call (Call_Send p) = True"
| "may_call (Call_Request_Access again) = True"
| "may_call (Call_Report e) = True"
| "may_call (Supervisor_Status t st) = True"
| "may_call (Supervisor_Data t b x) = True"
| "may_call (Supervisor_Error t e) = True"
| "may_call (Write_Dispatched r p t) = True"
| "may_call (Write_Asks t c r) = True"
| "may_call (Write_Done t c r p e) = True"
| "may_call _ = False"

fun is_rest :: "task \<Rightarrow> bool" where
  "is_rest (After_Status st) = True"
| "is_rest (Say xs) = True"
| "is_rest Clear_Listeners = True"
| "is_rest (Withdraw_Rest e) = True"
| "is_rest (Answer_Status now) = True"
| "is_rest _ = False"

text \<open>
  What the collaborators promise: the terms apply only what they were given to authorize, and nothing once
  disposed of; the election acquires only while it takes part and does not hold the port already, and loses
  only after it was stopped (theory \<open>Election\<close>); a supervisor reports once that it has stopped, and only when
  it was asked to; the pending writes hand nothing on once all of them have failed; the election ends only
  when the ownership is lost.
\<close>

definition speaks_for :: "session \<Rightarrow> term_id \<Rightarrow> bool" where
  "speaks_for s t \<longleftrightarrow> se_supervisor s = Some t \<or> se_stopping s = Some t"

fun promised :: "task \<Rightarrow> session \<Rightarrow> bool" where
  "promised (Believed c m approved now) s = (se_joined s \<and> \<not> se_disposed s)"
| "promised (Term_Ended t cur) s = (\<not> se_disposed s)"
| "promised (Term_Acquired t) s = (\<not> se_owner s \<and> \<not> se_election_stopped s)"
| "promised Ownership_Lost s = (se_owner s \<and> se_election_stopped s)"
| "promised (Supervisor_Stopped t) s = (se_stopping s = Some t)"
| "promised (Write_Dispatched r p t) s = (\<not> se_writes_failed s)"
| "promised Election_Over s = (\<not> se_owner s)"
| "promised _ s = True"

text \<open>A run: the stack, and everything performed and said, in order.\<close>

datatype entry = Did task | Spoke said

record running =
  rn_session :: session
  rn_stack :: "task list"
  rn_trace :: "entry list"

definition rn_init :: "configuration \<Rightarrow> millis \<Rightarrow> running" where
  "rn_init c now = \<lparr>rn_session = se_init c now, rn_stack = [Call_Start], rn_trace = []\<rparr>"

text \<open>
  What comes only after something else: a term is acquired once (\<open>callbacks_in_turn\<close> of theory \<open>Election\<close>); a
  supervisor reports only once it was started - but then at any time, also when it is stopping or has stopped,
  since nothing in the session keeps its data and errors out; it asks and answers a write only once the write
  was handed to it and while it is unanswered - but then at any time, since a write that hangs is answered
  when it ends, however late; and what follows the \<open>await\<close> of a picked port comes once for each.
\<close>

fun starting :: "entry \<Rightarrow> term_id list" where
  "starting (Spoke (Supervisor_Start t f)) = [t]"
| "starting _ = []"

definition terms_held :: "entry list \<Rightarrow> term_id list" where
  "terms_held tr = concat (map starting tr)"

fun hands :: "term_id \<Rightarrow> entry \<Rightarrow> (client_id \<times> request_id) list \<Rightarrow> (client_id \<times> request_id) list" where
  "hands t (Spoke (Port_Write t' c r p)) ws = (if t' = t then List.insert (c, r) ws else ws)"
| "hands t (Did (Write_Done t' c r p e)) ws = (if t' = t then removeAll (c, r) ws else ws)"
| "hands t _ ws = ws"

definition unanswered :: "term_id \<Rightarrow> entry list \<Rightarrow> (client_id \<times> request_id) list" where
  "unanswered t tr = fold (hands t) tr []"

fun picks :: "entry \<Rightarrow> bool list \<Rightarrow> bool list" where
  "picks (Spoke (Pick_Awaited changed)) ps = ps @ [changed]"
| "picks (Did (Pick_Done changed)) ps = remove1 changed ps"
| "picks _ ps = ps"

definition picks_open :: "entry list \<Rightarrow> bool list" where
  "picks_open tr = fold picks tr []"

fun in_course :: "task \<Rightarrow> entry list \<Rightarrow> bool" where
  "in_course (Term_Acquired t) tr = (Did (Term_Acquired t) \<notin> set tr)"
| "in_course (Supervisor_Status t st) tr = (t \<in> set (terms_held tr))"
| "in_course (Supervisor_Data t b x) tr = (t \<in> set (terms_held tr))"
| "in_course (Supervisor_Error t e) tr = (t \<in> set (terms_held tr))"
| "in_course (Write_Asks t c r) tr = ((c, r) \<in> set (unanswered t tr))"
| "in_course (Write_Done t c r p e) tr = ((c, r) \<in> set (unanswered t tr))"
| "in_course (Pick_Done changed) tr = (changed \<in> set (picks_open tr))"
| "in_course _ tr = True"

definition do_task :: "session_env \<Rightarrow> task \<Rightarrow> task list \<Rightarrow> task list \<Rightarrow> running \<Rightarrow> running" where
  "do_task v k calls rest r =
     (if \<not> promised k (rn_session r) \<or> \<not> in_course k (rn_trace r) then r\<lparr>rn_stack := rest\<rparr>
      else (case perform v k (rn_session r) of (s, xs, ks) \<Rightarrow>
        \<lparr>rn_session = s, rn_stack = filter may_call calls @ ks @ rest,
         rn_trace = rn_trace r @ [Did k] @ map Spoke xs\<rparr>))"

datatype happening = Arrives task | Goes_On "task list"

fun rn_step :: "session_env \<Rightarrow> happening \<Rightarrow> running \<Rightarrow> running" where
  "rn_step v (Arrives k) r =
     (if rn_stack r = [] \<and> \<not> is_rest k \<and> k \<noteq> Call_Start then r\<lparr>rn_stack := [k]\<rparr> else r)"
| "rn_step v (Goes_On calls) r = (case rn_stack r of [] \<Rightarrow> r | k # rest \<Rightarrow> do_task v k calls rest r)"


lemmas status_defs = quiet_def says_def followed_by_def preceded_by_def emits_def take_after_gap_def set_status_def
  emit_error_def broadcast_status_def request_status_def told_of_device_def stop_timers_def slot_stop_def

lemmas perform_defs = status_defs join_bus_def start_session_def stop_being_owner_def say_goodbye_def release_def
  finish_release_def withdraw_def withdraw_rest_def start_term_def term_over_def hear_def apply_status_def
  answer_status_def answer_timer_def status_requested_def send_write_def dispatch_write_def write_done_def
  request_access_def picked_def pick_done_def adopt_device_def

end
