(* ===== verification/Session_Runs.thy ===== *)
theory Session_Runs
  imports Session
begin

text \<open>
  What holds of a session (\<open>client/configuration-session.ts\<close>) however it is used: the invariant \<open>se_ok\<close> of its
  state, the shape of the stack of tasks, and the rule \<open>course_induct\<close> by which a fact is shown of every run.
  After it, who speaks for the port (\<open>speaker\<close>) and which tasks say words of a term.
\<close>

section \<open>Performing one task at a time\<close>

text \<open>To hold of every run: at first, when a task arrives or is passed over, and when one is performed.\<close>

lemma run_induct [consumes 0, case_names Init Arrive Drop Perform]:
  assumes "P (rn_init c now)"
    and arrive: "\<And>r k. P r \<Longrightarrow> rn_stack r = [] \<Longrightarrow> \<not> is_rest k \<Longrightarrow> k \<noteq> Call_Start \<Longrightarrow> P (r\<lparr>rn_stack := [k]\<rparr>)"
    and drop: "\<And>r k rest. P r \<Longrightarrow> rn_stack r = k # rest \<Longrightarrow>
      \<not> promised k (rn_session r) \<or> \<not> in_course k (rn_trace r) \<Longrightarrow> P (r\<lparr>rn_stack := rest\<rparr>)"
    and do: "\<And>r k rest calls s xs ks. P r \<Longrightarrow> rn_stack r = k # rest \<Longrightarrow> promised k (rn_session r) \<Longrightarrow>
      in_course k (rn_trace r) \<Longrightarrow> perform v k (rn_session r) = (s, xs, ks) \<Longrightarrow>
      P \<lparr>rn_session = s, rn_stack = filter may_call calls @ ks @ rest,
         rn_trace = rn_trace r @ [Did k] @ map Spoke xs\<rparr>"
  shows "P (fold (rn_step v) hs (rn_init c now))"
proof (induction hs rule: rev_induct)
  case Nil
  then show ?case by (simp add: assms(1))
next
  case (snoc h hs)
  let ?r = "fold (rn_step v) hs (rn_init c now)"
  have "P (rn_step v h ?r)"
  proof (cases h)
    case (Arrives k)
    then show ?thesis using snoc.IH arrive by simp
  next
    case (Goes_On calls)
    show ?thesis
    proof (cases "rn_stack ?r")
      case Nil
      then show ?thesis using Goes_On snoc.IH by simp
    next
      case (Cons k rest)
      then show ?thesis using Goes_On snoc.IH drop [OF snoc.IH Cons] do [OF snoc.IH Cons]
        by (cases "perform v k (rn_session ?r)") (simp add: do_task_def)
    qed
  qed
  then show ?case by simp
qed

section \<open>What holds of a session\<close>

fun withdraws :: "task \<Rightarrow> bool" where
  "withdraws (Withdraw_Rest e) = True"
| "withdraws _ = False"

lemma withdraws_rest: "withdraws k \<Longrightarrow> is_rest k"
  by (cases k) auto

text \<open>\<open>w\<close>: the rest of a withdrawal is still to be done.\<close>

definition se_ok :: "bool \<Rightarrow> session \<Rightarrow> bool" where
  "se_ok w s \<longleftrightarrow>
     se_term s = se_supervisor s \<and>
     (se_supervisor s \<noteq> None \<longrightarrow> se_owner s \<and> \<not> se_released s) \<and>
     (se_stopping s \<noteq> None \<longrightarrow> se_released s \<and> se_withdrawal s = None) \<and>
     (se_released s \<longleftrightarrow> se_stage s \<noteq> Not_Releasing) \<and>
     (se_released s \<longrightarrow> se_writes_failed s) \<and>
     (se_election_stopped s \<longrightarrow> se_released s \<or> se_withdrawal s \<noteq> None) \<and>
     (se_stage s = Awaiting_Election \<longrightarrow> se_election_stopped s \<and> se_stopping s = None) \<and>
     (se_withdrawal s \<noteq> None \<longrightarrow> \<not> se_owner s \<and> se_joined s \<and> (w \<or> se_disposed s)) \<and>
     (se_disposed s \<longrightarrow> \<not> w \<and> \<not> se_owner s \<and> se_election_stopped s \<and> se_writes_failed s \<and> se_stopping s = None \<and>
        (se_stage s = Finished_Release \<or> se_withdrawal s \<noteq> None)) \<and>
     (se_stage s = Finished_Release \<longrightarrow> se_disposed s \<and> se_status s = Status_Released) \<and>
     (se_disposed s \<and> \<not> se_released s \<longrightarrow> se_status s = Status_Failed) \<and>
     (w \<longrightarrow> se_withdrawal s \<noteq> None)"

lemma se_ok_init: "se_ok False (se_init c now)"
  by (simp add: se_ok_def se_init_def)

lemma set_status_form:
  assumes "set_status st s = (s', xs, ks)"
  shows "s' = s \<and> xs = [] \<and> ks = [] \<and> (se_status s = st \<or> se_released s \<and> st \<noteq> Status_Released) \<or>
    s' = s\<lparr>se_status := st, se_after_gap := se_after_gap s \<or> st \<noteq> Status_Open\<rparr> \<and>
    xs = emits (On_Status_Change st (se_status s)) s \<and> ks = [After_Status st] \<and> se_status s \<noteq> st \<and>
    (se_released s \<longrightarrow> st = Status_Released)"
  using assms by (auto simp: set_status_def quiet_def Let_def emits_def split: if_splits)


lemma session_status_ok:
  assumes "se_ok w s" and "\<not> se_disposed s" and "set_status st s = (s', xs, ks)"
  shows "se_ok w s'"
proof -
  have "se_ok w (s\<lparr>se_status := st, se_after_gap := b\<rparr>)" if "se_released s \<longrightarrow> st = Status_Released" for b
    using assms(1) unfolding se_ok_def using assms(2) that by (simp; blast)
  then show ?thesis using set_status_form [OF assms(3)] assms(1) by blast
qed

lemma se_ok_config: "se_ok w (s\<lparr>se_config := f\<rparr>) = se_ok w s"
  by (simp add: se_ok_def)

lemma se_ok_gap: "se_ok w (s\<lparr>se_after_gap := b\<rparr>) = se_ok w s"
  by (simp add: se_ok_def)

lemma se_ok_error: "se_ok w (s\<lparr>se_last_error := b\<rparr>) = se_ok w s"
  by (simp add: se_ok_def)

lemma se_ok_answers: "se_ok w (s\<lparr>se_answers := b\<rparr>) = se_ok w s"
  by (simp add: se_ok_def)

lemma se_ok_delayed: "se_ok w (s\<lparr>se_delayed_answer := b\<rparr>) = se_ok w s"
  by (simp add: se_ok_def)

lemma se_ok_cleared: "se_ok w (s\<lparr>se_cleared := b\<rparr>) = se_ok w s"
  by (simp add: se_ok_def)

lemmas se_ok_free = se_ok_cleared se_ok_config se_ok_gap se_ok_error se_ok_answers se_ok_delayed

lemma adopt_device_form:
  assumes "adopt_device d s = (s', ch)"
  shows "s' = s\<lparr>se_config := se_config s'\<rparr>"
  using assms by (auto simp: adopt_device_def split: device_filter.splits if_splits)

lemma adopt_device_keeps:
  assumes "adopt_device d s = (s', ch)"
  shows "se_disposed s' = se_disposed s" "se_supervisor s' = se_supervisor s" "se_term s' = se_term s"
    "se_owner s' = se_owner s" "se_status s' = se_status s" "se_after_gap s' = se_after_gap s" "se_cleared s' = se_cleared s"
    "se_released s' = se_released s" "se_stopping s' = se_stopping s" "se_stage s' = se_stage s"
    "se_withdrawal s' = se_withdrawal s"
  using assms by (auto simp: adopt_device_def split: device_filter.splits if_splits)

lemma adopt_device_ok:
  assumes "se_ok w s" and "adopt_device d s = (s', ch)"
  shows "se_ok w s'"
  using assms(1) adopt_device_form [OF assms(2)] se_ok_config [of w "se_config s'" s] by simp

lemma stop_being_owner_form:
  assumes "stop_being_owner s = (s', xs, ks)"
  obtains "se_supervisor s = None \<or> se_term s = None" "s' = s\<lparr>se_supervisor := None, se_term := None\<rparr>" "xs = []" "ks = []"
  | t where "se_supervisor s \<noteq> None" "se_term s = Some t"
    "s' = s\<lparr>se_supervisor := None, se_term := None, se_stopping := Some t\<rparr>" "xs = [Supervisor_Stop t]" "ks = []"
  using assms by (auto simp: stop_being_owner_def quiet_def says_def Let_def split: option.splits)

lemma unreleased_stage:
  assumes "se_ok w s" and "\<not> se_released s"
  shows "se_stage s = Not_Releasing" and "se_stopping s = None" and "se_stage s \<noteq> Finished_Release"
proof -
  show n: "se_stage s = Not_Releasing" using assms unfolding se_ok_def by blast
  then show f: "se_stage s \<noteq> Finished_Release" by simp
  show "se_stopping s = None" using assms f unfolding se_ok_def by blast
qed

lemma release_ok:
  assumes "se_ok w s" and "release v s = (s', xs, ks)"
  shows "se_ok w s'"
proof (cases "se_released s")
  case True
  then show ?thesis using assms by (simp add: release_def quiet_def)
next
  case False
  let ?s = "s\<lparr>se_released := True, se_writes_failed := True, se_stage := Awaiting_Stop\<rparr>"
  note f = assms(1) [unfolded se_ok_def]
  note u = unreleased_stage [OF assms(1) False]
  have o: "se_supervisor s = None \<or> se_withdrawal s = None" "se_supervisor s = None \<or> \<not> se_disposed s" 
    using assms(1) unfolding se_ok_def by blast+
  obtain ys where "stop_being_owner ?s = (s', ys, ks)"
    using assms(2) False by (cases "stop_being_owner ?s") (simp add: release_def preceded_by_def)
  then show ?thesis
  proof (cases rule: stop_being_owner_form)
    case 1
    then have 1: "s' = ?s\<lparr>se_supervisor := None, se_term := None\<rparr>" by simp
    show ?thesis unfolding 1 by (simp add: se_ok_def, insert f False u, blast)
  next
    case (2 t)
    then have 2: "s' = ?s\<lparr>se_supervisor := None, se_term := None, se_stopping := Some t\<rparr>"
      "se_supervisor s \<noteq> None" by simp_all
    show ?thesis unfolding 2(1) by (simp add: se_ok_def, insert f False o u 2(2), blast)
  qed
qed

lemma acquired_ok:
  assumes "se_ok w s" and "\<not> se_election_stopped s" and "\<not> w" and "perform v (Term_Acquired t) s = (s', xs, ks)"
  shows "se_ok w s'"
proof -
  have "s' = (if se_released s then s\<lparr>se_owner := True\<rparr>
      else s\<lparr>se_owner := True, se_term := Some t, se_supervisor := Some t\<rparr>)"
    using assms(4) by (simp add: start_term_def quiet_def Let_def split: if_splits)
  then show ?thesis
    by (simp add: se_ok_def, insert assms(1) [unfolded se_ok_def] assms(2,3), blast)
qed

lemma lost_ok:
  assumes "se_ok w s" and "se_owner s" and "se_election_stopped s" and "perform v Ownership_Lost s = (s', xs, ks)"
  shows "se_ok w s'"
proof -
  have n: "se_supervisor s = None" "se_term s = se_supervisor s"
    using assms(1-3) unfolding se_ok_def by blast+
  then have s': "s' = s\<lparr>se_owner := False, se_supervisor := None, se_term := None\<rparr>"
    using assms(4) by (simp add: stop_being_owner_def quiet_def Let_def)
  show ?thesis unfolding s' by (simp add: se_ok_def, insert assms(1) [unfolded se_ok_def] assms(2,3), blast)
qed

lemma goodbye_ok:
  assumes "se_ok w s" and "se_stopping s = Some t" and "say_goodbye t s = (s', xs, ks)"
  shows "se_ok w s'"
proof -
  have stp: "se_stopping s \<noteq> None" using assms(2) by simp
  have "s' = s\<lparr>se_stopping := None, se_election_stopped := True\<rparr>"
    using assms(3) by (simp add: say_goodbye_def says_def)
  then show ?thesis
    by (simp add: se_ok_def, insert assms(1) [unfolded se_ok_def] stp, blast)
qed

lemma join_ok:
  assumes "se_ok w s" and "join_bus s = (s', xs, ks)"
  shows "se_ok w s'"
proof -
  have "se_ok w (s\<lparr>se_joined := True\<rparr>)" using assms(1) unfolding se_ok_def by (simp; blast)
  moreover have "\<not> se_disposed s" if "\<not> se_released s" "\<not> se_joined s"
    using assms(1) that unfolding se_ok_def by blast
  ultimately show ?thesis using assms session_status_ok [of w "s\<lparr>se_joined := True\<rparr>" Status_Idle]
    by (cases "set_status Status_Idle (s\<lparr>se_joined := True\<rparr>)")
      (auto simp: join_bus_def quiet_def followed_by_def Let_def split: if_splits)
qed
lemma finish_release_form:
  assumes "finish_release s = (s', xs, ks)" and "se_released s"
  shows "s' = s\<lparr>se_delayed_answer := False, se_stage := Finished_Release, se_disposed := True,
      se_detached := se_detached s \<or> (se_joined s \<and> se_withdrawal s = None),
      se_status := Status_Released, se_after_gap := se_after_gap s \<or> se_status s \<noteq> Status_Released\<rparr>"
    and "set ks \<subseteq> {After_Status Status_Released, Clear_Listeners}"
  using assms by (auto simp: finish_release_def Let_def stop_timers_def followed_by_def preceded_by_def
      set_status_def quiet_def slot_stop_def split: if_splits)

lemma over_ok:
  assumes "se_ok w s" and "\<not> w" and "\<not> se_owner s" and "se_stage s = Awaiting_Election" and "finish_release s = (s', xs, ks)"
  shows "se_ok w s'"
proof -
  have r: "se_released s" using assms(1,4) unfolding se_ok_def by simp
  then have c: "se_supervisor s = None" using assms(1,4) unfolding se_ok_def by auto
  show ?thesis unfolding finish_release_form(1) [OF assms(5) r]
    by (simp add: se_ok_def, insert assms(1) [unfolded se_ok_def] assms(2-4) r c, blast)
qed

lemma awaited_ok:
  assumes "se_ok w s" and "se_stage s = Awaiting_Stop" and "se_stopping s = None"
  shows "se_ok w (s\<lparr>se_stage := Awaiting_Election, se_election_stopped := True\<rparr>)"
proof -
  have "se_released s" "se_stage s \<noteq> Finished_Release" using assms(1,2) unfolding se_ok_def by auto
  then show ?thesis
    by (simp add: se_ok_def, insert assms(1) [unfolded se_ok_def] assms(2-3), blast)
qed

lemma withdraw_ok:
  assumes "se_ok False s" and "\<not> se_released s" and "se_withdrawal s = None" and "\<not> se_owner s" and "\<not> se_disposed s" "se_joined s"
  shows "se_ok True (s\<lparr>se_withdrawal := Some e\<rparr>)"
  using unreleased_stage [OF assms(1,2)]
  by - (simp add: se_ok_def, insert assms [unfolded se_ok_def], blast)

lemma withdraw_rest_form:
  assumes "withdraw_rest e s = (s', xs, ks)"
  obtains "se_released s" "s' = s\<lparr>se_delayed_answer := False, se_writes_failed := True, se_disposed := True,
      se_election_stopped := True, se_detached := True\<rparr>" "ks = []"
  | "s' = s\<lparr>se_delayed_answer := False, se_writes_failed := True, se_disposed := True,
      se_election_stopped := True, se_detached := True, se_status := Status_Failed,
      se_after_gap := se_after_gap s \<or> se_status s \<noteq> Status_Failed\<rparr>" "set ks \<subseteq> {After_Status Status_Failed}"
      "\<not> se_released s"
  using assms that by (cases s) (auto simp: withdraw_rest_def Let_def stop_timers_def followed_by_def preceded_by_def
      set_status_def quiet_def slot_stop_def split: if_splits)

lemma rest_ok:
  assumes "se_ok True s" and "withdraw_rest e s = (s', xs, ks)"
  shows "se_ok False s'"
proof -
  have d: "\<not> se_disposed s" "se_stage s \<noteq> Finished_Release" "se_withdrawal s \<noteq> None" "se_supervisor s = None"
    using assms(1) unfolding se_ok_def by blast+
  from assms(2) show ?thesis
  proof (cases rule: withdraw_rest_form)
    case 1
    show ?thesis unfolding 1(2) by (simp add: se_ok_def, insert assms(1) [unfolded se_ok_def] d 1(1), blast)
  next
    case 2
    show ?thesis unfolding 2(1) by (simp add: se_ok_def, insert assms(1) [unfolded se_ok_def] d 2(3), blast)
  qed
qed

text \<open>When a task is performed: as promised, and nothing arrives while a withdrawal is under way.\<close>

definition in_turn :: "task \<Rightarrow> bool \<Rightarrow> session \<Rightarrow> bool" where
  "in_turn k w s \<longleftrightarrow> promised k s \<and> (w \<longrightarrow> may_call k \<or> is_rest k) \<and> (withdraws k \<longrightarrow> w) \<and> (k = Call_Start \<longrightarrow> \<not> se_disposed s)"

definition pending :: "task list \<Rightarrow> bool" where
  "pending ks \<longleftrightarrow> (\<exists>k\<in>set ks. withdraws k)"

lemma pending_simps [simp]:
  "\<not> pending []"
  "pending (k # ks) \<longleftrightarrow> withdraws k \<or> pending ks"
  "pending (ks @ ks') \<longleftrightarrow> pending ks \<or> pending ks'"
  by (auto simp: pending_def)

lemma set_status_tasks:
  assumes "set_status st s = (s', xs, ks)"
  shows "set ks \<subseteq> {After_Status st}" and "\<not> pending ks"
  using set_status_form [OF assms] by auto

lemma emit_error_form:
  assumes "emit_error e b s = (s', xs, ks)"
  shows "s' = s\<lparr>se_last_error := Some (err_code e)\<rparr>" and "ks = (if b then [Say [Sent To_All (Bm_Error e)]] else [])"
  using assms by (auto simp: emit_error_def Let_def)

lemma disposed_course:
  assumes "se_ok w s" and "se_disposed s"
  shows "se_released s \<or> se_withdrawal s \<noteq> None" and "\<not> se_owner s" and "\<not> w"
proof -
  show "se_released s \<or> se_withdrawal s \<noteq> None" using assms by (auto simp: se_ok_def)
  show "\<not> se_owner s" "\<not> w" using assms unfolding se_ok_def by blast+
qed

lemma apply_status_ok:
  assumes "se_ok False s" and "\<not> se_disposed s" and "se_joined s" and "apply_status v st tabs d s = (s', xs, ks)"
  shows "se_ok (pending ks) s'"
proof (cases "se_released s \<or> se_withdrawal s \<noteq> None \<or> se_owner s")
  case True
  then show ?thesis using assms(1,4) by (simp add: apply_status_def quiet_def)
next
  case False
  note out = this
  show ?thesis
  proof (cases "tabs = nc_max_tabs (se_config s)")
    case False
    with out assms(4) have "withdraw v tabs s = (s', xs, ks)" by (simp add: apply_status_def)
    then have "s' = s\<lparr>se_withdrawal := se_withdrawal s', se_last_error := se_last_error s'\<rparr>" "pending ks" "se_withdrawal s' \<noteq> None"
      by (auto simp: withdraw_def followed_by_def emit_error_def Let_def)
    then show ?thesis using withdraw_ok [OF assms(1)] out assms(2,3) se_ok_error by (metis option.exhaust)
  next
    case True
    have ok: "se_ok False s1 \<and> \<not> se_disposed s1" if "s1 = s \<or> (\<exists>r ch. adopt_device r s = (s1, ch))" for s1
      using that assms(1,2) adopt_device_ok adopt_device_keeps(1) by blast
    have "\<exists>s1 ys. set_status st s1 = (s', ys, ks) \<and> (s1 = s \<or> (\<exists>r ch. adopt_device r s = (s1, ch)))"
    proof (cases "case d of Device_Usb i p \<Rightarrow> Some (Usb i p) | Device_Non_Usb \<Rightarrow> Some Non_Usb | _ \<Rightarrow> None")
      case None
      then show ?thesis using out True assms(4)
        by (cases "set_status st s") (auto simp: apply_status_def preceded_by_def)
    next
      case (Some r)
      obtain s1 ch where a: "adopt_device r s = (s1, ch)" by fastforce
      then show ?thesis using out True assms(4) Some
        by (cases "set_status st s1") (auto simp: apply_status_def preceded_by_def)
    qed
    then obtain s1 ys where s1: "set_status st s1 = (s', ys, ks)" "s1 = s \<or> (\<exists>r ch. adopt_device r s = (s1, ch))"
      by blast
    then have "se_ok False s1 \<and> \<not> se_disposed s1" using ok by blast
    then show ?thesis using session_status_ok [OF _ _ s1(1)] set_status_tasks(2) [OF s1(1)] by simp
  qed
qed

lemma join_tasks:
  assumes "join_bus s = (s', xs, ks)"
  shows "\<not> pending ks"
  using assms set_status_tasks(2)
  by (cases "set_status Status_Idle (s\<lparr>se_joined := True\<rparr>)")
    (auto simp: join_bus_def followed_by_def quiet_def Let_def split: if_splits)

lemma answer_status_ok:
  assumes "se_ok w s" and "answer_status now s = (s', xs, ks)"
  shows "se_ok w s' \<and> \<not> pending ks"
proof -
  obtain l y where "limiter_take status_answer_rate now (se_answers s) = (l, y)" by fastforce
  then show ?thesis using assms
    by (cases y) (auto simp: answer_status_def says_def quiet_def se_ok_free split: if_splits)
qed

lemma believe_ok:
  assumes "se_ok False s" and "\<not> se_disposed s" and "se_joined s" and "believe v c m a now s = (s', xs, ks)"
  shows "se_ok (pending ks) s'"
proof (cases m)
  case (Bm_Status st tabs d t)
  then show ?thesis using assms apply_status_ok by simp
next
  case (Bm_Status_Request retry d)
  have "se_ok False s' \<and> \<not> pending ks" if "answer_status now s = (s', xs, ks)"
    using answer_status_ok [OF assms(1) that] .
  moreover have "se_ok False (s\<lparr>se_config := se_config s1\<rparr>)" for s1 by (simp add: se_ok_free assms(1))
  moreover have "se_ok False s1" if "adopt_device r s = (s1, ch)" for r s1 ch using that adopt_device_ok assms(1) by blast
  ultimately show ?thesis using assms(1,4) Bm_Status_Request
    by (auto simp: status_requested_def split: option.splits if_splits prod.splits)
next
  case (Bm_Error e)
  then show ?thesis using assms emit_error_form [of e False s s' xs ks] by (simp add: se_ok_free)
qed (use assms in \<open>auto simp: says_def quiet_def take_after_gap_def se_ok_free split: if_splits\<close>)

lemma perform_ok:
  assumes "se_ok w s" and "in_turn k w s" and "perform v k s = (s', xs, ks)"
  shows "se_ok (w \<and> \<not> withdraws k \<or> pending ks) s'"
proof -
  have set_ok: "se_ok w s1 \<and> \<not> pending k1" if "set_status st s = (s1, ys, k1)" "\<not> se_disposed s" for st ys s1 k1
    using that session_status_ok [OF assms(1)] set_status_tasks(2) by blast
  have nw: "\<not> w" if "\<not> may_call k" "\<not> is_rest k" using assms(2) that by (auto simp: in_turn_def)
  have pr: "promised k s" using assms(2) by (simp add: in_turn_def)
  show ?thesis
  proof (cases k)
    case Call_Start
    then have nd: "\<not> se_disposed s" using assms(2) by (simp add: in_turn_def)
    show ?thesis
    proof (cases "has_slot s")
      case True
      then show ?thesis using assms(3) Call_Start set_ok nd
        by (cases "set_status Status_Queued s") (auto simp: start_session_def followed_by_def)
    next
      case False
      then show ?thesis using assms(3) Call_Start join_ok [OF assms(1)] join_tasks by (simp add: start_session_def)
    qed
  next
    case Call_Release
    then have r: "release v s = (s', xs, ks)" using assms(3) by simp
    then have "\<not> pending ks"
      by (cases "se_released s"; cases "stop_being_owner (s\<lparr>se_released := True, se_writes_failed := True, se_stage := Awaiting_Stop\<rparr>)")
        (auto simp: release_def preceded_by_def quiet_def elim!: stop_being_owner_form)
    then show ?thesis using release_ok [OF assms(1) r] Call_Release by simp
  next
    case Place_Acquired
    then show ?thesis using assms(3) join_ok [OF assms(1)] join_tasks by simp
  next
    case (Believed c m a now)
    then show ?thesis using believe_ok assms pr nw by auto
  next
    case (Term_Ended t cur)
    then show ?thesis using assms(1,3) pr set_ok
      by (cases "set_status Status_Reconnecting s") (auto simp: term_over_def preceded_by_def quiet_def split: if_splits)
  next
    case (Term_Acquired t)
    have "\<not> pending ks" using assms(3) Term_Acquired by (auto simp: start_term_def quiet_def Let_def split: if_splits)
    then show ?thesis using acquired_ok [OF assms(1)] pr nw assms(3) Term_Acquired by auto
  next
    case Ownership_Lost
    have "\<not> pending ks" using assms(3) Ownership_Lost
      by (auto elim!: stop_being_owner_form)
    then show ?thesis using lost_ok [OF assms(1)] pr assms(3) Ownership_Lost by auto
  next
    case (Supervisor_Status t st)
    have "\<not> se_disposed s" if "se_supervisor s = Some t" using assms(1) that unfolding se_ok_def by auto
    then show ?thesis using assms(1,3) set_ok Supervisor_Status
      by (cases "set_status st s") (auto simp: preceded_by_def quiet_def split: if_splits)
  next
    case (Supervisor_Stopped t)
    then show ?thesis using goodbye_ok [OF assms(1)] assms(3) pr by (auto simp: say_goodbye_def says_def)
  next
    case (Picked again result)
    then show ?thesis using assms(1,3) adopt_device_ok [OF assms(1)] 
      by (auto simp: picked_def says_def split: sum.splits option.splits device_filter.splits if_splits prod.splits)
  next
    case (Call_Resolve d)
    then show ?thesis using assms(1,3) adopt_device_ok [OF assms(1)] by (auto simp: says_def split: prod.splits)
  next
    case Stop_Awaited
    then show ?thesis using awaited_ok [OF assms(1)] assms(1,3) by (auto simp: says_def quiet_def split: if_splits)
  next
    case Election_Over
    have r: "se_released s" if "se_stage s = Awaiting_Election" using assms(1) that unfolding se_ok_def by simp
    have "\<not> pending ks" if "finish_release s = (s', xs, ks)" "se_stage s = Awaiting_Election"
      using finish_release_form(2) [OF that(1) r] that(2) by (auto simp: pending_def)
    then show ?thesis using Election_Over over_ok [OF assms(1)] assms(1,3) pr nw
      by (auto simp: quiet_def split: if_splits)
  next
    case Clear_Listeners
    have "s' = s\<lparr>se_cleared := True\<rparr>" "ks = []" using assms(3) Clear_Listeners by (auto simp: quiet_def)
    then show ?thesis using Clear_Listeners assms(1) by (simp add: se_ok_free)
  next
    case (Withdraw_Rest e)
    then have w: "w" and r: "withdraw_rest e s = (s', xs, ks)" using assms(2,3) by (auto simp: in_turn_def)
    then have "\<not> pending ks" by (auto elim!: withdraw_rest_form simp: pending_def)
    then show ?thesis using Withdraw_Rest rest_ok r w assms(1) by auto
  next
    case (Answer_Timer_Fires now)
    then show ?thesis using assms(1,3)
      by (auto simp: answer_timer_def says_def quiet_def se_ok_free Let_def split: if_splits)
  next
    case (Answer_Status now)
    then show ?thesis using assms(3) answer_status_ok [OF assms(1)] by simp
  qed (use assms(1,3) in \<open>auto simp: says_def quiet_def take_after_gap_def se_ok_free emit_error_def Let_def
      send_write_def dispatch_write_def write_done_def request_access_def pick_done_def hear_def split: if_splits option.splits\<close>)
qed

section \<open>The stack\<close>

text \<open>What is left of a withdrawal is done before anything else arrives: it lies at the bottom.\<close>

definition inner :: "task \<Rightarrow> bool" where
  "inner k \<longleftrightarrow> may_call k \<or> is_rest k \<and> \<not> withdraws k"

fun layered :: "task list \<Rightarrow> bool" where
  "layered [] = True"
| "layered (k # ks) = ((ks = [] \<or> inner k) \<and> layered ks)"

lemma layered_append: "layered (xs @ ys) \<longleftrightarrow> (if ys = [] then layered xs else (\<forall>x\<in>set xs. inner x) \<and> layered ys)"
  by (induction xs) auto

lemma layered_inner: "\<forall>x\<in>set xs. inner x \<Longrightarrow> layered xs"
  by (induction xs) auto

lemma layered_pending: "layered (k # ks) \<Longrightarrow> withdraws k \<Longrightarrow> ks = []"
  by (cases k) (auto simp: inner_def)

lemma inner_no_withdrawal: "\<forall>x\<in>set xs. is_rest x \<Longrightarrow> \<not> pending xs \<Longrightarrow> \<forall>x\<in>set xs. inner x"
  by (auto simp: inner_def pending_def)

fun hears_status :: "task \<Rightarrow> bool" where
  "hears_status (Believed c (Bm_Status st m d t) a now) = True"
| "hears_status _ = False"

text \<open>What only the session says of a term; and what it says for the port, of a write.\<close>

fun word_of :: "said \<Rightarrow> term_id option" where
  "word_of (Sent c (Bm_Claimed t m)) = Some t"
| "word_of (Sent c (Bm_Status st m d t)) = Some t"
| "word_of (Sent c (Bm_Released t)) = Some t"
| "word_of _ = None"

fun for_port :: "said \<Rightarrow> bool" where
  "for_port (Sent c (Bm_Write_Ready r t)) = True"
| "for_port (Sent c (Bm_Write_Result r e t)) = True"
| "for_port (Port_Write t c r p) = True"
| "for_port _ = False"

text \<open>What lets the locks go, disposes of the terms or starts a supervisor.\<close>

fun loud :: "said \<Rightarrow> bool" where
  "loud Election_Stop = True"
| "loud Dispose_Of_Terms = True"
| "loud (Supervisor_Start t f) = True"
| "loud _ = False"

abbreviation idle :: "said \<Rightarrow> bool" where
  "idle x \<equiv> word_of x = None \<and> \<not> loud x"

text \<open>What is left to do never speaks for a term, starts no supervisor and never lets the locks go.\<close>

fun modest :: "task \<Rightarrow> bool" where
  "modest (Say xs) = (\<forall>x\<in>set xs. idle x \<and> \<not> for_port x \<and> (\<forall>m. x \<noteq> Emitted m))"
| "modest _ = True"

lemma set_status_rest:
  assumes "set_status st s = (s', xs, ks)"
  shows "(\<forall>x\<in>set ks. is_rest x \<and> modest x) \<and> \<not> pending ks"
  using set_status_form [OF assms] by auto

lemma stop_being_owner_rest:
  assumes "stop_being_owner s = (s', xs, ks)"
  shows "ks = []"
  using assms by (auto elim!: stop_being_owner_form)

definition leaves_over :: "task \<Rightarrow> task list \<Rightarrow> bool" where
  "leaves_over k ks \<longleftrightarrow> (\<forall>x\<in>set ks. is_rest x \<and> modest x) \<and> layered ks \<and> (hears_status k \<or> \<not> pending ks)"

lemma leaves_overI: "\<forall>x\<in>set ks. is_rest x \<and> modest x \<Longrightarrow> \<not> pending ks \<Longrightarrow> leaves_over k ks"
  using inner_no_withdrawal [of ks] layered_append [of ks "[]"] unfolding leaves_over_def
  by (induction ks) (auto simp: inner_def pending_def)

lemma leaves_over_Nil [simp]: "leaves_over k []"
  by (simp add: leaves_over_def)

lemma set_status_leaves: "set_status st s = (s', xs, ks) \<Longrightarrow> leaves_over k ks"
  using set_status_rest leaves_overI by blast

lemma answer_status_leaves: "answer_status now s = (s', xs, ks) \<Longrightarrow> ks = []"
  by (auto simp: answer_status_def says_def quiet_def split: if_splits prod.splits bool.splits)

lemma join_leaves:
  assumes "join_bus s = (s', xs, ks)"
  shows "leaves_over k ks"
proof (rule leaves_overI)
  show "\<forall>x\<in>set ks. is_rest x \<and> modest x"
    using assms set_status_rest
    by (cases "set_status Status_Idle (s\<lparr>se_joined := True\<rparr>)")
      (auto simp: join_bus_def followed_by_def quiet_def request_status_def Let_def split: if_splits)
qed (rule join_tasks [OF assms])

lemma withdraw_leaves:
  assumes "withdraw v h s = (s', xs, ks)"
  shows "\<exists>e. ks = [Withdraw_Rest e]"
  using assms by (auto simp: withdraw_def followed_by_def emit_error_def Let_def)

lemma apply_status_leaves:
  assumes "apply_status v st tabs d s = (s', xs, ks)"
  shows "leaves_over (Believed c (Bm_Status st tabs d t) a now) ks"
proof -
  have "(\<exists>e. ks = [Withdraw_Rest e]) \<or> ks = [] \<or> (\<exists>st s1 s2 ys. set_status st s1 = (s2, ys, ks))"
    using assms withdraw_leaves [of v tabs s s' xs ks] unfolding apply_status_def preceded_by_def quiet_def
    by (auto split: if_splits option.splits prod.splits)
  then show ?thesis using set_status_leaves by (auto simp: leaves_over_def)
qed

lemma believe_leaves:
  assumes "believe v c m a now s = (s', xs, ks)"
  shows "leaves_over (Believed c m a now) ks"
proof (cases m)
  case (Bm_Status st tabs d t)
  then show ?thesis using assms apply_status_leaves by simp
next
  case (Bm_Status_Request retry d)
  then have "ks = [] \<or> ks = [Answer_Status now]"
    using assms answer_status_leaves [of now s s' xs ks]
    by (auto simp: status_requested_def split: option.splits if_splits prod.splits)
  then show ?thesis by (auto intro: leaves_overI)
qed (use assms in \<open>auto simp: says_def quiet_def take_after_gap_def emit_error_def Let_def split: if_splits\<close>)

lemma finish_release_leaves:
  assumes "finish_release s = (s', xs, ks)"
  shows "leaves_over k ks"
  using assms set_status_rest
  by (auto simp: finish_release_def followed_by_def preceded_by_def Let_def intro!: leaves_overI split: prod.splits)

lemma withdraw_rest_leaves:
  assumes "withdraw_rest e s = (s', xs, ks)"
  shows "leaves_over k ks"
  using assms set_status_leaves by (auto simp: withdraw_rest_def preceded_by_def split: prod.splits)

lemma release_leaves:
  assumes "release v s = (s', xs, ks)"
  shows "ks = []"
  using assms stop_being_owner_rest by (auto simp: release_def preceded_by_def quiet_def split: if_splits prod.splits)

lemma picked_leaves:
  assumes "picked v again result s = (s', xs, ks)"
  shows "ks = []"
  using assms by (auto simp: picked_def says_def split: sum.splits option.splits device_filter.splits if_splits prod.splits)

lemma perform_leaves:
  assumes "perform v k s = (s', xs, ks)"
  shows "leaves_over k ks"
proof (cases k)
  case Call_Start
  then show ?thesis using assms join_leaves set_status_rest
    by (auto simp: start_session_def followed_by_def intro!: leaves_overI split: if_splits prod.splits)
next
  case (Believed c m a now)
  then show ?thesis using assms believe_leaves by simp
next
  case (Term_Ended t cur)
  then show ?thesis using assms set_status_leaves
    by (auto simp: term_over_def preceded_by_def quiet_def split: if_splits prod.splits)
next
  case (Supervisor_Status t st)
  then show ?thesis using assms set_status_leaves by (auto simp: preceded_by_def quiet_def split: if_splits prod.splits)
next
  case (Picked again result)
  then have "ks = []" using assms picked_leaves by simp
  then show ?thesis by simp
next
  case Ownership_Lost
  then have "ks = []" using assms stop_being_owner_rest [of "s\<lparr>se_owner := False\<rparr>" s' xs ks] by simp
  then show ?thesis by simp
next
  case (Write_Done t c r p e)
  then show ?thesis using assms by (auto simp: write_done_def says_def Let_def intro!: leaves_overI split: if_splits)
next
  case (Term_Acquired t)
  then show ?thesis using assms by (auto simp: start_term_def quiet_def Let_def intro!: leaves_overI split: if_splits)
next
  case (Answer_Timer_Fires now)
  then show ?thesis using assms by (auto simp: answer_timer_def says_def quiet_def Let_def split: if_splits)
qed (use assms in \<open>auto simp: says_def quiet_def take_after_gap_def emit_error_def Let_def say_goodbye_def
      send_write_def dispatch_write_def request_access_def pick_done_def hear_def
      intro: join_leaves finish_release_leaves withdraw_rest_leaves leaves_overI
      dest: answer_status_leaves release_leaves split: if_splits option.splits prod.splits\<close>)

section \<open>What holds of a run\<close>

definition run_ok :: "running \<Rightarrow> bool" where
  "run_ok r \<longleftrightarrow> se_ok (pending (rn_stack r)) (rn_session r) \<and> layered (rn_stack r) \<and>
     (\<forall>k\<in>set (rn_stack r). modest k) \<and> (Call_Start \<in> set (rn_stack r) \<longrightarrow> rn_stack r = [Call_Start] \<and> \<not> se_disposed (rn_session r))"

lemma run_ok_in_turn:
  assumes "run_ok r" and "rn_stack r = k # rest" and "promised k (rn_session r)"
  shows "in_turn k (pending (k # rest)) (rn_session r)"
  using assms withdraws_rest by (auto simp: run_ok_def in_turn_def inner_def)

lemma may_call_inner: "may_call k \<Longrightarrow> inner k \<and> \<not> withdraws k \<and> modest k \<and> k \<noteq> Call_Start"
  by (cases k) (auto simp: inner_def)

lemma calls_inner: "\<forall>x\<in>set (filter may_call calls). inner x \<and> \<not> withdraws x \<and> modest x \<and> x \<noteq> Call_Start"
  using may_call_inner by simp

lemma pending_calls [simp]: "\<not> pending (filter may_call calls)"
  using calls_inner by (auto simp: pending_def)

lemma layered_step:
  assumes "layered (k # rest)" and "leaves_over k ks" and "hears_status k \<Longrightarrow> rest = []"
  shows "layered (filter may_call calls @ ks @ rest)"
proof -
  have "\<forall>x\<in>set ks. inner x" if "rest \<noteq> []"
    using assms(2,3) that inner_no_withdrawal [of ks] unfolding leaves_over_def by blast
  moreover have "layered rest" "layered ks" using assms(1,2) by (auto simp: leaves_over_def)
  ultimately show ?thesis using calls_inner [of calls] layered_inner [of "filter may_call calls"]
    by (cases "rest = []"; cases "ks = []") (auto simp: layered_append)
qed

lemma hears_status_arrives: "hears_status k \<Longrightarrow> \<not> inner k"
  by (cases k rule: hears_status.cases) (auto simp: inner_def)

lemma run_ok_perform:
  assumes "run_ok r" and "rn_stack r = k # rest" and "promised k (rn_session r)"
    and "perform v k (rn_session r) = (s, xs, ks)"
  shows "run_ok \<lparr>rn_session = s, rn_stack = filter may_call calls @ ks @ rest, rn_trace = tr\<rparr>"
proof -
  have "layered (k # rest)" using assms(1,2) by (simp add: run_ok_def)
  then have bottom: "rest = []" if "withdraws k \<or> hears_status k"
    using that hears_status_arrives layered_pending by auto
  have lo: "leaves_over k ks" by (rule perform_leaves [OF assms(4)])
  have "se_ok (pending (k # rest) \<and> \<not> withdraws k \<or> pending ks) s"
    using perform_ok [OF _ run_ok_in_turn [OF assms(1-3)] assms(4)] assms(1,2) by (simp add: run_ok_def)
  moreover have "(pending (k # rest) \<and> \<not> withdraws k \<or> pending ks) = pending (filter may_call calls @ ks @ rest)"
    using bottom by auto
  moreover have "layered (filter may_call calls @ ks @ rest)"
    using layered_step [OF \<open>layered (k # rest)\<close> lo] bottom by blast
  moreover have "\<forall>x\<in>set (filter may_call calls @ ks @ rest). modest x \<and> x \<noteq> Call_Start"
    using calls_inner [of calls] lo assms(1,2) by (auto simp: run_ok_def leaves_over_def)
  ultimately show ?thesis by (auto simp: run_ok_def)
qed

lemma run_ok_run: "run_ok (fold (rn_step v) hs (rn_init c now))"
proof (induction rule: run_induct)
  case Init
  show ?case using se_ok_init by (simp add: run_ok_def rn_init_def se_init_def)
next
  case (Arrive r k)
  then have "\<not> withdraws k" using withdraws_rest by blast
  then show ?case using Arrive by (cases k) (auto simp: run_ok_def)
next
  case (Drop r k rest)
  then have "\<not> withdraws k" by (cases k) auto
  then show ?case using Drop by (auto simp: run_ok_def)
next
  case (Perform r k rest calls s xs ks)
  then show ?case using run_ok_perform by blast
qed

lemma course_induct [case_names Init Arrive Drop Perform]:
  assumes "P (rn_init c now)"
    and arrive: "\<And>r k. run_ok r \<Longrightarrow> P r \<Longrightarrow> rn_stack r = [] \<Longrightarrow> \<not> is_rest k \<Longrightarrow> k \<noteq> Call_Start \<Longrightarrow> P (r\<lparr>rn_stack := [k]\<rparr>)"
    and drop: "\<And>r k rest. P r \<Longrightarrow> rn_stack r = k # rest \<Longrightarrow> P (r\<lparr>rn_stack := rest\<rparr>)"
    and do: "\<And>r k rest calls s xs ks. run_ok r \<Longrightarrow> P r \<Longrightarrow> rn_stack r = k # rest \<Longrightarrow> promised k (rn_session r) \<Longrightarrow>
      in_course k (rn_trace r) \<Longrightarrow> perform v k (rn_session r) = (s, xs, ks) \<Longrightarrow>
      P \<lparr>rn_session = s, rn_stack = filter may_call calls @ ks @ rest,
         rn_trace = rn_trace r @ [Did k] @ map Spoke xs\<rparr>"
  shows "P (fold (rn_step v) hs (rn_init c now))"
proof -
  have "P (fold (rn_step v) hs (rn_init c now))" for hs
  proof (induction hs rule: rev_induct)
    case Nil
    then show ?case by (simp add: assms(1))
  next
    case (snoc h hs)
    let ?r = "fold (rn_step v) hs (rn_init c now)"
    note ok = run_ok_run [of v hs c now]
    have "P (rn_step v h ?r)"
    proof (cases h)
      case (Arrives k)
      then show ?thesis using snoc.IH arrive [OF ok] by simp
    next
      case (Goes_On calls)
      show ?thesis
      proof (cases "rn_stack ?r")
        case Nil
        then show ?thesis using Goes_On snoc.IH by simp
      next
        case (Cons k rest)
        then show ?thesis using Goes_On drop [OF snoc.IH Cons] do [OF ok snoc.IH Cons]
          by (cases "perform v k (rn_session ?r)") (simp add: do_task_def)
      qed
    qed
    then show ?case by simp
  qed
  then show ?thesis .
qed

section \<open>Who speaks for the port\<close>

definition speaker :: "session \<Rightarrow> term_id option" where
  "speaker s = (if se_supervisor s \<noteq> None then se_supervisor s else se_stopping s)"

lemma speaks_for_speaker:
  assumes "se_ok w s"
  shows "speaks_for s t \<longleftrightarrow> speaker s = Some t"
proof -
  have "se_supervisor s = None \<or> se_stopping s = None" using assms unfolding se_ok_def by blast
  then show ?thesis by (auto simp: speaks_for_def speaker_def)
qed

lemma set_status_keeps:
  assumes "set_status st s = (s', xs, ks)"
  shows "se_supervisor s' = se_supervisor s \<and> se_stopping s' = se_stopping s \<and> se_disposed s' = se_disposed s"
  using set_status_form [OF assms] by auto

lemma answer_status_keeps:
  assumes "answer_status now s = (s', xs, ks)"
  shows "se_supervisor s' = se_supervisor s \<and> se_stopping s' = se_stopping s \<and> se_disposed s' = se_disposed s"
  using assms by (auto simp: answer_status_def says_def quiet_def split: if_splits prod.splits bool.splits)

lemma apply_status_keeps:
  assumes "apply_status v st tabs d s = (s', xs, ks)"
  shows "se_supervisor s' = se_supervisor s \<and> se_stopping s' = se_stopping s \<and> se_disposed s' = se_disposed s"
  using assms set_status_keeps adopt_device_keeps
  unfolding apply_status_def preceded_by_def quiet_def withdraw_def emit_error_def followed_by_def Let_def
  by (fastforce split: if_splits option.splits prod.splits)

lemma believe_keeps:
  assumes "believe v c m a now s = (s', xs, ks)"
  shows "se_supervisor s' = se_supervisor s \<and> se_stopping s' = se_stopping s \<and> se_disposed s' = se_disposed s"
proof (cases m)
  case (Bm_Status st tabs d t)
  then show ?thesis using assms apply_status_keeps by simp
next
  case (Bm_Status_Request retry d)
  then show ?thesis using assms answer_status_keeps adopt_device_keeps(1,2,9)
    by (auto simp: status_requested_def split: option.splits if_splits prod.splits)
qed (use assms in \<open>auto simp: says_def quiet_def take_after_gap_def emit_error_def Let_def split: if_splits\<close>)

fun changes_speaker :: "task \<Rightarrow> bool" where
  "changes_speaker Call_Release = True"
| "changes_speaker (Term_Acquired t) = True"
| "changes_speaker Ownership_Lost = True"
| "changes_speaker (Supervisor_Stopped t) = True"
| "changes_speaker _ = False"

lemma finish_release_keeps:
  assumes "finish_release s = (s', xs, ks)"
  shows "se_supervisor s' = se_supervisor s \<and> se_stopping s' = se_stopping s \<and> se_disposed s'"
  using assms set_status_keeps
  by (fastforce simp: finish_release_def followed_by_def preceded_by_def Let_def stop_timers_def split: prod.splits)

lemma withdraw_rest_keeps:
  assumes "withdraw_rest e s = (s', xs, ks)"
  shows "se_supervisor s' = se_supervisor s \<and> se_stopping s' = se_stopping s \<and> se_disposed s'"
  using assms set_status_keeps by (fastforce simp: withdraw_rest_def preceded_by_def stop_timers_def split: prod.splits)

lemma join_keeps:
  assumes "join_bus s = (s', xs, ks)"
  shows "se_supervisor s' = se_supervisor s \<and> se_stopping s' = se_stopping s \<and> se_disposed s' = se_disposed s"
  using assms set_status_keeps
  by (fastforce simp: join_bus_def followed_by_def quiet_def Let_def split: prod.splits if_splits)

lemma perform_keeps:
  assumes "perform v k s = (s', xs, ks)" and "\<not> changes_speaker k"
  shows "se_supervisor s' = se_supervisor s \<and> se_stopping s' = se_stopping s"
proof (cases k)
  case Call_Start
  then show ?thesis using assms join_keeps set_status_keeps
    by (fastforce simp: start_session_def followed_by_def split: if_splits prod.splits)
next
  case (Believed c m a now)
  then show ?thesis using assms believe_keeps by simp
next
  case (Term_Ended t cur)
  then show ?thesis using assms set_status_keeps
    by (fastforce simp: term_over_def preceded_by_def quiet_def split: if_splits prod.splits)
next
  case (Supervisor_Status t st)
  then show ?thesis using assms set_status_keeps by (fastforce simp: preceded_by_def quiet_def split: if_splits prod.splits)
next
  case (Picked again result)
  then show ?thesis using assms adopt_device_keeps(2,9)
    by (fastforce simp: picked_def says_def split: sum.splits option.splits device_filter.splits if_splits prod.splits)
next
  case (Call_Resolve d)
  then show ?thesis using assms adopt_device_keeps(2,9) by (fastforce simp: says_def split: prod.splits)
next
  case Election_Over
  then show ?thesis using assms finish_release_keeps by (auto simp: quiet_def split: if_splits)
qed (use assms in \<open>auto simp: says_def quiet_def take_after_gap_def emit_error_def Let_def answer_timer_def
      send_write_def dispatch_write_def write_done_def request_access_def pick_done_def hear_def
      dest: join_keeps answer_status_keeps withdraw_rest_keeps split: if_splits option.splits\<close>)

lemma perform_speaker:
  assumes "se_ok w s" and "promised k s" and "perform v k s = (s', xs, ks)"
  shows "speaker s' = (case k of Term_Acquired t \<Rightarrow> if se_released s then speaker s else Some t
     | Supervisor_Stopped t \<Rightarrow> None | _ \<Rightarrow> speaker s)"
proof (cases "changes_speaker k")
  case False
  then show ?thesis using perform_keeps [OF assms(3) False] by (cases k) (auto simp: speaker_def)
next
  case True
  have same: "se_term s = se_supervisor s" using assms(1) unfolding se_ok_def by blast
  have stopped: "speaker s1 = speaker s" if "stop_being_owner s0 = (s1, ys, zs)" "se_supervisor s0 = se_supervisor s"
    "se_term s0 = se_term s" "se_stopping s0 = se_stopping s" for s0 s1 ys zs
    using that(1) same by (cases rule: stop_being_owner_form) (auto simp: speaker_def that)
  from True show ?thesis
  proof (cases k)
    case Call_Release
    then show ?thesis using assms(3) stopped
      by (cases "stop_being_owner (s\<lparr>se_released := True, se_writes_failed := True, se_stage := Awaiting_Stop\<rparr>)")
        (auto simp: release_def preceded_by_def quiet_def split: if_splits)
  next
    case (Term_Acquired t)
    then show ?thesis using assms(3) by (auto simp: start_term_def quiet_def Let_def speaker_def split: if_splits)
  next
    case Ownership_Lost
    then show ?thesis using assms(3) stopped [of "s\<lparr>se_owner := False\<rparr>" s' xs ks] by simp
  next
    case (Supervisor_Stopped t)
    then have "se_released s" using assms(1,2) unfolding se_ok_def by auto
    then have "se_supervisor s = None" using assms(1) unfolding se_ok_def by blast
    then show ?thesis using Supervisor_Stopped assms(3) by (auto simp: say_goodbye_def says_def speaker_def)
  qed simp_all
qed

section \<open>What is said for a term\<close>

text \<open>
  The course of a term in the messages this context sends: claimed, spoken for, released. Once released, a
  term still asks about and answers the writes that were handed to its port and unanswered then, \<open>ws\<close>.
\<close>

datatype speech = Unborn | Speaking | Over | Broken

fun speak :: "term_id \<Rightarrow> said \<Rightarrow> (client_id \<times> request_id) list \<Rightarrow> speech \<Rightarrow> speech" where
  "speak t (Sent c (Bm_Claimed t' m)) ws p =
     (if t' \<noteq> t then p else if p = Unborn then Speaking else Broken)"
| "speak t (Sent c (Bm_Status st m d t')) ws p =
     (if t' \<noteq> t then p else if p = Speaking then Speaking else Broken)"
| "speak t (Sent c (Bm_Released t')) ws p =
     (if t' \<noteq> t then p else if p = Speaking then Over else Broken)"
| "speak t (Sent (To_One c) (Bm_Write_Ready r t')) ws p =
     (if t' \<noteq> t then p else if p = Speaking \<or> (p = Over \<and> (c, r) \<in> set ws) then p else Broken)"
| "speak t (Sent (To_One c) (Bm_Write_Result r e (Some t'))) ws p =
     (if t' \<noteq> t then p else if p = Speaking \<or> (p = Over \<and> (c, r) \<in> set ws) then p else Broken)"
| "speak t (Sent To_All (Bm_Write_Ready r t')) ws p = (if t' \<noteq> t then p else Broken)"
| "speak t (Sent To_All (Bm_Write_Result r e (Some t'))) ws p = (if t' \<noteq> t then p else Broken)"
| "speak t _ ws p = p"

fun spoken :: "term_id \<Rightarrow> entry \<Rightarrow> speech \<times> (client_id \<times> request_id) list \<Rightarrow> speech \<times> (client_id \<times> request_id) list" where
  "spoken t e (p, ws) =
     (case e of Spoke x \<Rightarrow> speak t x ws p | Did k \<Rightarrow> p, if p = Over then ws else hands t e ws)"

definition plain :: "session \<Rightarrow> said \<Rightarrow> bool" where
  "plain s x \<longleftrightarrow> \<not> loud x \<and> (case word_of x of None \<Rightarrow> True
     | Some t \<Rightarrow> speaks_for s t \<and> (\<forall>c m. x \<noteq> Sent c (Bm_Claimed t m)) \<and> (\<forall>c. x \<noteq> Sent c (Bm_Released t)))"

lemma idle_plain: "idle x \<Longrightarrow> plain s x"
  by (simp add: plain_def)

lemma emits_plain: "x \<in> set (emits m s1) \<Longrightarrow> idle x"
  by (auto simp: emits_def split: if_splits)

lemma set_status_says:
  assumes "set_status st s = (s', xs, ks)" and "x \<in> set xs"
  shows "idle x"
  using set_status_form [OF assms(1)] assms(2) emits_plain by auto

lemma slot_stop_says: "x \<in> set (slot_stop s) \<Longrightarrow> x = Slot_Stop"
  by (auto simp: slot_stop_def split: if_splits)

lemma told_says: "x \<in> set (told_of_device d ch) \<Longrightarrow> \<exists>d. x = Device_Resolved d"
  by (auto simp: told_of_device_def split: if_splits)

lemma broadcast_plain:
  assumes "se_ok w s" and "x \<in> set (broadcast_status st s)"
  shows "plain s x"
proof -
  have "se_term s = se_supervisor s" using assms(1) unfolding se_ok_def by blast
  then show ?thesis using assms(2) by (auto simp: broadcast_status_def plain_def speaks_for_def split: option.splits)
qed

lemma answer_status_plain:
  assumes "se_ok w s" and "answer_status now s = (s', xs, ks)" and "x \<in> set xs"
  shows "plain s x"
  using assms(2,3) broadcast_plain [OF assms(1)]
  by (auto simp: answer_status_def says_def quiet_def plain_def split: if_splits prod.splits bool.splits)

lemma apply_status_says:
  assumes "apply_status v st tabs d s = (s', xs, ks)" and "x \<in> set xs"
  shows "idle x"
  using assms set_status_says emits_plain told_says
  unfolding apply_status_def preceded_by_def quiet_def withdraw_def emit_error_def followed_by_def Let_def
  by (fastforce split: if_splits option.splits prod.splits)

lemma believe_plain:
  assumes "se_ok w s" and "believe v c m a now s = (s', xs, ks)" and "x \<in> set xs"
  shows "plain s x"
proof (cases m)
  case (Bm_Status st tabs d t)
  then show ?thesis using assms(2,3) apply_status_says idle_plain by auto
next
  case (Bm_Status_Request retry d)
  then show ?thesis using assms answer_status_plain [OF assms(1)] told_says idle_plain
    by (fastforce simp: status_requested_def split: option.splits if_splits prod.splits)
next
  case (Bm_Write_Ready r t)
  then show ?thesis using assms(2,3) by (auto simp: says_def plain_def)
qed (use assms(2,3) in \<open>auto simp: says_def quiet_def take_after_gap_def emit_error_def Let_def
    dest: emits_plain intro: idle_plain split: if_splits\<close>)

lemma finish_release_says:
  assumes "finish_release s = (s', xs, ks)" and "x \<in> set xs"
  shows "x \<in> {Dispose_Of_Terms, Detached, Slot_Stop} \<or> (\<exists>m. x = Emitted m)"
proof -
  obtain s1 ys k1 where st: "set_status Status_Released ((stop_timers s)\<lparr>se_stage := Finished_Release, se_disposed := True,
     se_detached := (se_detached s \<or> se_joined s \<and> se_withdrawal s = None)\<rparr>) = (s1, ys, k1)" by (metis prod_cases3)
  then have "\<forall>y\<in>set ys. \<exists>m. y = Emitted m" using set_status_form [OF st] by (auto simp: emits_def split: if_splits)
  then show ?thesis using assms st
    using slot_stop_says [of x s]
    by (auto simp: finish_release_def followed_by_def preceded_by_def Let_def split: if_splits; blast)
qed

lemma withdraw_rest_says:
  assumes "withdraw_rest e s = (s', xs, ks)" and "x \<in> set xs"
  shows "x \<in> {Fail_All_Writes e, Dispose_Of_Terms, Election_Stop, Detached, Slot_Stop} \<or> (\<exists>m. x = Emitted m)"
proof -
  obtain s1 ys k1 where st: "set_status Status_Failed ((stop_timers s)\<lparr>se_writes_failed := True, se_disposed := True,
     se_election_stopped := True, se_detached := True\<rparr>) = (s1, ys, k1)" by (metis prod_cases3)
  then have "\<forall>y\<in>set ys. \<exists>m. y = Emitted m" using set_status_form [OF st] by (auto simp: emits_def split: if_splits)
  then show ?thesis using assms st
    using slot_stop_says [of x s] by (auto simp: withdraw_rest_def preceded_by_def; blast)
qed

lemma stop_being_owner_says:
  assumes "stop_being_owner s = (s', xs, ks)" and "x \<in> set xs"
  shows "\<exists>t. x = Supervisor_Stop t"
  using assms by (auto elim!: stop_being_owner_form)

lemma join_says:
  assumes "join_bus s = (s', xs, ks)" and "x \<in> set xs"
  shows "idle x"
  using assms set_status_says by (fastforce simp: join_bus_def followed_by_def quiet_def Let_def split: prod.splits if_splits)

fun outspoken :: "task \<Rightarrow> bool" where
  "outspoken (Term_Acquired t) = True"
| "outspoken (Supervisor_Stopped t) = True"
| "outspoken Stop_Awaited = True"
| "outspoken Election_Over = True"
| "outspoken (Withdraw_Rest e) = True"
| "outspoken _ = False"

lemma perform_plain:
  assumes "se_ok w s" and "promised k s" and "modest k" and "perform v k s = (s', xs, ks)" and "\<not> outspoken k" and "x \<in> set xs"
  shows "plain s x"
proof (cases k)
  case Call_Start
  obtain s1 ys zs where st: "set_status Status_Queued s = (s1, ys, zs)" by (metis prod_cases3)
  have "idle x"
  proof (cases "has_slot s")
    case True
    then show ?thesis using assms(4,6) Call_Start st set_status_says [OF st] by (simp add: start_session_def followed_by_def)
  next
    case False
    then show ?thesis using assms(4,6) Call_Start join_says by (simp add: start_session_def)
  qed
  then show ?thesis by (rule idle_plain)
next
  case Call_Release
  then show ?thesis using assms(4,6) stop_being_owner_says idle_plain
    by (fastforce simp: release_def preceded_by_def quiet_def split: if_splits prod.splits)
next
  case (Believed c m a now)
  then show ?thesis using assms believe_plain by simp
next
  case (Term_Ended t cur)
  then show ?thesis using assms(4,6) set_status_says idle_plain
    by (fastforce simp: term_over_def preceded_by_def quiet_def split: if_splits prod.splits)
next
  case Ownership_Lost
  then show ?thesis using assms(4,6) stop_being_owner_says idle_plain by fastforce
next
  case (Supervisor_Status t st)
  then show ?thesis using assms(4,6) set_status_says idle_plain broadcast_plain [OF assms(1)]
    by (fastforce simp: preceded_by_def quiet_def split: if_splits prod.splits)
next
  case (Picked again result)
  then show ?thesis using assms(4,6) told_says idle_plain
    by (fastforce simp: picked_def says_def split: sum.splits option.splits device_filter.splits if_splits prod.splits)
next
  case (Call_Resolve d)
  then show ?thesis using assms(4,6) told_says idle_plain by (fastforce simp: says_def split: prod.splits)
next
  case Place_Acquired
  then show ?thesis using assms(4,6) join_says idle_plain by auto
next
  case (Answer_Status now)
  then show ?thesis using assms(4,6) answer_status_plain [OF assms(1)] by auto
next
  case (Write_Done t c r p e)
  then show ?thesis using assms(2,4,6) emits_plain idle_plain
    by (auto simp: write_done_def says_def Let_def plain_def speaks_for_def split: if_splits)
next
  case (Write_Asks t c r)
  then show ?thesis using assms(2,4,6) by (auto simp: says_def plain_def)
qed (use assms(3-6) broadcast_plain [OF assms(1)] in \<open>auto simp: says_def quiet_def take_after_gap_def emit_error_def Let_def answer_timer_def
      send_write_def dispatch_write_def request_access_def pick_done_def hear_def request_status_def
      dest: emits_plain intro: idle_plain split: if_splits option.splits\<close>)

text \<open>What is said for the port: to whom the port asks or answers, and what is handed to it.\<close>

definition on_behalf :: "task \<Rightarrow> session \<Rightarrow> said \<Rightarrow> bool" where
  "on_behalf k s x \<longleftrightarrow>
     (\<exists>t c r. k = Write_Asks t c r \<and> x = Sent (To_One c) (Bm_Write_Ready r t)) \<or>
     (\<exists>t c r p e. k = Write_Done t c r p e \<and> x = Sent (To_One c) (Bm_Write_Result r e (Some t))) \<or>
     (\<exists>t c r p. x = Port_Write t c r p \<and> se_supervisor s = Some t)"

lemma emits_for_port: "x \<in> set (emits m s) \<Longrightarrow> \<not> for_port x"
  by (auto simp: emits_def split: if_splits)

lemma set_status_for_port: "set_status st s = (s', xs, ks) \<Longrightarrow> x \<in> set xs \<Longrightarrow> \<not> for_port x"
  using set_status_form [of st s s' xs ks] emits_for_port by auto

lemma broadcast_for_port: "x \<in> set (broadcast_status st s) \<Longrightarrow> \<not> for_port x"
  by (auto simp: broadcast_status_def split: option.splits)

lemma answer_status_for_port: "answer_status now s = (s', xs, ks) \<Longrightarrow> x \<in> set xs \<Longrightarrow> \<not> for_port x"
  using broadcast_for_port by (auto simp: answer_status_def says_def quiet_def split: if_splits prod.splits bool.splits)

lemma told_for_port: "x \<in> set (told_of_device d ch) \<Longrightarrow> \<not> for_port x"
  by (auto simp: told_of_device_def split: if_splits)

lemma apply_status_for_port:
  assumes "apply_status v st tabs d s = (s', xs, ks)" and "x \<in> set xs"
  shows "\<not> for_port x"
  using assms set_status_for_port emits_for_port told_for_port
  unfolding apply_status_def preceded_by_def quiet_def withdraw_def emit_error_def followed_by_def Let_def
  by (fastforce split: if_splits option.splits prod.splits)

lemma join_for_port:
  assumes "join_bus s = (s', xs, ks)" and "x \<in> set xs"
  shows "\<not> for_port x"
  using assms set_status_for_port by (fastforce simp: join_bus_def followed_by_def quiet_def Let_def split: prod.splits if_splits)

lemma believe_for_port:
  assumes "believe v c m a now s = (s', xs, ks)" and "x \<in> set xs" and "for_port x"
  shows "\<exists>t c r p. x = Port_Write t c r p \<and> se_supervisor s \<noteq> None \<and> se_term s = Some t"
proof (cases m)
  case (Bm_Status st tabs d t)
  then show ?thesis using assms apply_status_for_port by auto
next
  case (Bm_Status_Request retry d)
  then show ?thesis using assms answer_status_for_port told_for_port
    by (fastforce simp: status_requested_def split: option.splits if_splits prod.splits)
qed (use assms in \<open>auto simp: says_def quiet_def take_after_gap_def emit_error_def Let_def
    dest: emits_for_port split: if_splits\<close>)

lemma perform_for_port:
  assumes "se_ok w s" and "modest k" and "perform v k s = (s', xs, ks)" and "x \<in> set xs" and "for_port x"
  shows "on_behalf k s x"
proof -
  have same: "se_term s = se_supervisor s" using assms(1) unfolding se_ok_def by blast
  show ?thesis
  proof (cases k)
    case Call_Start
    obtain s1 ys zs where st: "set_status Status_Queued s = (s1, ys, zs)" by (metis prod_cases3)
    show ?thesis using assms(3-5) Call_Start st set_status_for_port [OF st] join_for_port
      by (cases "has_slot s") (auto simp: start_session_def followed_by_def)
  next
    case Call_Release
    then show ?thesis using assms(3-5) stop_being_owner_says
      by (fastforce simp: release_def preceded_by_def quiet_def split: if_splits prod.splits)
  next
    case (Believed c m a now)
    then show ?thesis using assms(3-5) believe_for_port [of v c m a now s s' xs ks x] same by (auto simp: on_behalf_def)
  next
    case (Term_Ended t cur)
    then show ?thesis using assms(3-5) set_status_for_port
      by (fastforce simp: term_over_def preceded_by_def quiet_def split: if_splits prod.splits)
  next
    case Ownership_Lost
    then show ?thesis using assms(3-5) stop_being_owner_says by fastforce
  next
    case (Supervisor_Status t st)
    then show ?thesis using assms(3-5) set_status_for_port broadcast_for_port
      by (fastforce simp: preceded_by_def quiet_def split: if_splits prod.splits)
  next
    case (Picked again result)
    then show ?thesis using assms(3-5) told_for_port
      by (fastforce simp: picked_def says_def split: sum.splits option.splits device_filter.splits if_splits prod.splits)
  next
    case (Call_Resolve d)
    then show ?thesis using assms(3-5) told_for_port by (fastforce simp: says_def split: prod.splits)
  next
    case Place_Acquired
    then show ?thesis using assms(3-5) join_for_port by auto
  next
    case Election_Over
    then show ?thesis using assms(3-5) finish_release_says by (fastforce simp: quiet_def split: if_splits)
  next
    case (Withdraw_Rest e)
    then show ?thesis using assms(3-5) withdraw_rest_says by fastforce
  next
    case (Write_Done t c r p e)
    then show ?thesis using assms(3-5) emits_for_port
      by (auto simp: write_done_def says_def Let_def on_behalf_def split: if_splits)
  next
    case (Write_Dispatched r p t)
    then show ?thesis using assms(3-5) same by (auto simp: dispatch_write_def says_def on_behalf_def split: if_splits)
  next
    case (Answer_Status now)
    then show ?thesis using assms(3-5) answer_status_for_port by auto
  qed (use assms(2-5) in \<open>auto simp: on_behalf_def says_def quiet_def take_after_gap_def emit_error_def Let_def answer_timer_def
      send_write_def request_access_def pick_done_def hear_def request_status_def start_term_def say_goodbye_def
      dest: emits_for_port broadcast_for_port split: if_splits option.splits\<close>)
qed

end
