(* ===== verification/Session_Course.thy ===== *)
theory Session_Course
  imports Session_Runs
begin

text \<open>
  The course of a session (\<open>client/configuration-session.ts\<close>) as its collaborators and listeners see it, over
  the trace of a run: the words of a term, the locks that outlive the port, the silence after leaving, the events
  that fit together, and that a release can be completed from everywhere.
\<close>

lemma run_ok_top:
  assumes "run_ok r" and "rn_stack r = k # rest"
  shows "se_ok (pending (rn_stack r)) (rn_session r)" and "modest k"
  using assms by (simp_all add: run_ok_def)


lemma leaving_says:
  assumes "perform v k s = (s', xs, ks)" and "k = Stop_Awaited \<or> k = Election_Over \<or> (\<exists>e. k = Withdraw_Rest e)"
  shows "\<forall>x\<in>set xs. word_of x = None \<and> (\<forall>t f. x \<noteq> Supervisor_Start t f) \<and> (\<forall>c m. x \<noteq> Sent c m)"
  using assms(2)
proof (elim disjE exE)
  assume "k = Stop_Awaited"
  then show ?thesis using assms(1) by (auto simp: says_def quiet_def split: if_splits)
next
  assume "k = Election_Over"
  then show ?thesis using assms(1) finish_release_says by (fastforce simp: quiet_def split: if_splits)
next
  fix e assume "k = Withdraw_Rest e"
  then show ?thesis using assms(1) withdraw_rest_says by fastforce
qed

lemma stops_locks_silently:
  assumes "se_ok w s" and "in_turn k w' s" and "perform v k s = (s', xs, ks)" and "w' = w"
    and "k = Stop_Awaited \<or> k = Election_Over \<or> (\<exists>e. k = Withdraw_Rest e)"
  shows "speaker s = None \<or> (\<forall>x\<in>set xs. x \<noteq> Election_Stop)"
  using assms(5)
proof (elim disjE exE)
  assume k: "k = Stop_Awaited"
  have "se_supervisor s = None" if "se_stage s = Awaiting_Stop"
  proof -
    have "se_released s" using assms(1) that unfolding se_ok_def by simp
    then show ?thesis using assms(1) unfolding se_ok_def by blast
  qed
  then show ?thesis using assms(3) k by (auto simp: says_def quiet_def speaker_def split: if_splits)
next
  assume "k = Election_Over"
  then show ?thesis using assms(3) finish_release_says by (fastforce simp: quiet_def split: if_splits)
next
  fix e assume "k = Withdraw_Rest e"
  then have "se_withdrawal s \<noteq> None" using assms(1,2,4) unfolding se_ok_def by (auto simp: in_turn_def)
  then have "se_supervisor s = None" "se_stopping s = None" using assms(1) unfolding se_ok_def by blast+
  then show ?thesis by (simp add: speaker_def)
qed

lemma acquired_says:
  assumes "perform v (Term_Acquired t) s = (s', xs, ks)"
  shows "if se_released s then xs = []
    else xs = [Sent To_All (Bm_Claimed t (nc_max_tabs (se_config s))), Supervisor_Start t (stays_failed (s\<lparr>se_owner := True\<rparr>))]"
  using assms by (auto simp: start_term_def quiet_def Let_def)

lemma goodbye_says:
  assumes "perform v (Supervisor_Stopped t) s = (s', xs, ks)"
  shows "xs = [Queue_Goodbye t, Sent To_All (Bm_Released t), Election_Stop, End_Own_Term t]"
  using assms by (auto simp: say_goodbye_def says_def)

lemma outspoken_cases:
  assumes "outspoken k"
  obtains t where "k = Term_Acquired t" | t where "k = Supervisor_Stopped t"
  | "k = Stop_Awaited \<or> k = Election_Over \<or> (\<exists>e. k = Withdraw_Rest e)"
  using assms by (cases k) auto

section \<open>The words of a term\<close>







definition course_of :: "term_id \<Rightarrow> entry list \<Rightarrow> speech \<times> (client_id \<times> request_id) list" where
  "course_of t tr = fold (spoken t) tr (Unborn, [])"


text \<open>What is kept: whoever speaks for a term has claimed it, a term not yet acquired is unheard of, and what is
  unanswered of a released term was unanswered at its release.\<close>

definition speech_ok :: "term_id \<Rightarrow> running \<Rightarrow> bool" where
  "speech_ok t r \<longleftrightarrow> (case course_of t (rn_trace r) of (p, ws) \<Rightarrow>
     p \<noteq> Broken \<and> (speaks_for (rn_session r) t \<longrightarrow> p = Speaking) \<and>
     (Did (Term_Acquired t) \<notin> set (rn_trace r) \<longrightarrow> p = Unborn \<and> \<not> speaks_for (rn_session r) t) \<and>
     (p = Unborn \<longrightarrow> unanswered t (rn_trace r) = []) \<and>
     (if p = Over then set (unanswered t (rn_trace r)) \<subseteq> set ws else ws = unanswered t (rn_trace r)))"

lemma speech_ok_stack [simp]: "speech_ok t (r\<lparr>rn_stack := ks\<rparr>) = speech_ok t r"
  by (simp add: speech_ok_def)





section \<open>The locks outlive the port\<close>

text \<open>The term whose supervisor runs or is stopping, and whether it was ever left without its locks.\<close>

fun supervised :: "entry \<Rightarrow> term_id option \<times> bool \<Rightarrow> term_id option \<times> bool" where
  "supervised (Spoke (Supervisor_Start t f)) (held, kept) = (Some t, kept \<and> held = None)"
| "supervised (Spoke Election_Stop) (held, kept) = (held, kept \<and> held = None)"
| "supervised (Did (Supervisor_Stopped t)) (held, kept) = (if held = Some t then None else held, kept)"
| "supervised _ hk = hk"

definition supervision :: "entry list \<Rightarrow> term_id option \<times> bool" where
  "supervision tr = fold supervised tr (None, True)"

lemma supervised_quietly:
  assumes "\<forall>x\<in>set xs. \<not> (x = Election_Stop \<or> (\<exists>t f. x = Supervisor_Start t f))"
  shows "fold supervised (map Spoke xs) hk = hk"
  using assms
proof (induction xs)
  case (Cons x xs)
  then show ?case by (cases x; cases hk) auto
qed simp

lemma supervised_stopping:
  assumes "\<forall>x\<in>set xs. \<forall>t f. x \<noteq> Supervisor_Start t f"
  shows "fold supervised (map Spoke xs) (None, kept) = (None, kept)"
  using assms
proof (induction xs)
  case (Cons x xs)
  then show ?case by (cases x) auto
qed simp

lemma supervision_run:
  "supervision (rn_trace (fold (rn_step v) hs (rn_init c now))) =
     (speaker (rn_session (fold (rn_step v) hs (rn_init c now))), True)"
proof (induction rule: course_induct)
  case Init
  show ?case by (simp add: supervision_def rn_init_def se_init_def speaker_def)
next
  case (Perform r k rest calls s xs ks)
  let ?s = "rn_session r"
  note ok = run_ok_top(1) [OF Perform.hyps(1,2)] and mo = run_ok_top(2) [OF Perform.hyps(1,2)]
  note sp = perform_speaker [OF ok Perform.hyps(3,5)]
  have ev: "supervision (rn_trace r @ [Did k] @ map Spoke xs) =
      fold supervised (map Spoke xs) (supervised (Did k) (speaker ?s, True))"
    using Perform.IH by (simp add: supervision_def)
  show ?case
  proof (cases "outspoken k")
    case False
    have "\<not> loud x" if "x \<in> set xs" for x
      using perform_plain [OF ok Perform.hyps(3) mo Perform.hyps(5) False that] by (simp add: plain_def)
    then have "fold supervised (map Spoke xs) hk = hk" for hk
      by (intro supervised_quietly) fastforce
    moreover have "supervised (Did k) hk = hk" for hk using False by (cases k; cases hk) auto
    moreover have "speaker s = speaker ?s" using sp False by (cases k) auto
    ultimately show ?thesis unfolding running.simps ev by simp
  next
    case True
    then show ?thesis
    proof (cases rule: outspoken_cases)
      case (1 t)
      have n: "speaker ?s = None" if "\<not> se_released ?s"
      proof -
        have "\<not> se_owner ?s" using Perform.hyps(3) 1 by simp
        then have "se_supervisor ?s = None" using ok unfolding se_ok_def by blast
        then show ?thesis using unreleased_stage(2) [OF ok that] by (simp add: speaker_def)
      qed
      show ?thesis unfolding running.simps ev
        using acquired_says [OF Perform.hyps(5) [unfolded 1]] sp 1 n by (auto split: if_splits)
    next
      case (2 t)
      have "se_stopping ?s = Some t" using Perform.hyps(3) 2 by simp
      moreover from this have "se_supervisor ?s = None" using ok unfolding se_ok_def by blast
      ultimately have "speaker ?s = Some t" by (simp add: speaker_def)
      then show ?thesis unfolding running.simps ev
        using goodbye_says [OF Perform.hyps(5) [unfolded 2]] sp 2 by simp
    next
      case 3
      have same: "speaker s = speaker ?s" using sp 3 by auto
      have did: "supervised (Did k) hk = hk" for hk using 3 by (cases hk) auto
      have "speaker ?s = None \<or> (\<forall>x\<in>set xs. x \<noteq> Election_Stop)"
        using stops_locks_silently [OF ok run_ok_in_turn [OF Perform.hyps(1-3)] Perform.hyps(5) _ 3] Perform.hyps(2) by simp
      then show ?thesis
        using leaving_says [OF Perform.hyps(5) 3] supervised_stopping [of xs True] supervised_quietly [of xs]
        unfolding running.simps ev did same by auto
    qed
  qed
qed auto

text \<open>
  C12. The locks of a term outlive its port: from the moment a supervisor is started until it has stopped,
  no second one is started and the election is never stopped, so the successor cannot open the
  device while this context may still hold it.
\<close>

theorem locks_outlive_the_port: "snd (supervision (rn_trace (fold (rn_step v) hs (rn_init c now))))"
  by (simp add: supervision_run)

section \<open>Silence after leaving\<close>

definition after_leaving :: "entry list \<Rightarrow> entry list" where
  "after_leaving tr = dropWhile (\<lambda>e. e \<noteq> Spoke Dispose_Of_Terms) tr"


text \<open>
  What a context that has left, after the course \<open>tr\<close>, can still send: for a port it has held, data and errors the
  port still reports, and a question, an answer and the word that its bytes were sent for a write handed to the
  port and unanswered when the context left; and the request to look again for a port that was picked before,
  when what follows the \<open>await\<close> had not come yet.
\<close>

fun late_word :: "entry list \<Rightarrow> said \<Rightarrow> bool" where
  "late_word tr (Sent (To_One c) (Bm_Write_Ready r t)) = ((c, r) \<in> set (unanswered t tr))"
| "late_word tr (Sent (To_One c) (Bm_Write_Result r e (Some t))) = ((c, r) \<in> set (unanswered t tr))"
| "late_word tr (Sent To_All (Bm_Data_Sent p c)) = list_ex (\<lambda>t. c \<in> fst ` set (unanswered t tr)) (terms_held tr)"
| "late_word tr (Sent To_All (Bm_Data_Received b x)) = (terms_held tr \<noteq> [])"
| "late_word tr (Sent To_All (Bm_Error e)) = (terms_held tr \<noteq> [])"
| "late_word tr (Sent To_All (Bm_Status_Request retry d)) = (retry \<and> picks_open tr \<noteq> [])"
| "late_word tr (Sent c m) = False"
| "late_word tr x = True"


text \<open>What has to stay as it is: nothing more is handed to a port, no supervisor started, no port picked.\<close>

fun renews :: "said \<Rightarrow> bool" where
  "renews (Port_Write t c r p) = True"
| "renews (Supervisor_Start t f) = True"
| "renews (Pick_Awaited changed) = True"
| "renews _ = False"

definition silent :: "entry list \<Rightarrow> task \<Rightarrow> bool" where
  "silent tr k \<longleftrightarrow> k \<noteq> Call_Start \<and> \<not> withdraws k \<and>
     (case k of Say xs \<Rightarrow> \<forall>x\<in>set xs. late_word tr x \<and> \<not> renews x | _ \<Rightarrow> True)"

definition low :: "entry list \<Rightarrow> said list \<Rightarrow> bool" where
  "low tr xs \<longleftrightarrow> (\<forall>x\<in>set xs. late_word tr x \<and> \<not> renews x)"

lemma low_simps [simp]:
  "low tr []" "low tr (x # xs) \<longleftrightarrow> late_word tr x \<and> \<not> renews x \<and> low tr xs"
  "low tr (xs @ ys) \<longleftrightarrow> low tr xs \<and> low tr ys"
  by (auto simp: low_def)

lemma low_said [simp]:
  "low tr (emits m s)" "low tr (slot_stop s)" "low tr (told_of_device d ch)"
  by (auto simp: low_def emits_def slot_stop_def told_of_device_def)

lemma set_status_silent:
  assumes "set_status st s = (s', xs, ks)"
  shows "low tr xs \<and> (\<forall>x\<in>set ks. silent tr x)"
  using set_status_form [OF assms] by (auto simp: silent_def)


text \<open>What a session that has left does: it sends nothing of its own accord and leaves nothing to be sent.\<close>

lemma left_course:
  assumes "se_ok w s" and "se_disposed s"
  shows "se_released s \<or> se_withdrawal s \<noteq> None" and "\<not> se_owner s" and "se_supervisor s = None" and "se_term s = None"
    and "se_stopping s = None" and "se_writes_failed s" and "se_election_stopped s"
    and "se_withdrawal s \<noteq> None \<or> se_status s = Status_Released" and "se_released s \<or> se_joined s"
    and "se_withdrawal s \<noteq> None \<or> se_released s"
proof -
  note f = assms [unfolded se_ok_def]
  show o: "\<not> se_owner s" and "se_stopping s = None" "se_writes_failed s" "se_election_stopped s"
    using f by blast+
  show sup: "se_supervisor s = None" using f o by blast
  have "se_term s = se_supervisor s" using f by blast
  then show "se_term s = None" using sup by simp
  have st: "se_stage s = Finished_Release \<or> se_withdrawal s \<noteq> None" using f by blast
  show "se_withdrawal s \<noteq> None \<or> se_status s = Status_Released" using f st by blast
  have "se_released s = (se_stage s \<noteq> Not_Releasing)" using f by blast
  then have fin: "se_released s" if "se_stage s = Finished_Release" using that by simp
  then show r: "se_released s \<or> se_withdrawal s \<noteq> None" and "se_withdrawal s \<noteq> None \<or> se_released s" using st by blast+
  show "se_released s \<or> se_joined s" using f r by blast
qed



definition hushed :: "entry list \<Rightarrow> performed \<Rightarrow> bool" where
  "hushed tr p \<longleftrightarrow> (case p of (s, xs, ks) \<Rightarrow> low tr xs \<and> (\<forall>x\<in>set ks. silent tr x) \<and> se_disposed s)"

lemma hushed_simps [simp]:
  "hushed tr (quiet s) = se_disposed s"
  "hushed tr (says xs s) \<longleftrightarrow> low tr xs \<and> se_disposed s"
  "hushed tr (preceded_by xs p) \<longleftrightarrow> low tr xs \<and> hushed tr p"
  "hushed tr (followed_by p ks) \<longleftrightarrow> (\<forall>x\<in>set ks. silent tr x) \<and> hushed tr p"
  "hushed tr (s, xs, ks) \<longleftrightarrow> low tr xs \<and> (\<forall>x\<in>set ks. silent tr x) \<and> se_disposed s"
  by (auto simp: hushed_def quiet_def says_def preceded_by_def followed_by_def split: prod.splits)

lemma set_status_hushed [simp]: "hushed tr (set_status st s) = se_disposed s"
proof -
  obtain s' xs ks where st: "set_status st s = (s', xs, ks)" by (cases "set_status st s")
  then show ?thesis using set_status_silent [OF st] set_status_keeps [OF st] by auto
qed





















section \<open>What the listeners can rely on\<close>

text \<open>What a listener has gathered from the events: the status, and whether deliveries were interrupted since
  the last one. An event that does not fit what it has gathered leaves it with nothing.\<close>

type_synonym view = "(status \<times> bool) option"

fun gathers :: "emission \<Rightarrow> status \<times> bool \<Rightarrow> view" where
  "gathers (On_Status_Change new old) (st, gap) =
     (if old = st \<and> new \<noteq> st then Some (new, gap \<or> new \<noteq> Status_Open) else None)"
| "gathers (On_Status_Told told) (st, gap) = (if told = st then Some (st, gap) else None)"
| "gathers (On_Receive b x after_gap) (st, gap) = (if after_gap = gap then Some (st, False) else None)"
| "gathers _ sg = Some sg"

fun views :: "entry \<Rightarrow> view \<Rightarrow> view" where
  "views (Spoke (Emitted m)) (Some sg) = gathers m sg"
| "views (Did Bus_Reconnected) (Some (st, gap)) = Some (st, True)"
| "views _ sg = sg"


definition own_view :: "session \<Rightarrow> status \<times> bool" where
  "own_view s = (se_status s, se_after_gap s)"

text \<open>The events of one task, from what the session holds before it to what it holds after it.\<close>

definition tells :: "session \<Rightarrow> performed \<Rightarrow> bool" where
  "tells s p \<longleftrightarrow> (case p of (s', xs, ks) \<Rightarrow> se_cleared s' = se_cleared s \<and>
     (if se_cleared s then (\<forall>m. Emitted m \<notin> set xs)
      else fold views (map Spoke xs) (Some (own_view s)) = Some (own_view s')))"




lemma tells_followed [simp]: "tells s (followed_by p ks) = tells s p"
  by (auto simp: tells_def followed_by_def split: prod.splits)








lemma no_emissions [simp]:
  "Emitted m \<notin> set (slot_stop s)" "Emitted m \<notin> set (told_of_device d ch)" "Emitted m \<notin> set (broadcast_status st s)"
  "Emitted m \<notin> set (request_status b s)"
  by (auto simp: slot_stop_def told_of_device_def broadcast_status_def request_status_def split: option.splits)













definition holds_nothing :: "session \<Rightarrow> bool" where
  "holds_nothing s \<longleftrightarrow> se_supervisor s = None \<and> se_term s = None \<and> \<not> se_owner s \<and> se_writes_failed s \<and>
     se_election_stopped s"

text \<open>
  A session that has left for good holds nothing of the port - neither a supervisor nor a term nor the
  ownership - every write has failed, and its status is \<open>released\<close>, or \<open>failed\<close> while the release is still to come.
\<close>

lemma left_session_holds_nothing:
  "let s = rn_session (fold (rn_step v) hs (rn_init c now)) in
     if se_disposed s
     then holds_nothing s \<and>
       (if se_stage s = Finished_Release then se_status s = Status_Released
        else if se_released s then True else se_status s = Status_Failed)
     else se_stage s \<noteq> Finished_Release"
proof -
  obtain w where ok: "se_ok w (rn_session (fold (rn_step v) hs (rn_init c now)))"
    using run_ok_run [of v hs c now] by (auto simp: run_ok_def)
  show ?thesis using ok left_course [OF ok] unfolding se_ok_def by (simp add: Let_def holds_nothing_def)
qed

section \<open>A release can always be completed\<close>

definition weight :: "task \<Rightarrow> nat" where
  "weight k = (if withdraws k then 2 else if is_rest k then 1 else 4)"

definition weights :: "task list \<Rightarrow> nat" where
  "weights ks = sum_list (map weight ks)"

lemma weights_simps [simp]:
  "weights [] = 0" "weights (k # ks) = weight k + weights ks" "weights (ks @ ks') = weights ks + weights ks'"
  by (simp_all add: weights_def)

definition light :: "nat \<Rightarrow> performed \<Rightarrow> bool" where
  "light n p \<longleftrightarrow> weights (snd (snd p)) \<le> n"

lemma light_simps [simp]:
  "light n (quiet s)" "light n (says xs s)" "light n (preceded_by ys p) = light n p"
  "light n (s, xs, ks) \<longleftrightarrow> weights ks \<le> n"
  by (auto simp: light_def quiet_def says_def preceded_by_def split: prod.splits)

lemma light_followed: "light m p \<Longrightarrow> m + weights ks \<le> n \<Longrightarrow> light n (followed_by p ks)"
  by (auto simp: light_def followed_by_def split: prod.splits)

lemma set_status_light: "light 1 (set_status st s)"
  by (auto simp: set_status_def weight_def Let_def)

lemma light_more: "light m p \<Longrightarrow> m \<le> n \<Longrightarrow> light n p"
  by (auto simp: light_def)

lemma emit_error_light: "light 1 (emit_error e b s)"
  by (auto simp: emit_error_def weight_def Let_def)

lemma emit_error_alone: "light 0 (emit_error e False s)"
  by (auto simp: emit_error_def Let_def)

lemma join_light: "light 2 (join_bus s)"
  using set_status_light by (auto simp: join_bus_def Let_def weight_def intro!: light_followed [of 1])

lemma answer_status_light: "light 0 (answer_status now s)"
  by (auto simp: answer_status_def split: prod.splits bool.splits)

lemma apply_status_light: "light 2 (apply_status v st tabs d s)"
  using set_status_light [THEN light_more] emit_error_alone
  by (auto simp: apply_status_def withdraw_def Let_def weight_def intro!: light_followed [of 0] split: option.splits prod.splits)

lemma believe_light: "light 2 (believe v c m a now s)"
  using apply_status_light answer_status_light [THEN light_more] emit_error_light [THEN light_more]
  by (cases m) (auto simp: status_requested_def weight_def split: option.splits prod.splits)

lemma stop_being_owner_light: "light 0 (stop_being_owner s)"
  by (auto simp: stop_being_owner_def Let_def split: option.splits)

lemma perform_light:
  shows "light (weight k - 1) (perform v k s)"
proof (cases k)
  case Call_Start
  then show ?thesis using join_light [THEN light_more] set_status_light
    by (auto simp: start_session_def weight_def intro!: light_followed [of 1])
next
  case (Withdraw_Rest e)
  then show ?thesis using set_status_light by (simp add: withdraw_rest_def weight_def)
next
  case Election_Over
  then show ?thesis using set_status_light
    by (auto simp: finish_release_def Let_def weight_def intro!: light_followed [of 1])
next
  case (Picked again result)
  then show ?thesis
    by (auto simp: picked_def weight_def split: sum.splits option.splits device_filter.splits prod.splits)
qed (auto simp: believe_light [THEN light_more] join_light [THEN light_more] answer_status_light [THEN light_more] hear_def answer_timer_def
  send_write_def dispatch_write_def write_done_def release_def start_term_def term_over_def say_goodbye_def
  request_access_def pick_done_def weight_def Let_def stop_being_owner_light [THEN light_more] set_status_light [THEN light_more]
  emit_error_light [THEN light_more] split: option.splits prod.splits)

text \<open>Left alone, the stack empties.\<close>

lemma drains: "\<exists>n. rn_stack (fold (rn_step v) (replicate n (Goes_On [])) r) = []"
proof (induction "weights (rn_stack r)" arbitrary: r rule: less_induct)
  case less
  show ?case
  proof (cases "rn_stack r")
    case Nil
    then show ?thesis by (intro exI [of _ 0]) simp
  next
    case (Cons k rest)
    let ?r = "rn_step v (Goes_On []) r"
    have "weight k > 0" by (simp add: weight_def)
    moreover have "weights (snd (snd (perform v k (rn_session r)))) \<le> weight k - 1"
      using perform_light by (simp add: light_def)
    ultimately have "weights (rn_stack ?r) < weights (rn_stack r)"
      using Cons by (cases "perform v k (rn_session r)") (auto simp: do_task_def)
    from less [OF this] obtain n where "rn_stack (fold (rn_step v) (replicate n (Goes_On [])) ?r) = []" ..
    then show ?thesis by (intro exI [of _ "Suc n"]) simp
  qed
qed

definition reached :: "session_env \<Rightarrow> running \<Rightarrow> running \<Rightarrow> bool" where
  "reached v r r' \<longleftrightarrow> (\<exists>hs. r' = fold (rn_step v) hs r)"

lemma reached_refl: "reached v r r"
  unfolding reached_def by (intro exI [of _ "[]"]) simp

lemma reached_trans:
  assumes "reached v r r'" and "reached v r' r''"
  shows "reached v r r''"
proof -
  obtain hs hs' where "r' = fold (rn_step v) hs r" "r'' = fold (rn_step v) hs' r'"
    using assms by (auto simp: reached_def)
  then show ?thesis unfolding reached_def by (intro exI [of _ "hs @ hs'"]) simp
qed

text \<open>One arrival on an empty stack, and what is left to do after it.\<close>

lemma arrival:
  assumes "rn_stack r = []" and "\<not> is_rest k" and "k \<noteq> Call_Start" and "promised k (rn_session r)" and "in_course k (rn_trace r)"
    and "perform v k (rn_session r) = (s, xs, ks)"
  obtains r' where "reached v r r'" "rn_session r' = s" "rn_stack r' = ks"
proof -
  let ?r = "\<lparr>rn_session = s, rn_stack = ks, rn_trace = rn_trace r @ [Did k] @ map Spoke xs\<rparr>"
  have "?r = fold (rn_step v) [Arrives k, Goes_On []] r" using assms by (simp add: do_task_def)
  then have "reached v r ?r" unfolding reached_def by blast
  then show ?thesis using that [of ?r] by simp
qed

definition resting :: "session_env \<Rightarrow> configuration \<Rightarrow> millis \<Rightarrow> running \<Rightarrow> bool" where
  "resting v c now r \<longleftrightarrow> reached v (rn_init c now) r \<and> rn_stack r = []"

lemma resting_ok:
  assumes "resting v c now r"
  shows "se_ok False (rn_session r)"
proof -
  have "run_ok r" using assms run_ok_run by (auto simp: resting_def reached_def)
  then show ?thesis using assms by (simp add: run_ok_def resting_def)
qed

lemma resting_arrival:
  assumes "resting v c now r" and "\<not> is_rest k" and "k \<noteq> Call_Start" and "promised k (rn_session r)" and "in_course k (rn_trace r)"
    and "perform v k (rn_session r) = (s, xs, [])"
  obtains r' where "resting v c now r'" "reached v r r'" "rn_session r' = s"
proof -
  obtain r' where r': "reached v r r'" "rn_session r' = s" "rn_stack r' = []"
    using arrival [OF _ assms(2-6)] assms(1) by (auto simp: resting_def)
  then have "resting v c now r'" using assms(1) reached_trans by (auto simp: resting_def)
  then show ?thesis using that r' by blast
qed

lemma releases:
  assumes "resting v c now r"
  obtains r' where "resting v c now r'" "reached v r r'" "se_released (rn_session r')"
proof (cases "se_released (rn_session r)")
  case True
  then show ?thesis using that reached_refl assms by blast
next
  case False
  obtain s xs ks where p: "perform v Call_Release (rn_session r) = (s, xs, ks)" by (metis prod_cases3)
  have s: "se_released s" "ks = []"
    using p False by (auto simp: release_def stop_being_owner_def preceded_by_def quiet_def says_def Let_def split: if_splits option.splits)
  have "perform v Call_Release (rn_session r) = (s, xs, [])" using p s(2) by simp
  then obtain r' where "resting v c now r'" "reached v r r'" "rn_session r' = s"
    by (rule resting_arrival [OF assms, rotated 4]) (simp_all add: in_course.simps)
  then show ?thesis using that s(1) by blast
qed

lemma supervisor_stops:
  assumes "resting v c now r" and "se_released (rn_session r)"
  obtains r' where "resting v c now r'" "reached v r r'" "se_released (rn_session r')" "se_stopping (rn_session r') = None"
proof (cases "se_stopping (rn_session r)")
  case None
  then show ?thesis using that reached_refl assms by blast
next
  case (Some t)
  let ?s = "(rn_session r)\<lparr>se_stopping := None, se_election_stopped := True\<rparr>"
  have "perform v (Supervisor_Stopped t) (rn_session r) =
      (?s, [Queue_Goodbye t, Sent To_All (Bm_Released t), Election_Stop, End_Own_Term t], [])"
    by (simp add: say_goodbye_def says_def)
  then obtain r' where "resting v c now r'" "reached v r r'" "rn_session r' = ?s"
    by (rule resting_arrival [OF assms(1), rotated 4]) (simp_all add: in_course.simps Some)
  then show ?thesis using that assms(2) by simp
qed

lemma election_stops:
  assumes "resting v c now r" and "se_released (rn_session r)" and "se_stopping (rn_session r) = None"
  obtains r' where "resting v c now r'" "reached v r r'" "se_stage (rn_session r') \<in> {Awaiting_Election, Finished_Release}"
proof (cases "se_stage (rn_session r) = Awaiting_Stop")
  case False
  then have "se_stage (rn_session r) \<in> {Awaiting_Election, Finished_Release}"
    using resting_ok [OF assms(1)] assms(2) unfolding se_ok_def by (cases "se_stage (rn_session r)") auto
  then show ?thesis using that reached_refl assms(1) by blast
next
  case True
  let ?s = "(rn_session r)\<lparr>se_stage := Awaiting_Election, se_election_stopped := True\<rparr>"
  have "perform v Stop_Awaited (rn_session r) = (?s, [Election_Stop], [])"
    using True assms(3) by (simp add: says_def)
  then obtain r' where "resting v c now r'" "reached v r r'" "rn_session r' = ?s"
    by (rule resting_arrival [OF assms(1), rotated 4]) (simp_all add: in_course.simps)
  then show ?thesis using that by simp
qed

lemma ownership_goes:
  assumes "resting v c now r" and "se_stage (rn_session r) \<in> {Awaiting_Election, Finished_Release}"
  obtains r' where "resting v c now r'" "reached v r r'" "se_stage (rn_session r') \<in> {Awaiting_Election, Finished_Release}"
    "\<not> se_owner (rn_session r')"
proof (cases "se_owner (rn_session r)")
  case False
  then show ?thesis using that reached_refl assms by blast
next
  case True
  note ok = resting_ok [OF assms(1)]
  have f: "se_released (rn_session r)" "se_election_stopped (rn_session r)"
    using ok assms(2) True unfolding se_ok_def by auto
  then have "se_supervisor (rn_session r) = None" using ok unfolding se_ok_def by blast
  let ?s = "(rn_session r)\<lparr>se_owner := False, se_supervisor := None, se_term := None\<rparr>"
  have "perform v Ownership_Lost (rn_session r) = (?s, [], [])"
    using \<open>se_supervisor (rn_session r) = None\<close> by (simp add: stop_being_owner_def quiet_def Let_def)
  then obtain r' where "resting v c now r'" "reached v r r'" "rn_session r' = ?s"
    by (rule resting_arrival [OF assms(1), rotated 4]) (use True f in \<open>simp_all add: in_course.simps\<close>)
  then show ?thesis using that assms(2) by simp
qed

lemma election_ends:
  assumes "resting v c now r" and "se_stage (rn_session r) \<in> {Awaiting_Election, Finished_Release}" and "\<not> se_owner (rn_session r)"
  obtains r' where "reached v r r'" "se_stage (rn_session r') = Finished_Release"
proof (cases "se_stage (rn_session r) = Finished_Release")
  case True
  then show ?thesis using that reached_refl by blast
next
  case False
  then have st: "se_stage (rn_session r) = Awaiting_Election" using assms(2) by simp
  have rel: "se_released (rn_session r)" using resting_ok [OF assms(1)] st unfolding se_ok_def by simp
  obtain s xs ks where p: "finish_release (rn_session r) = (s, xs, ks)" by (metis prod_cases3)
  have s: "se_stage s = Finished_Release" unfolding finish_release_form(1) [OF p rel] by simp
  have "perform v Election_Over (rn_session r) = (s, xs, ks)" using p st by simp
  moreover have "rn_stack r = []" using assms(1) by (simp add: resting_def)
  ultimately obtain r' where "reached v r r'" "rn_session r' = s"
    using arrival [of r Election_Over v s xs ks] assms(3) by (auto simp: in_course.simps)
  then show ?thesis using that s by blast
qed

text \<open>
  C16. A release can always be completed: whatever has happened, and wherever the program stands, there is a
  continuation - the application releases, and the collaborators answer what they were asked - that
  leaves the configuration. No state is a dead end.
\<close>

theorem release_can_complete:
  "\<exists>hs'. se_stage (rn_session (fold (rn_step v) (hs @ hs') (rn_init c now))) = Finished_Release"
proof -
  let ?r = "fold (rn_step v) hs (rn_init c now)"
  have start: "reached v (rn_init c now) ?r" unfolding reached_def by blast
  obtain r0 where r0': "reached v ?r r0" "rn_stack r0 = []" using drains unfolding reached_def by blast
  then have r0: "resting v c now r0" "reached v ?r r0"
    using reached_trans [OF start] by (simp_all add: resting_def)
  obtain r1 where r1: "resting v c now r1" "reached v r0 r1" "se_released (rn_session r1)" by (rule releases [OF r0(1)])
  obtain r2 where r2: "resting v c now r2" "reached v r1 r2" "se_released (rn_session r2)" "se_stopping (rn_session r2) = None"
    by (rule supervisor_stops [OF r1(1,3)])
  obtain r3 where r3: "resting v c now r3" "reached v r2 r3" "se_stage (rn_session r3) \<in> {Awaiting_Election, Finished_Release}"
    by (rule election_stops [OF r2(1,3,4)])
  obtain r4 where r4: "resting v c now r4" "reached v r3 r4" "se_stage (rn_session r4) \<in> {Awaiting_Election, Finished_Release}"
    "\<not> se_owner (rn_session r4)" by (rule ownership_goes [OF r3(1,3)])
  obtain r5 where r5: "reached v r4 r5" "se_stage (rn_session r5) = Finished_Release" by (rule election_ends [OF r4(1,3,4)])
  have "reached v ?r r5"
    using reached_trans [OF r0(2)] reached_trans [OF r1(2)] reached_trans [OF r2(2)] reached_trans [OF r3(2)]
      reached_trans [OF r4(2) r5(1)] by blast
  then show ?thesis using r5(2) by (auto simp: reached_def)
qed

section \<open>Late words on concrete runs\<close>

definition any_device :: "encoding_settings \<Rightarrow> receive_settings \<Rightarrow> configuration" where
  "any_device e r = \<lparr>nc_name = js ''scale'', nc_device = Explicit Any_Device,
     nc_serial = \<lparr>ss_baud_rate = 9600, ss_data_bits = 8, ss_stop_bits = 1, ss_parity = js ''none'',
       ss_buffer_size = 255, ss_flow_control = js ''none''\<rparr>,
     nc_connection = default_connection, nc_encoding = e, nc_receive = r, nc_remember = False, nc_max_tabs = Unlimited\<rparr>"

definition settling :: "task list \<Rightarrow> happening list" where
  "settling ks = Goes_On [] # Goes_On [] # concat (map (\<lambda>k. [Arrives k, Goes_On [], Goes_On [], Goes_On []]) ks)"

definition course :: "task list \<Rightarrow> entry list" where
  "course ks = rn_trace (fold (rn_step \<lparr>se_client = ''me'', se_name = ''scale''\<rparr>) (settling ks)
     (rn_init (any_device default_encoding default_receive) 0))"

lemmas course_defs = course_def settling_def any_device_def rn_init_def se_init_def do_task_def start_session_def has_slot_def
  join_bus_def status_defs picked_def pick_done_def apply_status_def withdraw_def withdraw_rest_def start_term_def
  release_def stop_being_owner_def say_goodbye_def write_done_def stays_failed_def Let_def

definition hanging_write :: "task list" where
  "hanging_write = [Term_Acquired ''t'', Believed ''other'' (Bm_Write_Request ''w'' [7] ''t'') False 0, Call_Release,
     Supervisor_Stopped ''t'', Write_Done ''t'' ''other'' ''w'' [7] None]"

text \<open>A write that hangs longer than the supervisor waits for it is answered after its term's release.\<close>

lemma answered_after_release:
  "course_of ''t'' (course hanging_write) = (Over, [(''other'', ''w'')]) \<and>
   dropWhile (\<lambda>e. e \<noteq> Spoke (Sent To_All (Bm_Released ''t''))) (course hanging_write) =
     [Spoke (Sent To_All (Bm_Released ''t'')), Spoke Election_Stop, Spoke (End_Own_Term ''t''),
      Did (Write_Done ''t'' ''other'' ''w'' [7] None), Spoke (Sent (To_One ''other'') (Bm_Write_Result ''w'' None (Some ''t''))),
      Spoke (Emitted (On_Send [7] False)), Did (Say [Sent To_All (Bm_Data_Sent [7] ''other'')]),
      Spoke (Sent To_All (Bm_Data_Sent [7] ''other''))]"
  by (simp add: course_defs hanging_write_def course_of_def unanswered_def terms_held_def)

text \<open>A withdrawal that falls between the picking of a port and what follows its \<open>await\<close>.\<close>

lemma asks_after_withdrawing:
  "filter (\<lambda>e. \<exists>c m. e = Spoke (Sent c m)) (after_leaving (course
     [Picked False (Inr \<lparr>pi_vendor = None, pi_product = None\<rparr>),
      Believed ''other'' (Bm_Status Status_Open (Limit 1) Device_Any ''u'') False 0, Pick_Done False])) =
   [Spoke (Sent To_All (Bm_Status_Request True None))]"
  by (simp add: course_defs after_leaving_def picks_open_def)

end
