(* ===== verification/Transports.thy ===== *)
theory Transports
  imports Broker
begin

text \<open>
  A context's connection to the bus (\<open>client/transport/shared-worker-transport.ts\<close>,
  \<open>fallback-transport.ts\<close>, \<open>broadcast-channel-transport.ts\<close>, and the choice between them in
  \<open>environment/browser.ts\<close>): the transport to the worker with its handshake and its restarts, the channel
  it can move to, and the fallback that moves it.

  The application's callbacks run in the middle of the transport's functions and may call back into it,
  so a function is a stack of tasks: what it does up to the point where it calls out, and what follows.
  At every step calls from outside may come first; what arrives by itself waits until the stack is empty.
  Ports are numbered as they are opened. Whether building what an event asks for works - a new worker,
  the channel - is an argument of the event. A watch that is stopped is one that is never granted
  (theory \<open>Held_Lock\<close>); log records are left out.
\<close>

section \<open>The transports\<close>

datatype phase = Starting | Ready | Restarting | Other_Version

datatype load_failure = Script_Failed | Other_Protocol | Not_Answering

record worker_transport =
  wt_attached :: "js_string list"
  wt_phase :: phase
  wt_unsent :: "message list option"
  wt_port :: nat
  wt_opened :: nat
  wt_deadline :: bool
  wt_watch :: "(nat \<times> nat) option"
  wt_watches :: nat
  wt_disposed :: bool

record channel_transport =
  ch_attached :: "js_string list"
  ch_disposed :: bool

text \<open>\<open>bu_fallback\<close>: the transport to the worker is the one a \<open>FallbackTransport\<close> made, which can still move;
  \<open>bu_channel\<close> is where it moved to.\<close>

record bus =
  bu_worker :: worker_transport
  bu_fallback :: bool
  bu_attached :: "js_string list"
  bu_settled :: bool
  bu_closed :: bool
  bu_channel :: "channel_transport option"

record bus_env =
  be_client :: js_string
  be_clones :: "message \<Rightarrow> bool"

datatype via = Via_Port nat | Via_Channel

datatype bus_out =
    Posted nat message
  | Channel_Posted message
  | Port_Opened nat
  | Port_Closed nat
  | Channel_Opened
  | Channel_Closed
  | Delivered via message
  | Undecodable via decode_failure
  | Bus_Failed bool
  | Ready_Told
  | Reconnected
  | Record_Logged message
  | Limit_Warned
  | Watch_Started nat js_string
  | Watch_Stopped nat
  | Fell_Back load_failure

datatype bus_task =
    Call_Send message
  | Call_Attach js_string
  | Call_Detach js_string
  | Call_Close
  | Context_Lock_Over
  | Port_Message nat wire_heap wire bool
  | Port_Garbled nat
  | Worker_Error nat bool
  | Deadline_Fires bool
  | Watch_Granted nat bool
  | Channel_Message wire_heap wire
  | Channel_Garbled
  | Post_All "message list"
  | Reconnect bool
  | Version_Seen bool
  | Give_Up_Version
  | Fall_Back load_failure bool

type_synonym bus_result = "bus \<times> bus_out list \<times> bus_task list"

fun is_hello :: "message \<Rightarrow> bool" where
  "is_hello m = (case msg_body m of M_Hello ns \<Rightarrow> True | _ \<Rightarrow> False)"

section \<open>The transport to the worker\<close>

definition wt_init :: worker_transport where
  "wt_init = \<lparr>wt_attached = [], wt_phase = Starting, wt_unsent = Some [], wt_port = 0, wt_opened = 1,
     wt_deadline = True, wt_watch = None, wt_watches = 0, wt_disposed = False\<rparr>"

definition hello_of :: "bus_env \<Rightarrow> js_string list \<Rightarrow> message" where
  "hello_of v ns = \<lparr>msg_from = be_client v, msg_to = js ''all'', msg_body = M_Hello ns\<rparr>"

text \<open>A payload that cannot be cloned is reported, never thrown; a \<open>hello\<close> is strings only.\<close>

definition wt_send :: "bus_env \<Rightarrow> message \<Rightarrow> worker_transport \<Rightarrow> worker_transport \<times> bus_out list" where
  "wt_send v m w =
     (if wt_disposed w then (w, [])
      else case wt_unsent w of
        Some ms \<Rightarrow> (w\<lparr>wt_unsent := Some (ms @ [m])\<rparr>, [])
      | None \<Rightarrow> (w, if is_hello m \<or> be_clones v m then [Posted (wt_port w) m] else [Bus_Failed False]))"

definition wt_say_hello :: "bus_env \<Rightarrow> worker_transport \<Rightarrow> worker_transport \<times> bus_out list" where
  "wt_say_hello v w = wt_send v (hello_of v (wt_attached w)) w"

definition wt_attach :: "bus_env \<Rightarrow> js_string \<Rightarrow> worker_transport \<Rightarrow> worker_transport \<times> bus_out list" where
  "wt_attach v n w = wt_say_hello v (w\<lparr>wt_attached := js_add n (wt_attached w)\<rparr>)"

definition wt_detach :: "bus_env \<Rightarrow> js_string \<Rightarrow> worker_transport \<Rightarrow> worker_transport \<times> bus_out list" where
  "wt_detach v n w = wt_say_hello v (w\<lparr>wt_attached := js_remove n (wt_attached w)\<rparr>)"

text \<open>The context's own lock is held, or could not be taken.\<close>

definition wt_say_hello_first :: "bus_env \<Rightarrow> worker_transport \<Rightarrow> worker_transport \<times> bus_out list \<times> bus_task list" where
  "wt_say_hello_first v w = (case wt_unsent w of
     None \<Rightarrow> (w, [], [])
   | Some ms \<Rightarrow> (case wt_say_hello v (w\<lparr>wt_unsent := None\<rparr>) of (w', xs) \<Rightarrow>
       (w', xs, [Post_All (filter (\<lambda>m. \<not> is_hello m) ms)])))"

definition stopped_watch :: "worker_transport \<Rightarrow> bus_out list" where
  "stopped_watch w = (case wt_watch w of None \<Rightarrow> [] | Some (i, p) \<Rightarrow> [Watch_Stopped i])"

definition wt_close :: "worker_transport \<Rightarrow> worker_transport \<times> bus_out list" where
  "wt_close w =
     (if wt_disposed w then (w, [])
      else (w\<lparr>wt_disposed := True, wt_watch := None, wt_deadline := False\<rparr>, stopped_watch w @ [Port_Closed (wt_port w)]))"

text \<open>\<open>#reconnect\<close>: \<open>ok\<close> tells whether a new worker could be started.\<close>

definition wt_reconnect :: "bus_env \<Rightarrow> bool \<Rightarrow> worker_transport \<Rightarrow> worker_transport \<times> bus_out list" where
  "wt_reconnect v ok w =
     (if wt_disposed w then (w, [])
      else (let xs = stopped_watch w @ [Port_Closed (wt_port w)];
                w' = w\<lparr>wt_watch := None, wt_deadline := True\<rparr>
            in if \<not> ok then (w', xs)
               else (case wt_say_hello v (w'\<lparr>wt_port := wt_opened w, wt_opened := Suc (wt_opened w)\<rparr>) of (w'', ys) \<Rightarrow>
                 (w'', xs @ [Port_Opened (wt_opened w)] @ ys))))"

definition wt_report_loss :: "bool \<Rightarrow> worker_transport \<Rightarrow> worker_transport \<times> bus_out list \<times> bus_task list" where
  "wt_report_loss ok w = (w\<lparr>wt_phase := Restarting\<rparr>, [Bus_Failed True], [Reconnect ok])"

definition wt_handshake_missed :: "bus_env \<Rightarrow> bool \<Rightarrow> bool \<Rightarrow> worker_transport \<Rightarrow> worker_transport \<times> bus_out list \<times> bus_task list" where
  "wt_handshake_missed v startup ok w =
     (if \<not> wt_deadline w then (w, [], [])
      else (let w' = w\<lparr>wt_deadline := False\<rparr> in
        if wt_disposed w \<or> wt_phase w = Ready \<or> wt_phase w = Other_Version then (w', [], [])
        else if wt_phase w = Starting \<and> startup then (w', [], [Fall_Back Not_Answering ok])
        else if wt_phase w = Starting then wt_report_loss ok w'
        else (case wt_reconnect v ok w' of (w'', xs) \<Rightarrow> (w'', xs, []))))"

definition wt_watch_granted :: "nat \<Rightarrow> bool \<Rightarrow> worker_transport \<Rightarrow> worker_transport \<times> bus_out list \<times> bus_task list" where
  "wt_watch_granted i ok w =
     (if \<not> wt_disposed w \<and> wt_watch w = Some (i, wt_port w) then wt_report_loss ok w else (w, [], []))"

definition wt_worker_error :: "bool \<Rightarrow> nat \<Rightarrow> bool \<Rightarrow> worker_transport \<Rightarrow> worker_transport \<times> bus_out list \<times> bus_task list" where
  "wt_worker_error startup p ok w =
     (if wt_disposed w \<or> wt_port w \<noteq> p \<or> wt_phase w = Other_Version \<or> wt_phase w = Restarting then (w, [], [])
      else if wt_phase w = Starting \<and> startup then (w, [], [Fall_Back Script_Failed ok])
      else (w, [Bus_Failed False], []))"

text \<open>\<open>#welcomed\<close>; whether the handshake settles the fallback is said beside the rest.\<close>

definition wt_welcomed :: "bool \<Rightarrow> message \<Rightarrow> js_string \<Rightarrow> worker_transport \<Rightarrow> worker_transport \<times> bus_out list \<times> bool" where
  "wt_welcomed startup m worker w =
     (if wt_phase w = Ready \<or> wt_phase w = Other_Version \<or> msg_from m \<noteq> broker_id then (w, [], False)
      else (w\<lparr>wt_phase := Ready, wt_deadline := False, wt_watch := Some (wt_watches w, wt_port w), wt_watches := Suc (wt_watches w)\<rparr>,
            Watch_Started (wt_watches w) worker #
              (if wt_phase w = Restarting then [Reconnected] else if startup then [Ready_Told] else []),
            wt_phase w \<noteq> Restarting \<and> startup))"

text \<open>\<open>#workerRunsOtherVersion\<close>, with what follows the report of a failed load.\<close>

definition wt_give_up_version :: "worker_transport \<Rightarrow> worker_transport \<times> bus_out list" where
  "wt_give_up_version w =
     (if wt_disposed w then (w, [])
      else (w\<lparr>wt_phase := Other_Version, wt_deadline := False, wt_watch := None\<rparr>, stopped_watch w @ [Port_Closed (wt_port w)]))"

definition wt_version_seen :: "bool \<Rightarrow> bool \<Rightarrow> worker_transport \<Rightarrow> worker_transport \<times> bus_out list \<times> bus_task list" where
  "wt_version_seen startup ok w =
     (if wt_disposed w \<or> wt_phase w = Other_Version then (w, [], [])
      else if wt_phase w = Starting \<and> startup then (w, [], [Fall_Back Other_Protocol ok, Give_Up_Version])
      else (case wt_give_up_version w of (w', xs) \<Rightarrow> (w', xs, [])))"

section \<open>The channel\<close>

definition ch_send :: "bus_env \<Rightarrow> message \<Rightarrow> channel_transport \<Rightarrow> bus_out list" where
  "ch_send v m c = (if ch_disposed c then [] else if be_clones v m then [Channel_Posted m] else [Bus_Failed False])"

fun for_brokers :: "message_body \<Rightarrow> bool" where
  "for_brokers (M_Hello ns) = True"
| "for_brokers (M_Welcome w) = True"
| "for_brokers (M_Worker_Log l t fs) = True"
| "for_brokers _ = False"

definition addressed_to :: "js_string \<Rightarrow> js_string list \<Rightarrow> message \<Rightarrow> bool" where
  "addressed_to me attached m =
     (if msg_to m \<noteq> js ''all'' then msg_to m = me
      else (case config_name_of (msg_body m) of None \<Rightarrow> True | Some n \<Rightarrow> n \<in> set attached))"

definition ch_receive :: "bus_env \<Rightarrow> wire_heap \<Rightarrow> wire \<Rightarrow> channel_transport \<Rightarrow> bus_out list" where
  "ch_receive v h raw c = (case decode_message h raw of
     Inl (Limit_Exceeded t f l) \<Rightarrow> [Limit_Warned]
   | Inl f \<Rightarrow> [Undecodable Via_Channel f]
   | Inr m \<Rightarrow> if for_brokers (msg_body m) \<or> msg_from m = be_client v \<or> \<not> addressed_to (be_client v) (ch_attached c) m
              then [] else [Delivered Via_Channel m])"

definition ch_close :: "channel_transport \<Rightarrow> channel_transport \<times> bus_out list" where
  "ch_close c = (if ch_disposed c then (c, []) else (c\<lparr>ch_attached := [], ch_disposed := True\<rparr>, [Channel_Closed]))"

section \<open>The bus of a context\<close>

definition bus_init :: "bool \<Rightarrow> bus" where
  "bus_init fallback = \<lparr>bu_worker = wt_init, bu_fallback = fallback, bu_attached = [], bu_settled = False,
     bu_closed = False, bu_channel = None\<rparr>"

text \<open>What the worker's transport does, as a step of the bus.\<close>

definition by_worker :: "bus \<Rightarrow> worker_transport \<times> bus_out list \<Rightarrow> bus_result" where
  "by_worker b r = (case r of (w, xs) \<Rightarrow> (b\<lparr>bu_worker := w\<rparr>, xs, []))"

definition by_worker_tasks :: "bus \<Rightarrow> worker_transport \<times> bus_out list \<times> bus_task list \<Rightarrow> bus_result" where
  "by_worker_tasks b r = (case r of (w, xs, ks) \<Rightarrow> (b\<lparr>bu_worker := w\<rparr>, xs, ks))"

definition remember :: "(js_string list \<Rightarrow> js_string list) \<Rightarrow> bus \<Rightarrow> bus" where
  "remember f b = (if bu_fallback b then b\<lparr>bu_attached := f (bu_attached b)\<rparr> else b)"

definition bus_send :: "bus_env \<Rightarrow> message \<Rightarrow> bus \<Rightarrow> bus_result" where
  "bus_send v m b = (case bu_channel b of
     Some c \<Rightarrow> (b, ch_send v m c, [])
   | None \<Rightarrow> by_worker b (wt_send v m (bu_worker b)))"

definition bus_attach :: "bus_env \<Rightarrow> js_string \<Rightarrow> bus \<Rightarrow> bus_result" where
  "bus_attach v n b = (let b' = remember (js_add n) b in
     case bu_channel b of
       Some c \<Rightarrow> (b'\<lparr>bu_channel := Some (c\<lparr>ch_attached := js_add n (ch_attached c)\<rparr>)\<rparr>, [], [])
     | None \<Rightarrow> by_worker b' (wt_attach v n (bu_worker b)))"

definition bus_detach :: "bus_env \<Rightarrow> js_string \<Rightarrow> bus \<Rightarrow> bus_result" where
  "bus_detach v n b = (let b' = remember (js_remove n) b in
     case bu_channel b of
       Some c \<Rightarrow> (b'\<lparr>bu_channel := Some (c\<lparr>ch_attached := js_remove n (ch_attached c)\<rparr>)\<rparr>, [], [])
     | None \<Rightarrow> by_worker b' (wt_detach v n (bu_worker b)))"

definition bus_close :: "bus \<Rightarrow> bus_result" where
  "bus_close b = (let b' = (if bu_fallback b then b\<lparr>bu_closed := True\<rparr> else b) in
     case bu_channel b of
       Some c \<Rightarrow> (case ch_close c of (c', xs) \<Rightarrow> (b'\<lparr>bu_channel := Some c'\<rparr>, xs, []))
     | None \<Rightarrow> by_worker b' (wt_close (bu_worker b)))"

text \<open>\<open>FallbackTransport.#fallBack\<close>: \<open>ok\<close> tells whether the channel could be built.\<close>

definition fall_back :: "load_failure \<Rightarrow> bool \<Rightarrow> bus \<Rightarrow> bus_result" where
  "fall_back reason ok b =
     (if bu_closed b then (b, [], [])
      else if bu_settled b \<or> \<not> ok then (b, [Bus_Failed False], [])
      else (case wt_close (bu_worker b) of (w, xs) \<Rightarrow>
        (b\<lparr>bu_settled := True, bu_worker := w,
           bu_channel := Some \<lparr>ch_attached = fold js_add (bu_attached b) [], ch_disposed = False\<rparr>\<rparr>,
         Channel_Opened # xs @ [Fell_Back reason, Reconnected], [])))"

definition port_message :: "bus_env \<Rightarrow> nat \<Rightarrow> wire_heap \<Rightarrow> wire \<Rightarrow> bool \<Rightarrow> bus \<Rightarrow> bus_result" where
  "port_message v p h raw ok b =
     (if wt_disposed (bu_worker b) \<or> wt_port (bu_worker b) \<noteq> p then (b, [], [])
      else case decode_message h raw of
        Inl (Limit_Exceeded t f l) \<Rightarrow> (b, [Limit_Warned], [])
      | Inl (Version_Mismatch t) \<Rightarrow> (b, [Undecodable (Via_Port p) (Version_Mismatch t)], [Version_Seen ok])
      | Inl f \<Rightarrow> (b, [Undecodable (Via_Port p) f], [])
      | Inr m \<Rightarrow> (case msg_body m of
            M_Welcome worker \<Rightarrow> (case wt_welcomed (bu_fallback b) m worker (bu_worker b) of (w, xs, settles) \<Rightarrow>
              (b\<lparr>bu_worker := w, bu_settled := (bu_settled b \<or> settles)\<rparr>, xs, []))
          | M_Worker_Log l t fs \<Rightarrow> (b, if msg_from m = broker_id then [Record_Logged m] else [], [])
          | _ \<Rightarrow> (b, if msg_from m = be_client v then [] else [Delivered (Via_Port p) m], [])))"

fun bus_perform :: "bus_env \<Rightarrow> bus_task \<Rightarrow> bus \<Rightarrow> bus_result" where
  "bus_perform v (Call_Send m) b = bus_send v m b"
| "bus_perform v (Call_Attach n) b = bus_attach v n b"
| "bus_perform v (Call_Detach n) b = bus_detach v n b"
| "bus_perform v Call_Close b = bus_close b"
| "bus_perform v Context_Lock_Over b = by_worker_tasks b (wt_say_hello_first v (bu_worker b))"
| "bus_perform v (Port_Message p h raw ok) b = port_message v p h raw ok b"
| "bus_perform v (Port_Garbled p) b =
     (b, if wt_disposed (bu_worker b) \<or> wt_port (bu_worker b) \<noteq> p then [] else [Bus_Failed False], [])"
| "bus_perform v (Worker_Error p ok) b = by_worker_tasks b (wt_worker_error (bu_fallback b) p ok (bu_worker b))"
| "bus_perform v (Deadline_Fires ok) b = by_worker_tasks b (wt_handshake_missed v (bu_fallback b) ok (bu_worker b))"
| "bus_perform v (Watch_Granted i ok) b = by_worker_tasks b (wt_watch_granted i ok (bu_worker b))"
| "bus_perform v (Channel_Message h raw) b = (b, case bu_channel b of None \<Rightarrow> [] | Some c \<Rightarrow> ch_receive v h raw c, [])"
| "bus_perform v Channel_Garbled b = (b, [Bus_Failed False], [])"
| "bus_perform v (Post_All ms) b = (case ms of
     [] \<Rightarrow> (b, [], [])
   | m # ms' \<Rightarrow> (case wt_send v m (bu_worker b) of (w, xs) \<Rightarrow> (b\<lparr>bu_worker := w\<rparr>, xs, [Post_All ms'])))"
| "bus_perform v (Reconnect ok) b = by_worker b (wt_reconnect v ok (bu_worker b))"
| "bus_perform v (Version_Seen ok) b = by_worker_tasks b (wt_version_seen (bu_fallback b) ok (bu_worker b))"
| "bus_perform v Give_Up_Version b = by_worker b (wt_give_up_version (bu_worker b))"
| "bus_perform v (Fall_Back reason ok) b = fall_back reason ok b"

text \<open>What the application may call at any time, and what may arrive. It sends no \<open>hello\<close> of its own, and a
  channel that was closed, or never built, says nothing.\<close>

fun bus_call :: "bus_task \<Rightarrow> bool" where
  "bus_call (Call_Send m) = (\<not> is_hello m)"
| "bus_call (Call_Attach n) = True"
| "bus_call (Call_Detach n) = True"
| "bus_call Call_Close = True"
| "bus_call _ = False"

fun bus_event :: "bus_task \<Rightarrow> bus \<Rightarrow> bool" where
  "bus_event (Post_All ms) b = False"
| "bus_event (Reconnect ok) b = False"
| "bus_event (Version_Seen ok) b = False"
| "bus_event Give_Up_Version b = False"
| "bus_event (Fall_Back reason ok) b = False"
| "bus_event (Channel_Message h raw) b = (case bu_channel b of None \<Rightarrow> False | Some c \<Rightarrow> \<not> ch_disposed c)"
| "bus_event Channel_Garbled b = (case bu_channel b of None \<Rightarrow> False | Some c \<Rightarrow> \<not> ch_disposed c)"
| "bus_event (Call_Send m) b = (\<not> is_hello m)"
| "bus_event _ b = True"

datatype bus_entry = Performed bus_task | Out bus_out

record bus_run =
  br_bus :: bus
  br_stack :: "bus_task list"
  br_trace :: "bus_entry list"

definition br_init :: "bool \<Rightarrow> bus_run" where
  "br_init fallback = \<lparr>br_bus = bus_init fallback, br_stack = [], br_trace = [Out (Port_Opened 0)]\<rparr>"

definition bus_task_done :: "bus_env \<Rightarrow> bus_task \<Rightarrow> bus_task list \<Rightarrow> bus_task list \<Rightarrow> bus_run \<Rightarrow> bus_run" where
  "bus_task_done v k calls rest r = (case bus_perform v k (br_bus r) of (b, xs, ks) \<Rightarrow>
     \<lparr>br_bus = b, br_stack = filter bus_call calls @ ks @ rest, br_trace = br_trace r @ [Performed k] @ map Out xs\<rparr>)"

text \<open>A happening: what comes to a bus at rest, or the next task, and what the application calls in its callbacks.\<close>

datatype bus_happening = Comes bus_task "bus_task list" | Continues "bus_task list"

fun bus_step :: "bus_env \<Rightarrow> bus_happening \<Rightarrow> bus_run \<Rightarrow> bus_run" where
  "bus_step v (Comes k calls) r = (if br_stack r = [] \<and> bus_event k (br_bus r) then bus_task_done v k calls [] r else r)"
| "bus_step v (Continues calls) r = (case br_stack r of [] \<Rightarrow> r | k # rest \<Rightarrow> bus_task_done v k calls rest r)"

definition bus_run_of :: "bus_env \<Rightarrow> bool \<Rightarrow> bus_happening list \<Rightarrow> bus_run" where
  "bus_run_of v fallback hs = fold (bus_step v) hs (br_init fallback)"

end
