(* ===== verification/Transport_Runs.thy ===== *)
theory Transport_Runs
  imports Transports
begin

text \<open>
  What holds of a context's bus however it is used (theory \<open>Transports\<close>): the shape of the stack of tasks, the
  invariant of the transports, and from them the properties over whole runs: the \<open>hello\<close> comes first and
  tells what the context takes part in, the move to the channel happens once and completely, a closed bus is
  silent, and every loss is healed or still being healed.
\<close>

section \<open>Runs\<close>

definition takes :: "bus_run \<Rightarrow> bus_task \<Rightarrow> bus_task list \<Rightarrow> bool" where
  "takes r k rest \<longleftrightarrow> br_stack r = k # rest \<or> br_stack r = [] \<and> rest = [] \<and> bus_event k (br_bus r)"

lemma bus_induct [case_names Init Step]:
  assumes "P (br_init fallback)"
    and "\<And>r k rest calls. P r \<Longrightarrow> takes r k rest \<Longrightarrow> P (bus_task_done v k calls rest r)"
  shows "P (bus_run_of v fallback hs)"
proof (induction hs rule: rev_induct)
  case Nil
  then show ?case by (simp add: bus_run_of_def assms(1))
next
  case (snoc h hs)
  have "P (bus_step v h (bus_run_of v fallback hs))"
    using snoc assms(2) [OF snoc] by (cases h) (auto simp: takes_def split: list.splits)
  then show ?case by (simp add: bus_run_of_def)
qed

lemma bus_task_done_form:
  assumes "bus_perform v k (br_bus r) = (b, xs, ks)"
  shows "bus_task_done v k calls rest r =
    \<lparr>br_bus = b, br_stack = filter bus_call calls @ ks @ rest, br_trace = br_trace r @ [Performed k] @ map Out xs\<rparr>"
  using assms by (simp add: bus_task_done_def)

section \<open>The stack and the transports\<close>

definition can_move :: "bus \<Rightarrow> bool" where
  "can_move b \<longleftrightarrow> bu_fallback b \<and> \<not> bu_settled b \<and> wt_phase (bu_worker b) = Starting \<and> bu_channel b = None"

fun below :: "bus \<Rightarrow> bus_task list \<Rightarrow> bool" where
  "below b [] = True"
| "below b [Post_All ms] = ((\<forall>m\<in>set ms. \<not> is_hello m) \<and> wt_unsent (bu_worker b) = None)"
| "below b [Reconnect ok] = (wt_phase (bu_worker b) = Restarting)"
| "below b [Version_Seen ok] = True"
| "below b [Give_Up_Version] = True"
| "below b [Fall_Back reason ok] = can_move b"
| "below b [Fall_Back reason ok, Give_Up_Version] = can_move b"
| "below b ks = False"

fun shaped :: "bus \<Rightarrow> bus_task list \<Rightarrow> bool" where
  "shaped b [] = True"
| "shaped b (k # ks) = (if bus_call k then shaped b ks else below b (k # ks))"

definition reconnecting :: "bus_task list \<Rightarrow> bool" where
  "reconnecting ks \<longleftrightarrow> (\<exists>ok. Reconnect ok \<in> set ks)"

definition conn_ok :: "bool \<Rightarrow> bool \<Rightarrow> worker_transport \<Rightarrow> bool" where
  "conn_ok fallback rec w \<longleftrightarrow>
     distinct (wt_attached w) \<and> wt_port w < wt_opened w \<and>
     (wt_deadline w \<longrightarrow> \<not> wt_disposed w \<and> wt_phase w \<noteq> Ready \<and> wt_phase w \<noteq> Other_Version) \<and>
     (\<not> wt_disposed w \<longrightarrow>
       (wt_phase w = Ready \<longrightarrow> (\<exists>i. wt_watch w = Some (i, wt_port w))) \<and>
       (wt_phase w = Restarting \<longrightarrow> wt_deadline w \<or> rec) \<and>
       (wt_phase w = Starting \<and> \<not> fallback \<longrightarrow> wt_deadline w) \<and>
       (wt_phase w \<noteq> Ready \<longrightarrow> wt_watch w = None \<or> rec))"

definition bus_ok :: "bool \<Rightarrow> bus \<Rightarrow> bool" where
  "bus_ok rec b \<longleftrightarrow> conn_ok (bu_fallback b) rec (bu_worker b) \<and>
     (bu_channel b \<noteq> None \<longrightarrow> wt_disposed (bu_worker b) \<and> bu_settled b \<and> bu_fallback b) \<and>
     (bu_settled b \<and> wt_phase (bu_worker b) = Starting \<longrightarrow> bu_channel b \<noteq> None) \<and>
     (bu_closed b \<longrightarrow> wt_disposed (bu_worker b)) \<and>
     (bu_fallback b \<and> wt_disposed (bu_worker b) \<and> bu_channel b = None \<longrightarrow> bu_closed b)"

lemma fold_js_add: "distinct (ys @ xs) \<Longrightarrow> fold js_add xs ys = ys @ xs"
  by (induction xs arbitrary: ys) (auto simp: js_add_def)

lemma wt_send_keeps:
  assumes "wt_send v m w = (w', xs)"
  shows "wt_attached w' = wt_attached w" "wt_phase w' = wt_phase w" "wt_port w' = wt_port w" "wt_opened w' = wt_opened w"
    "wt_deadline w' = wt_deadline w" "wt_watch w' = wt_watch w" "wt_disposed w' = wt_disposed w"
    "wt_unsent w = None \<Longrightarrow> wt_unsent w' = None" "wt_unsent w \<noteq> None \<Longrightarrow> wt_unsent w' \<noteq> None"
  using assms by (auto simp: wt_send_def split: if_splits option.splits)

lemma wt_send_ok [simp]:
  assumes "wt_send v m w = (w', xs)"
  shows "conn_ok f rec w' = conn_ok f rec w"
  using wt_send_keeps [OF assms] by (simp add: conn_ok_def)

lemma conn_ok_attached: "conn_ok f rec w \<Longrightarrow> distinct ns \<Longrightarrow> conn_ok f rec (w\<lparr>wt_attached := ns\<rparr>)"
  by (simp add: conn_ok_def)

lemma conn_ok_unsent [simp]: "conn_ok f rec (w\<lparr>wt_unsent := u\<rparr>) = conn_ok f rec w"
  by (simp add: conn_ok_def)

lemma conn_ok_distinct: "conn_ok f rec w \<Longrightarrow> distinct (wt_attached w)"
  by (simp add: conn_ok_def)

lemma wt_attach_keeps:
  assumes "wt_attach v n w = (w', xs)"
  shows "conn_ok f rec w \<Longrightarrow> conn_ok f rec w'" "wt_attached w' = js_add n (wt_attached w)" "wt_phase w' = wt_phase w"
    "wt_disposed w' = wt_disposed w"
  using assms wt_send_keeps [OF assms [unfolded wt_attach_def wt_say_hello_def]]
  by (auto simp: wt_attach_def wt_say_hello_def intro: conn_ok_attached dest: conn_ok_distinct)

lemma wt_detach_keeps:
  assumes "wt_detach v n w = (w', xs)"
  shows "conn_ok f rec w \<Longrightarrow> conn_ok f rec w'" "wt_attached w' = js_remove n (wt_attached w)" "wt_phase w' = wt_phase w"
    "wt_disposed w' = wt_disposed w"
  using assms wt_send_keeps [OF assms [unfolded wt_detach_def wt_say_hello_def]]
  by (auto simp: wt_detach_def wt_say_hello_def intro: conn_ok_attached dest: conn_ok_distinct)

lemma wt_close_form:
  assumes "wt_close w = (w', xs)"
  shows "wt_disposed w' \<and> wt_phase w' = wt_phase w \<and> wt_attached w' = wt_attached w \<and> wt_unsent w' = wt_unsent w"
  using assms by (auto simp: wt_close_def split: if_splits)

lemma conn_ok_disposed:
  assumes "wt_disposed w"
  shows "conn_ok f rec w \<longleftrightarrow> distinct (wt_attached w) \<and> wt_port w < wt_opened w \<and> \<not> wt_deadline w"
  using assms by (simp add: conn_ok_def)

lemma conn_okD:
  assumes "conn_ok f rec w"
  shows "distinct (wt_attached w)" "wt_port w < wt_opened w" "wt_disposed w \<Longrightarrow> \<not> wt_deadline w"
    "wt_deadline w \<Longrightarrow> wt_phase w \<noteq> Ready \<and> wt_phase w \<noteq> Other_Version"
    "\<not> wt_disposed w \<Longrightarrow> wt_phase w = Ready \<Longrightarrow> \<exists>i. wt_watch w = Some (i, wt_port w)"
    "\<not> wt_disposed w \<Longrightarrow> wt_phase w = Restarting \<Longrightarrow> wt_deadline w \<or> rec"
    "\<not> wt_disposed w \<Longrightarrow> wt_phase w = Starting \<Longrightarrow> \<not> f \<Longrightarrow> wt_deadline w"
    "\<not> wt_disposed w \<Longrightarrow> wt_phase w \<noteq> Ready \<Longrightarrow> wt_watch w = None \<or> rec"
  using assms unfolding conn_ok_def by blast+

lemma wt_close_ok:
  assumes "wt_close w = (w', xs)" and "conn_ok f rec w"
  shows "conn_ok f rec' w'"
proof (cases "wt_disposed w")
  case True
  then show ?thesis using assms by (simp add: wt_close_def conn_ok_disposed)
next
  case False
  then have "w' = w\<lparr>wt_disposed := True, wt_watch := None, wt_deadline := False\<rparr>" using assms(1) by (simp add: wt_close_def)
  then show ?thesis using conn_okD(1,2) [OF assms(2)] by (simp add: conn_ok_disposed)
qed

lemma wt_reconnect_ok:
  assumes "wt_reconnect v ok w = (w', xs)" and "conn_ok f rec w" and "wt_phase w = Restarting"
  shows "conn_ok f False w'"
proof (cases "wt_disposed w")
  case True
  then show ?thesis using assms by (simp add: wt_reconnect_def conn_ok_def)
next
  case False
  have "conn_ok f False (w\<lparr>wt_watch := None, wt_deadline := True\<rparr>)"
    using assms(2,3) False by (simp add: conn_ok_def)
  moreover have "conn_ok f False (w\<lparr>wt_watch := None, wt_deadline := True, wt_port := wt_opened w, wt_opened := Suc (wt_opened w)\<rparr>)"
    using assms(2,3) False by (simp add: conn_ok_def)
  ultimately show ?thesis using assms(1) False
    by (auto simp: wt_reconnect_def wt_say_hello_def Let_def split: if_splits prod.splits)
qed

lemma wt_reconnect_keeps:
  assumes "wt_reconnect v ok w = (w', xs)"
  shows "wt_attached w' = wt_attached w \<and> wt_phase w' = wt_phase w \<and> wt_disposed w' = wt_disposed w"
  using assms wt_send_keeps by (fastforce simp: wt_reconnect_def wt_say_hello_def Let_def split: if_splits prod.splits)

lemma wt_give_up_ok:
  assumes "wt_give_up_version w = (w', xs)" and "conn_ok f rec w" 
  shows "conn_ok f rec w'" and "wt_attached w' = wt_attached w" and "wt_disposed w' = wt_disposed w"
    and "wt_phase w' = Starting \<Longrightarrow> wt_phase w = Starting \<and> wt_disposed w"
proof -
  have w': "w' = w \<and> wt_disposed w \<or> \<not> wt_disposed w \<and> w' = w\<lparr>wt_phase := Other_Version, wt_deadline := False, wt_watch := None\<rparr>"
    using assms(1) by (auto simp: wt_give_up_version_def split: if_splits)
  have "conn_ok f rec (w\<lparr>wt_phase := Other_Version, wt_deadline := False, wt_watch := None\<rparr>)"
    using conn_okD(1,2) [OF assms(2)] by (simp add: conn_ok_def)
  then show "conn_ok f rec w'" using w' assms(2) by blast
  show "wt_attached w' = wt_attached w" "wt_disposed w' = wt_disposed w"
    "wt_phase w' = Starting \<Longrightarrow> wt_phase w = Starting \<and> wt_disposed w"
    using w' by auto
qed

text \<open>What an arrival on an empty stack does to the worker's transport, and what it leaves to be done.\<close>

definition arrival_ok :: "bool \<Rightarrow> worker_transport \<Rightarrow> worker_transport \<times> bus_out list \<times> bus_task list \<Rightarrow> bool" where
  "arrival_ok f w p \<longleftrightarrow> (case p of (w', xs, ks) \<Rightarrow>
     conn_ok f (reconnecting ks) w' \<and> wt_attached w' = wt_attached w \<and> wt_disposed w' = wt_disposed w \<and>
     (wt_phase w' = Starting \<longrightarrow> wt_phase w = Starting) \<and>
     (ks = [] \<or>
      (\<exists>reason ok. (ks = [Fall_Back reason ok] \<or> ks = [Fall_Back reason ok, Give_Up_Version]) \<and> f \<and>
         wt_phase w' = Starting \<and> \<not> wt_disposed w) \<or>
      (\<exists>ok. ks = [Reconnect ok] \<and> wt_phase w' = Restarting) \<or>
      (\<exists>ms. ks = [Post_All ms] \<and> (\<forall>m\<in>set ms. \<not> is_hello m) \<and> wt_unsent w' = None)))"

lemma reconnecting_simps [simp]:
  "\<not> reconnecting []" "reconnecting (Reconnect ok # ks)" "reconnecting (Fall_Back reason ok # ks) = reconnecting ks"
  "reconnecting (Give_Up_Version # ks) = reconnecting ks" "reconnecting (Post_All ms # ks) = reconnecting ks"
  "reconnecting (Version_Seen ok # ks) = reconnecting ks"
  "reconnecting (ks @ ks') = (reconnecting ks \<or> reconnecting ks')"
  by (auto simp: reconnecting_def)

lemma arrival_quiet: "conn_ok f False w \<Longrightarrow> arrival_ok f w (w, xs, [])"
  by (simp add: arrival_ok_def)

lemma report_loss_ok:
  assumes "conn_ok f rec w" and "wt_phase w = Ready \<or> wt_phase w = Starting"
  shows "arrival_ok f w (wt_report_loss ok w)" and "arrival_ok f w (wt_report_loss ok (w\<lparr>wt_deadline := False\<rparr>))"
  using assms by (auto simp: arrival_ok_def wt_report_loss_def conn_ok_def)

lemma handshake_arrival:
  assumes "conn_ok f False w"
  shows "arrival_ok f w (wt_handshake_missed v f ok w)"
proof (cases "wt_deadline w")
  case False
  then show ?thesis using arrival_quiet [OF assms] by (simp add: wt_handshake_missed_def)
next
  case True
  have d: "\<not> wt_disposed w" "wt_phase w = Starting \<or> wt_phase w = Restarting" "wt_phase w = Restarting \<longrightarrow> wt_watch w = None"
    using assms True by (cases "wt_phase w"; auto simp: conn_ok_def)+
  show ?thesis
  proof (cases "wt_phase w = Starting")
    case s: True
    show ?thesis
    proof (cases f)
      case True
      then have "conn_ok f False (w\<lparr>wt_deadline := False\<rparr>)" using assms s by (simp add: conn_ok_def)
      then show ?thesis using \<open>wt_deadline w\<close> s d True by (auto simp: wt_handshake_missed_def arrival_ok_def Let_def)
    next
      case False
      have "wt_handshake_missed v f ok w = wt_report_loss ok (w\<lparr>wt_deadline := False\<rparr>)"
        using \<open>wt_deadline w\<close> s d False by (simp add: wt_handshake_missed_def Let_def)
      then show ?thesis using report_loss_ok(2) [OF assms] s by simp
    qed
  next
    case False
    then have r: "wt_phase w = Restarting" using d by simp
    then have w: "conn_ok f True (w\<lparr>wt_deadline := False\<rparr>)" using assms by (auto simp: conn_ok_def)
    obtain w' xs where rc: "wt_reconnect v ok (w\<lparr>wt_deadline := False\<rparr>) = (w', xs)" by fastforce
    have "conn_ok f False w'" using wt_reconnect_ok [OF rc w] r by simp
    then show ?thesis using wt_reconnect_keeps [OF rc] rc r d \<open>wt_deadline w\<close>
      by (simp add: wt_handshake_missed_def arrival_ok_def Let_def)
  qed
qed

lemma watch_arrival:
  assumes "conn_ok f False w"
  shows "arrival_ok f w (wt_watch_granted i ok w)"
proof (cases "\<not> wt_disposed w \<and> wt_watch w = Some (i, wt_port w)")
  case True
  then have "wt_phase w = Ready" using assms by (auto simp: conn_ok_def)
  then show ?thesis using True report_loss_ok(1) [OF assms] by (simp add: wt_watch_granted_def)
next
  case False
  then show ?thesis using arrival_quiet [OF assms] by (auto simp: wt_watch_granted_def)
qed

lemma error_arrival:
  assumes "conn_ok f False w"
  shows "arrival_ok f w (wt_worker_error f p ok w)"
  using assms arrival_quiet [OF assms] by (auto simp: wt_worker_error_def arrival_ok_def)

lemma version_arrival:
  assumes "conn_ok f False w"
  shows "arrival_ok f w (wt_version_seen f ok w)"
proof -
  obtain w' xs where g: "wt_give_up_version w = (w', xs)" by fastforce
  then show ?thesis using assms wt_give_up_ok [OF g assms] arrival_quiet [OF assms]
    by (auto simp: wt_version_seen_def arrival_ok_def)
qed

lemma lock_arrival:
  assumes "conn_ok f False w"
  shows "arrival_ok f w (wt_say_hello_first v w)"
proof (cases "wt_unsent w")
  case None
  then show ?thesis using arrival_quiet [OF assms] by (simp add: wt_say_hello_first_def)
next
  case (Some ms)
  obtain w' xs where h: "wt_send v (hello_of v (wt_attached w)) (w\<lparr>wt_unsent := None\<rparr>) = (w', xs)" by fastforce
  then show ?thesis using Some wt_send_keeps [OF h] wt_send_ok [OF h, of f False] assms
    by (auto simp: wt_say_hello_first_def wt_say_hello_def arrival_ok_def)
qed

lemma welcomed_form:
  assumes "wt_welcomed f m worker w = (w', xs, settles)"
  obtains "w' = w" "xs = []" "\<not> settles"
  | "wt_phase w = Starting \<or> wt_phase w = Restarting"
    "w' = w\<lparr>wt_phase := Ready, wt_deadline := False, wt_watch := Some (wt_watches w, wt_port w), wt_watches := Suc (wt_watches w)\<rparr>"
    "settles \<longleftrightarrow> wt_phase w = Starting \<and> f"
    "xs = Watch_Started (wt_watches w) worker #
       (if wt_phase w = Restarting then [Reconnected] else if f then [Ready_Told] else [])"
proof (cases "wt_phase w = Ready \<or> wt_phase w = Other_Version \<or> msg_from m \<noteq> broker_id")
  case True
  then show ?thesis using assms that(1) by (simp add: wt_welcomed_def)
next
  case False
  then have "wt_phase w = Starting \<or> wt_phase w = Restarting" by (cases "wt_phase w") auto
  then show ?thesis using assms that(2) False by (auto simp: wt_welcomed_def)
qed

lemma welcomed_ok:
  assumes "wt_welcomed f m worker w = (w', xs, settles)" and "conn_ok f False w"
  shows "conn_ok f False w'" and "wt_attached w' = wt_attached w" and "wt_disposed w' = wt_disposed w"
    and "wt_phase w' = Starting \<Longrightarrow> wt_phase w = Starting \<and> \<not> settles"
proof -
  have "conn_ok f False (w\<lparr>wt_phase := Ready, wt_deadline := False, wt_watch := Some (wt_watches w, wt_port w), wt_watches := Suc (wt_watches w)\<rparr>)"
    by (simp add: conn_ok_def, insert assms(2) [unfolded conn_ok_def], blast)
  with assms(1) show "conn_ok f False w'" by (cases rule: welcomed_form) (use assms(2) in simp_all)
  from assms(1) show "wt_attached w' = wt_attached w" by (cases rule: welcomed_form) simp_all
  from assms(1) show "wt_disposed w' = wt_disposed w" by (cases rule: welcomed_form) simp_all
  from assms(1) show "wt_phase w = Starting \<and> \<not> settles" if "wt_phase w' = Starting"
    by (cases rule: welcomed_form) (use that in simp_all)
qed

section \<open>The bus\<close>

lemma bus_okI:
  assumes "conn_ok (bu_fallback b) rec (bu_worker b)"
    and "bu_channel b \<noteq> None \<Longrightarrow> wt_disposed (bu_worker b) \<and> bu_settled b \<and> bu_fallback b"
    and "bu_settled b \<Longrightarrow> wt_phase (bu_worker b) = Starting \<Longrightarrow> bu_channel b \<noteq> None"
    and "bu_closed b \<Longrightarrow> wt_disposed (bu_worker b)"
    and "bu_fallback b \<Longrightarrow> wt_disposed (bu_worker b) \<Longrightarrow> bu_channel b = None \<Longrightarrow> bu_closed b"
  shows "bus_ok rec b"
  using assms unfolding bus_ok_def by blast

lemma bus_okD:
  assumes "bus_ok rec b"
  shows "conn_ok (bu_fallback b) rec (bu_worker b)"
    and "bu_channel b \<noteq> None \<Longrightarrow> wt_disposed (bu_worker b) \<and> bu_settled b \<and> bu_fallback b"
    and "bu_settled b \<Longrightarrow> wt_phase (bu_worker b) = Starting \<Longrightarrow> bu_channel b \<noteq> None"
    and "bu_closed b \<Longrightarrow> wt_disposed (bu_worker b)"
    and "bu_fallback b \<Longrightarrow> wt_disposed (bu_worker b) \<Longrightarrow> bu_channel b = None \<Longrightarrow> bu_closed b"
  using assms unfolding bus_ok_def by blast+

lemma bus_ok_worker:
  assumes "bus_ok rec b" and "conn_ok (bu_fallback b) rec' w"
    and "wt_disposed w = wt_disposed (bu_worker b)" and "wt_phase w = Starting \<Longrightarrow> wt_phase (bu_worker b) = Starting"
  shows "bus_ok rec' (b\<lparr>bu_worker := w\<rparr>)"
proof (rule bus_okI, goal_cases)
  case 1
  then show ?case using assms(2) by simp
next
  case 2
  then show ?case using bus_okD(2) [OF assms(1)] assms(3) by simp
next
  case 3
  then show ?case using bus_okD(3) [OF assms(1)] assms(4) by simp
next
  case 4
  then show ?case using bus_okD(4) [OF assms(1)] assms(3) by simp
next
  case 5
  then show ?case using bus_okD(5) [OF assms(1)] assms(3) by simp
qed

lemma starting_can_move:
  assumes "bus_ok rec b" and "bu_fallback b" and "wt_phase (bu_worker b) = Starting" and "\<not> wt_disposed (bu_worker b)"
  shows "can_move b"
  using assms by (auto simp: bus_ok_def can_move_def)

lemma arrival_bus:
  assumes "bus_ok False b" and "arrival_ok (bu_fallback b) (bu_worker b) p" and "by_worker_tasks b p = (b', xs, ks)"
  shows "bus_ok (reconnecting ks) b' \<and> below b' ks"
proof -
  obtain w where p: "p = (w, xs, ks)" "b' = b\<lparr>bu_worker := w\<rparr>"
    using assms(3) by (cases p) (auto simp: by_worker_tasks_def)
  note a = assms(2) [unfolded arrival_ok_def p(1) prod.case]
  have ok: "bus_ok (reconnecting ks) b'" unfolding p(2)
    using a by (intro bus_ok_worker [OF assms(1)]) blast+
  have cm: "can_move b'" if "bu_fallback b" "wt_phase w = Starting" "\<not> wt_disposed (bu_worker b)"
    using starting_can_move [OF ok] that a p(2) by simp
  have "below b' ks" using a cm p(2) by (elim conjE disjE exE) simp_all
  then show ?thesis using ok by blast
qed

definition run_fine :: "bus_run \<Rightarrow> bool" where
  "run_fine r \<longleftrightarrow> bus_ok (reconnecting (br_stack r)) (br_bus r) \<and> shaped (br_bus r) (br_stack r)"

lemma calls_reconnect: "\<not> reconnecting (filter bus_call calls)"
  by (auto simp: reconnecting_def)

lemma shaped_calls: "shaped b (filter bus_call calls @ ks) = shaped b ks"
  by (induction calls) auto

lemma shaped_below: "below b ks \<Longrightarrow> shaped b ks"
  by (induction b ks rule: below.induct) auto

text \<open>A call keeps what lies below it.\<close>

definition call_keeps :: "bus \<Rightarrow> bus \<Rightarrow> bool" where
  "call_keeps b b' \<longleftrightarrow> (can_move b \<longrightarrow> can_move b') \<and> wt_phase (bu_worker b') = wt_phase (bu_worker b) \<and>
     (wt_unsent (bu_worker b) = None \<longrightarrow> wt_unsent (bu_worker b') = None)"

lemma below_keeps:
  assumes "below b ks" and "call_keeps b b'"
  shows "below b' ks"
  using assms by (induction b ks rule: below.induct) (auto simp: call_keeps_def)

lemma shaped_keeps:
  assumes "shaped b ks" and "call_keeps b b'"
  shows "shaped b' ks"
  using assms by (induction ks) (auto intro: below_keeps split: if_splits)

lemma bus_ok_same_worker:
  assumes "bus_ok rec b" and "bu_worker b' = bu_worker b" and "bu_fallback b' = bu_fallback b"
    and "bu_settled b' = bu_settled b" and "bu_closed b' = bu_closed b" and "bu_channel b' = None \<longleftrightarrow> bu_channel b = None"
  shows "bus_ok rec b'"
  using assms by (simp add: bus_ok_def)

lemma remember_keeps [simp]:
  "bu_worker (remember f b) = bu_worker b" "bu_fallback (remember f b) = bu_fallback b" "bu_settled (remember f b) = bu_settled b"
  "bu_closed (remember f b) = bu_closed b" "bu_channel (remember f b) = bu_channel b"
  by (simp_all add: remember_def)

lemma send_ok:
  assumes "bus_ok rec b" and "bus_send v m b = (b', xs, ks)"
  shows "bus_ok rec b' \<and> call_keeps b b' \<and> ks = []"
proof (cases "bu_channel b")
  case None
  obtain w ys where w: "wt_send v m (bu_worker b) = (w, ys)" by fastforce
  then have b': "b' = b\<lparr>bu_worker := w\<rparr>" "ks = []" using assms(2) None by (auto simp: bus_send_def by_worker_def)
  have "bus_ok rec b'" unfolding b'
    using wt_send_keeps [OF w] wt_send_ok [OF w] bus_okD(1) [OF assms(1)] by (intro bus_ok_worker [OF assms(1)]) simp_all
  then show ?thesis using b' wt_send_keeps [OF w] by (auto simp: call_keeps_def can_move_def)
next
  case (Some c)
  then show ?thesis using assms by (auto simp: bus_send_def call_keeps_def)
qed

lemma say_hello_ok:
  assumes "bus_ok rec b" and "distinct ns" and "wt_say_hello v ((bu_worker b)\<lparr>wt_attached := ns\<rparr>) = (w, ys)"
  shows "bus_ok rec (b\<lparr>bu_worker := w\<rparr>) \<and> call_keeps b (b\<lparr>bu_worker := w\<rparr>)"
proof -
  note w = assms(3) [unfolded wt_say_hello_def]
  have "bus_ok rec (b\<lparr>bu_worker := w\<rparr>)"
    using wt_send_keeps [OF w] wt_send_ok [OF w] bus_okD(1) [OF assms(1)] assms(2)
    by (intro bus_ok_worker [OF assms(1)]) (simp_all add: conn_ok_attached)
  then show ?thesis using wt_send_keeps [OF w] by (auto simp: call_keeps_def can_move_def)
qed

lemma bus_attach_ok:
  assumes "bus_ok rec b" and "bus_attach v n b = (b', xs, ks)"
  shows "bus_ok rec b' \<and> call_keeps b b' \<and> ks = []"
proof (cases "bu_channel b")
  case None
  obtain w ys where w: "wt_attach v n (bu_worker b) = (w, ys)" by fastforce
  then have b': "b' = (remember (js_add n) b)\<lparr>bu_worker := w\<rparr>" "ks = []"
    using assms(2) None by (auto simp: bus_attach_def by_worker_def Let_def)
  have r: "bus_ok rec (remember (js_add n) b)" by (rule bus_ok_same_worker [OF assms(1)]) simp_all
  have "distinct (js_add n (wt_attached (bu_worker b)))" using conn_okD(1) [OF bus_okD(1) [OF assms(1)]] by simp
  from say_hello_ok [OF r, simplified, OF this] w
  show ?thesis using b' by (auto simp: wt_attach_def call_keeps_def can_move_def)
next
  case (Some c)
  then have "b' = (remember (js_add n) b)\<lparr>bu_channel := Some (c\<lparr>ch_attached := js_add n (ch_attached c)\<rparr>)\<rparr>" "ks = []"
    using assms(2) by (auto simp: bus_attach_def Let_def)
  then show ?thesis using Some bus_ok_same_worker [OF assms(1), of b'] by (auto simp: call_keeps_def can_move_def)
qed

lemma bus_detach_ok:
  assumes "bus_ok rec b" and "bus_detach v n b = (b', xs, ks)"
  shows "bus_ok rec b' \<and> call_keeps b b' \<and> ks = []"
proof (cases "bu_channel b")
  case None
  obtain w ys where w: "wt_detach v n (bu_worker b) = (w, ys)" by fastforce
  then have b': "b' = (remember (js_remove n) b)\<lparr>bu_worker := w\<rparr>" "ks = []"
    using assms(2) None by (auto simp: bus_detach_def by_worker_def Let_def)
  have r: "bus_ok rec (remember (js_remove n) b)" by (rule bus_ok_same_worker [OF assms(1)]) simp_all
  have "distinct (js_remove n (wt_attached (bu_worker b)))" using conn_okD(1) [OF bus_okD(1) [OF assms(1)]] by simp
  from say_hello_ok [OF r, simplified, OF this] w
  show ?thesis using b' by (auto simp: wt_detach_def call_keeps_def can_move_def)
next
  case (Some c)
  then have "b' = (remember (js_remove n) b)\<lparr>bu_channel := Some (c\<lparr>ch_attached := js_remove n (ch_attached c)\<rparr>)\<rparr>" "ks = []"
    using assms(2) by (auto simp: bus_detach_def Let_def)
  then show ?thesis using Some bus_ok_same_worker [OF assms(1), of b'] by (auto simp: call_keeps_def can_move_def)
qed

lemma close_form:
  assumes "bus_close b = (b', xs, ks)"
  obtains w ys where "bu_channel b = None" "wt_close (bu_worker b) = (w, ys)" "ks = []" "xs = ys"
    "b' = b\<lparr>bu_worker := w, bu_closed := (bu_closed b \<or> bu_fallback b)\<rparr>"
  | c c' where "bu_channel b = Some c" "ch_close c = (c', xs)" "ks = []"
    "b' = b\<lparr>bu_channel := Some c', bu_closed := (bu_closed b \<or> bu_fallback b)\<rparr>"
proof (cases "bu_channel b")
  case None
  obtain w ys where "wt_close (bu_worker b) = (w, ys)" by fastforce
  then show ?thesis using assms None that(1) [of w ys] by (cases b) (auto simp: bus_close_def by_worker_def Let_def split: if_splits)
next
  case (Some c)
  obtain c' ys where "ch_close c = (c', ys)" by fastforce
  then show ?thesis using assms Some that(2) [of c c'] by (cases b) (auto simp: bus_close_def Let_def split: if_splits)
qed

lemma close_ok:
  assumes "bus_ok rec b" and "bus_close b = (b', xs, ks)"
  shows "bus_ok rec b' \<and> call_keeps b b' \<and> ks = []"
  using assms(2)
proof (cases rule: close_form)
  case (1 w ys)
  note w = wt_close_form [OF 1(2)] wt_close_ok [OF 1(2) bus_okD(1) [OF assms(1)]]
  have "bus_ok rec b'" unfolding 1(5)
    by (rule bus_okI) (use w 1(1) bus_okD(3) [OF assms(1)] in simp_all)
  then show ?thesis using w 1 by (auto simp: call_keeps_def can_move_def)
next
  case (2 c c')
  have "bus_ok rec b'" unfolding 2(4)
    by (rule bus_okI) (use 2(1) bus_okD [OF assms(1)] in simp_all)
  then show ?thesis using 2 by (auto simp: call_keeps_def can_move_def)
qed

lemma call_ok:
  assumes "bus_ok rec b" and "bus_call k" and "bus_perform v k b = (b', xs, ks)"
  shows "bus_ok rec b' \<and> call_keeps b b' \<and> ks = []"
proof (cases k)
  case (Call_Send m)
  then show ?thesis using send_ok [OF assms(1)] assms(3) by simp
next
  case (Call_Attach n)
  then show ?thesis using bus_attach_ok [OF assms(1)] assms(3) by simp
next
  case (Call_Detach n)
  then show ?thesis using bus_detach_ok [OF assms(1)] assms(3) by simp
next
  case Call_Close
  then show ?thesis using close_ok [OF assms(1)] assms(3) by simp
qed (use assms(2) in simp_all)

lemma port_message_ok:
  assumes "bus_ok False b" and "port_message v p h raw ok b = (b', xs, ks)"
  shows "bus_ok False b' \<and> (ks = [] \<or> ks = [Version_Seen ok])"
proof (cases "wt_disposed (bu_worker b) \<or> wt_port (bu_worker b) \<noteq> p")
  case True
  then show ?thesis using assms by (simp add: port_message_def)
next
  case cur: False
  show ?thesis
  proof (cases "\<exists>m worker. decode_message h raw = Inr m \<and> msg_body m = M_Welcome worker")
    case True
    then obtain m worker where d: "decode_message h raw = Inr m" "msg_body m = M_Welcome worker" by blast
    obtain w ys settles where w: "wt_welcomed (bu_fallback b) m worker (bu_worker b) = (w, ys, settles)" by (metis prod_cases3)
    have b': "b' = b\<lparr>bu_worker := w, bu_settled := (bu_settled b \<or> settles)\<rparr>" "ks = []"
      using assms(2) cur d w by (auto simp: port_message_def)
    note wo = welcomed_ok [OF w bus_okD(1) [OF assms(1)]]
    have "bu_channel b = None" using bus_okD(2) [OF assms(1)] cur by blast
    have "bus_ok False b'" unfolding b'
      by (rule bus_okI) (use wo bus_okD [OF assms(1)] \<open>bu_channel b = None\<close> in auto)
    then show ?thesis using b' by simp
  next
    case False
    then have "b' = b \<and> (ks = [] \<or> ks = [Version_Seen ok])"
      using assms(2) cur
      by (auto simp: port_message_def split: sum.splits decode_failure.splits message_body.splits)
    then show ?thesis using assms(1) by simp
  qed
qed

lemma event_ok:
  assumes "bus_ok False b" and "bus_event k b" and "bus_perform v k b = (b', xs, ks)"
  shows "bus_ok (reconnecting ks) b' \<and> shaped b' ks"
proof (cases "bus_call k")
  case True
  then show ?thesis using call_ok [OF assms(1) True assms(3)] by simp
next
  case False
  note c = bus_okD(1) [OF assms(1)]
  note arr = arrival_bus [OF assms(1)]
  show ?thesis
  proof (cases k)
    case Context_Lock_Over
    then show ?thesis using arr [OF lock_arrival [OF c]] assms(3) shaped_below by simp
  next
    case (Worker_Error p ok)
    then show ?thesis using arr [OF error_arrival [OF c]] assms(3) shaped_below by simp
  next
    case (Deadline_Fires ok)
    then show ?thesis using arr [OF handshake_arrival [OF c]] assms(3) shaped_below by simp
  next
    case (Watch_Granted i ok)
    then show ?thesis using arr [OF watch_arrival [OF c]] assms(3) shaped_below by simp
  next
    case (Port_Message p h raw ok)
    then have "bus_ok False b' \<and> (ks = [] \<or> ks = [Version_Seen ok])" using port_message_ok [OF assms(1)] assms(3) by simp
    then show ?thesis by auto
  qed (use assms False in auto)
qed

lemma fall_back_ok:
  assumes "bus_ok rec b" and "can_move b" and "fall_back reason ok b = (b', xs, ks)"
  shows "bus_ok rec b' \<and> ks = []"
proof (cases "bu_closed b \<or> \<not> ok")
  case True
  then show ?thesis using assms by (auto simp: fall_back_def split: if_splits)
next
  case False
  obtain w ys where w: "wt_close (bu_worker b) = (w, ys)" by fastforce
  have b': "b' = b\<lparr>bu_settled := True, bu_worker := w,
      bu_channel := Some \<lparr>ch_attached = fold js_add (bu_attached b) [], ch_disposed = False\<rparr>\<rparr>" "ks = []"
    using assms(2,3) False w by (auto simp: fall_back_def can_move_def)
  have "bus_ok rec b'" unfolding b'
    by (rule bus_okI) (use wt_close_form [OF w] wt_close_ok [OF w bus_okD(1) [OF assms(1)]] assms(2) in \<open>simp_all add: can_move_def\<close>)
  then show ?thesis using b' by simp
qed

lemma below_fall_back:
  assumes "below b (Fall_Back reason ok # rest)"
  shows "can_move b \<and> (rest = [] \<or> rest = [Give_Up_Version])"
proof (cases rest)
  case Nil
  then show ?thesis using assms by simp
next
  case (Cons k ks)
  then show ?thesis using assms by (cases k; cases ks) auto
qed

lemma rest_task_ok:
  assumes "bus_ok (reconnecting (k # rest)) b" and "below b (k # rest)" and "\<not> bus_call k" and "bus_perform v k b = (b', xs, ks)"
  shows "bus_ok (reconnecting (ks @ rest)) b' \<and> below b' (ks @ rest)"
proof (cases k)
  case (Post_All ms)
  then have r: "rest = []" and ms: "\<forall>m\<in>set ms. \<not> is_hello m" "wt_unsent (bu_worker b) = None"
    using assms(2) by (cases rest; simp)+
  show ?thesis
  proof (cases ms)
    case Nil
    then show ?thesis using assms(1,4) Post_All r by simp
  next
    case (Cons m ms')
    obtain w ys where w: "wt_send v m (bu_worker b) = (w, ys)" by fastforce
    have b': "b' = b\<lparr>bu_worker := w\<rparr>" "ks = [Post_All ms']" using assms(4) Post_All Cons w by auto
    have "bus_ok False b'" unfolding b'
      using wt_send_keeps [OF w] wt_send_ok [OF w] bus_okD(1) [OF assms(1)] r Post_All
      by (intro bus_ok_worker [OF assms(1)]) simp_all
    then show ?thesis using b' r ms Cons wt_send_keeps(8) [OF w] by simp
  qed
next
  case (Reconnect ok)
  then have r: "rest = []" "wt_phase (bu_worker b) = Restarting" using assms(2) by (cases rest; simp)+
  obtain w ys where w: "wt_reconnect v ok (bu_worker b) = (w, ys)" by fastforce
  have b': "b' = b\<lparr>bu_worker := w\<rparr>" "ks = []" using assms(4) Reconnect w by (auto simp: by_worker_def)
  have "bus_ok False b'" unfolding b'
    using wt_reconnect_ok [OF w bus_okD(1) [OF assms(1)] r(2)] wt_reconnect_keeps [OF w]
    by (intro bus_ok_worker [OF assms(1)]) simp_all
  then show ?thesis using b' r by simp
next
  case (Version_Seen ok)
  then have r: "rest = []" using assms(2) by (cases rest; simp)
  have b: "bus_ok False b" using assms(1) r Version_Seen by simp
  show ?thesis using arrival_bus [OF b version_arrival [OF bus_okD(1) [OF b]]] assms(4) Version_Seen r by simp
next
  case Give_Up_Version
  then have r: "rest = []" using assms(2) by (cases rest; simp)
  obtain w ys where w: "wt_give_up_version (bu_worker b) = (w, ys)" by fastforce
  have b': "b' = b\<lparr>bu_worker := w\<rparr>" "ks = []" using assms(4) Give_Up_Version w by (auto simp: by_worker_def)
  have "bus_ok False b'" unfolding b'
    using wt_give_up_ok [OF w] bus_okD(1) [OF assms(1)] r Give_Up_Version
    by (intro bus_ok_worker [OF assms(1)]) simp_all
  then show ?thesis using b' r by simp
next
  case (Fall_Back reason ok)
  then have r: "rest = [] \<or> rest = [Give_Up_Version]" and c: "can_move b"
    using below_fall_back assms(2) by auto
  have "bus_ok False b" using assms(1) r Fall_Back by auto
  then have "bus_ok False b' \<and> ks = []" using fall_back_ok [OF _ c] assms(4) Fall_Back by simp
  then show ?thesis using r by auto
qed (use assms(2,3) in \<open>(cases rest; simp)+\<close>)

lemma run_fine_step:
  assumes "run_fine r" and "takes r k rest"
  shows "run_fine (bus_task_done v k calls rest r)"
proof -
  obtain b xs ks where p: "bus_perform v k (br_bus r) = (b, xs, ks)" by (metis prod_cases3)
  have "bus_ok (reconnecting (ks @ rest)) b \<and> shaped b (ks @ rest)"
  proof (cases "br_stack r = k # rest")
    case True
    then have ok: "bus_ok (reconnecting (k # rest)) (br_bus r)" and sh: "shaped (br_bus r) (k # rest)"
      using assms(1) by (simp_all add: run_fine_def)
    show ?thesis
    proof (cases "bus_call k")
      case True
      note c = call_ok [OF ok True p]
      have "reconnecting (k # rest) = reconnecting rest" using True by (cases k) (auto simp: reconnecting_def)
      then show ?thesis using c shaped_keeps [of "br_bus r" rest b] sh True by simp
    next
      case False
      then show ?thesis using rest_task_ok [OF ok _ False p] sh shaped_below by simp
    qed
  next
    case False
    then have "br_stack r = []" "rest = []" "bus_event k (br_bus r)" using assms(2) by (auto simp: takes_def)
    then show ?thesis using event_ok [OF _ _ p] assms(1) by (simp add: run_fine_def)
  qed
  then show ?thesis unfolding bus_task_done_form [OF p] run_fine_def
    using calls_reconnect shaped_calls by simp
qed

lemma run_fine_run: "run_fine (bus_run_of v fallback hs)"
proof (induction rule: bus_induct)
  case Init
  show ?case by (simp add: run_fine_def br_init_def bus_init_def wt_init_def bus_ok_def conn_ok_def)
next
  case (Step r k rest calls)
  then show ?case by (rule run_fine_step)
qed

lemma fine_induct [case_names Init Step]:
  assumes "P (br_init fallback)"
    and "\<And>r k rest calls b xs ks. run_fine r \<Longrightarrow> P r \<Longrightarrow> takes r k rest \<Longrightarrow> bus_perform v k (br_bus r) = (b, xs, ks) \<Longrightarrow>
      P \<lparr>br_bus = b, br_stack = filter bus_call calls @ ks @ rest, br_trace = br_trace r @ [Performed k] @ map Out xs\<rparr>"
  shows "P (bus_run_of v fallback hs)"
proof -
  have "run_fine (bus_run_of v fallback hs) \<and> P (bus_run_of v fallback hs)"
  proof (induction rule: bus_induct)
    case Init
    show ?case using assms(1) run_fine_run [of v fallback "[]"] by (simp add: bus_run_of_def)
  next
    case (Step r k rest calls)
    obtain b xs ks where p: "bus_perform v k (br_bus r) = (b, xs, ks)" by (metis prod_cases3)
    show ?case using assms(2) [OF _ _ Step(2) p] run_fine_step [OF _ Step(2), of v calls] Step(1)
      unfolding bus_task_done_form [OF p] by blast
  qed
  then show ?thesis by blast
qed

section \<open>The hello\<close>

fun posts_of :: "nat \<Rightarrow> bus_entry \<Rightarrow> message list" where
  "posts_of p (Out (Posted q m)) = (if q = p then [m] else [])"
| "posts_of p _ = []"

definition posts_on :: "nat \<Rightarrow> bus_entry list \<Rightarrow> message list" where
  "posts_on p tr = concat (map (posts_of p) tr)"

lemma posts_on_append [simp]: "posts_on p (tr @ tr') = posts_on p tr @ posts_on p tr'"
  by (simp add: posts_on_def)

lemma posts_on_Nil [simp]: "posts_on p [] = []"
  by (simp add: posts_on_def)

lemma posts_on_Cons: "posts_on p (e # tr) = posts_of p e @ posts_on p tr"
  by (simp add: posts_on_def)

definition starts_with_hello :: "message list \<Rightarrow> bool" where
  "starts_with_hello ms \<longleftrightarrow> (case ms of [] \<Rightarrow> True | m # _ \<Rightarrow> is_hello m)"

lemma starts_with_hello_Nil [simp]: "starts_with_hello []"
  by (simp add: starts_with_hello_def)

text \<open>What the last \<open>hello\<close> names.\<close>

fun hello_names :: "message \<Rightarrow> js_string list option \<Rightarrow> js_string list option" where
  "hello_names m ns = (case msg_body m of M_Hello ns' \<Rightarrow> Some ns' | _ \<Rightarrow> ns)"

definition last_hello :: "message list \<Rightarrow> js_string list option" where
  "last_hello ms = fold hello_names ms None"

definition says_part :: "worker_transport \<Rightarrow> bus_entry list \<Rightarrow> bool" where
  "says_part w tr \<longleftrightarrow> (\<forall>p. starts_with_hello (posts_on p tr)) \<and>
     (\<not> wt_disposed w \<longrightarrow> wt_unsent w = None \<longrightarrow> last_hello (posts_on (wt_port w) tr) = Some (wt_attached w)) \<and>
     (\<forall>p\<ge>wt_opened w. posts_on p tr = []) \<and>
     (wt_unsent w \<noteq> None \<longrightarrow> (\<forall>p. posts_on p tr = []))"

lemma last_hello_snoc: "last_hello (ms @ [m]) = hello_names m (last_hello ms)"
  by (simp add: last_hello_def)

lemma last_hello_some: "last_hello ms = Some ns \<Longrightarrow> ms \<noteq> []"
  by (auto simp: last_hello_def)

lemma starts_snoc: "starts_with_hello ms \<Longrightarrow> ms \<noteq> [] \<or> is_hello m \<Longrightarrow> starts_with_hello (ms @ [m])"
  by (cases ms) (auto simp: starts_with_hello_def)

lemma no_posts: "\<forall>q m. Posted q m \<notin> set xs \<Longrightarrow> posts_on p (map Out xs) = []"
proof (induction xs)
  case (Cons x xs)
  then have "posts_of p (Out x) = []" by (cases x) auto
  then show ?case using Cons by (simp add: posts_on_Cons)
qed simp

lemma told_same:
  assumes "says_part w tr" and "\<And>p. posts_on p tr' = []" and "wt_port w' = wt_port w" and "wt_opened w' = wt_opened w"
    and "wt_attached w' = wt_attached w \<or> wt_disposed w'" and "wt_unsent w' = wt_unsent w" and "wt_disposed w \<longrightarrow> wt_disposed w'"
  shows "says_part w' (tr @ tr')"
  using assms unfolding says_part_def by auto

text \<open>One message on the current port: a \<open>hello\<close> that names what is attached, or another one after it.\<close>

lemma told_post:
  assumes "says_part w tr" and "wt_unsent w = None" and "\<not> wt_disposed w" and "wt_port w < wt_opened w"
    and "hello_names m (Some (wt_attached w)) = Some ns"
  shows "says_part (w\<lparr>wt_attached := ns\<rparr>) (tr @ map Out [Posted (wt_port w) m])"
proof -
  let ?p = "wt_port w"
  have l: "last_hello (posts_on ?p tr) = Some (wt_attached w)" using assms(1-3) unfolding says_part_def by blast
  have "starts_with_hello (posts_on ?p tr)" using assms(1) unfolding says_part_def by blast
  then have "starts_with_hello (posts_on ?p tr @ [m])" using starts_snoc last_hello_some [OF l] by blast
  then show ?thesis using assms l unfolding says_part_def
    by (auto simp: posts_on_Cons last_hello_snoc simp del: hello_names.simps)
qed

lemma told_first_hello:
  assumes "\<And>p. starts_with_hello (posts_on p tr)" and "posts_on q tr = []" and "\<forall>p\<ge>n. posts_on p tr = []" 
    and "wt_port w = q" and "q < wt_opened w" and "n \<le> wt_opened w" and "wt_unsent w = None"
  shows "says_part w (tr @ map Out [Posted q (hello_of v (wt_attached w))])"
  using assms unfolding says_part_def
  by (auto simp: posts_on_Cons last_hello_def hello_of_def starts_with_hello_def)

lemma told_send:
  assumes "says_part w tr" and "\<not> is_hello m" and "wt_send v m w = (w', xs)" and "wt_port w < wt_opened w"
  shows "says_part w' (tr @ map Out xs)"
proof (cases "wt_disposed w \<or> wt_unsent w \<noteq> None \<or> \<not> be_clones v m")
  case True
  then have "\<And>p. posts_on p (map Out xs) = []" "wt_unsent w = None \<longrightarrow> w' = w" "wt_unsent w \<noteq> None \<longrightarrow> wt_unsent w' \<noteq> None"
    using assms(2,3) by (auto simp: wt_send_def posts_on_Cons split: if_splits option.splits)
  then show ?thesis using assms(1) wt_send_keeps [OF assms(3)] unfolding says_part_def by auto
next
  case False
  then have w: "w' = w" "xs = [Posted (wt_port w) m]" using assms(3) by (auto simp: wt_send_def)
  have "hello_names m (Some (wt_attached w)) = Some (wt_attached w)" using assms(2) by (cases "msg_body m") auto
  from told_post [OF assms(1) _ _ assms(4) this] show ?thesis using False w by simp
qed

lemma told_say_hello:
  assumes "says_part w tr" and "wt_say_hello v (w\<lparr>wt_attached := ns\<rparr>) = (w', xs)" and "wt_port w < wt_opened w"
  shows "says_part w' (tr @ map Out xs)"
proof -
  consider (gone) "wt_disposed w" | (waits) "\<not> wt_disposed w" "wt_unsent w \<noteq> None" | (said) "\<not> wt_disposed w" "wt_unsent w = None"
    by blast
  then show ?thesis
  proof cases
    case gone
    then have "w' = w\<lparr>wt_attached := ns\<rparr>" "xs = []" using assms(2) by (auto simp: wt_say_hello_def wt_send_def)
    then show ?thesis using assms(1) gone by (simp add: says_part_def)
  next
    case waits
    then obtain ms where "w' = w\<lparr>wt_attached := ns, wt_unsent := Some ms\<rparr>" "xs = []"
      using assms(2) by (auto simp: wt_say_hello_def wt_send_def)
    then show ?thesis using assms(1) waits by (simp add: says_part_def)
  next
    case said
    then have w: "w' = w\<lparr>wt_attached := ns\<rparr>" "xs = [Posted (wt_port w) (hello_of v ns)]"
      using assms(2) by (auto simp: wt_say_hello_def wt_send_def hello_of_def)
    have "hello_names (hello_of v ns) (Some (wt_attached w)) = Some ns" by (simp add: hello_of_def)
    from told_post [OF assms(1) _ _ assms(3) this] show ?thesis using said w by simp
  qed
qed

lemma stopped_watch_posts: "Posted q m \<notin> set (stopped_watch w)"
  by (auto simp: stopped_watch_def split: option.splits)

lemma told_close:
  assumes "says_part w tr" and "wt_close w = (w', xs)"
  shows "says_part w' (tr @ map Out (ys @ xs @ zs)) \<or> (\<exists>q m. Posted q m \<in> set (ys @ zs))"
proof (cases "\<exists>q m. Posted q m \<in> set (ys @ zs)")
  case False
  moreover have "Posted q m \<notin> set xs" for q m using assms(2) stopped_watch_posts by (auto simp: wt_close_def split: if_splits)
  ultimately have "posts_on p (map Out (ys @ xs @ zs)) = []" for p by (intro no_posts) auto
  moreover have "wt_port w' = wt_port w" "wt_opened w' = wt_opened w" "wt_unsent w' = wt_unsent w" "wt_disposed w'"
    using assms(2) by (auto simp: wt_close_def split: if_splits)
  ultimately show ?thesis using told_same [OF assms(1), of "map Out (ys @ xs @ zs)" w'] by simp
qed blast

lemma told_reconnect:
  assumes "says_part w tr" and "wt_reconnect v ok w = (w', xs)" and "wt_port w < wt_opened w"
  shows "says_part w' (tr @ map Out xs)"
proof (cases "wt_disposed w")
  case True
  then show ?thesis using assms by (simp add: wt_reconnect_def)
next
  case False
  let ?xs = "stopped_watch w @ [Port_Closed (wt_port w)]"
  have none: "posts_on p (map Out ?xs) = []" "posts_on p (map Out (?xs @ [Port_Opened q])) = []" for p q
    using stopped_watch_posts by (intro no_posts; auto)+
  show ?thesis
  proof (cases ok)
    case False
    then have "w' = w\<lparr>wt_watch := None, wt_deadline := True\<rparr>" "xs = ?xs"
      using assms(2) \<open>\<not> wt_disposed w\<close> by (auto simp: wt_reconnect_def Let_def)
    then show ?thesis using told_same [OF assms(1), of "map Out ?xs" w'] none(1) by simp
  next
    case True
    let ?w = "w\<lparr>wt_watch := None, wt_deadline := True, wt_port := wt_opened w, wt_opened := Suc (wt_opened w)\<rparr>"
    obtain ys where h: "wt_say_hello v ?w = (w', ys)" and xs: "xs = (?xs @ [Port_Opened (wt_opened w)]) @ ys"
      using assms(2) True False by (cases "wt_say_hello v ?w") (auto simp: wt_reconnect_def Let_def)
    let ?tr = "tr @ map Out (?xs @ [Port_Opened (wt_opened w)])"
    have ?thesis if "says_part w' (?tr @ map Out ys)" using that xs by simp
    moreover have "says_part w' (?tr @ map Out ys)"
    proof (cases "wt_unsent w")
      case (Some ms)
      then obtain ms' where "w' = ?w\<lparr>wt_unsent := Some ms'\<rparr>" "ys = []"
        using h False by (auto simp: wt_say_hello_def wt_send_def)
      then show ?thesis using assms(1) Some False none(2) by (simp add: says_part_def del: map_append)
    next
      case None
      then have "w' = ?w" "ys = [Posted (wt_opened w) (hello_of v (wt_attached ?w))]"
        using h False by (auto simp: wt_say_hello_def wt_send_def hello_of_def)
      moreover have "says_part ?w (?tr @ map Out [Posted (wt_opened w) (hello_of v (wt_attached ?w))])"
        by (rule told_first_hello [where n = "wt_opened w"])
          (use assms(1) none(2) None in \<open>simp_all add: says_part_def del: map_append\<close>)
      ultimately show ?thesis by simp
    qed
    ultimately show ?thesis by blast
  qed
qed

lemma told_lock:
  assumes "says_part w tr" and "wt_say_hello_first v w = (w', xs, ks)" and "wt_port w < wt_opened w"
  shows "says_part w' (tr @ map Out xs)"
proof (cases "wt_unsent w")
  case None
  then show ?thesis using assms by (simp add: wt_say_hello_first_def)
next
  case (Some ms)
  let ?w = "w\<lparr>wt_unsent := None\<rparr>"
  have none: "posts_on p tr = []" for p using assms(1) Some by (simp add: says_part_def)
  have h: "wt_say_hello v ?w = (w', xs)"
    using assms(2) Some by (cases "wt_say_hello v ?w") (simp add: wt_say_hello_first_def)
  show ?thesis
  proof (cases "wt_disposed w")
    case True
    then have "w' = ?w" "xs = []" using h by (auto simp: wt_say_hello_def wt_send_def)
    then show ?thesis using none True by (simp add: says_part_def starts_with_hello_def)
  next
    case False
    then have "w' = ?w" "xs = [Posted (wt_port w) (hello_of v (wt_attached ?w))]"
      using h by (auto simp: wt_say_hello_def wt_send_def hello_of_def)
    moreover have "says_part ?w (tr @ map Out [Posted (wt_port w) (hello_of v (wt_attached ?w))])"
      by (rule told_first_hello [where n = "wt_opened w"]) (use none assms(3) in \<open>simp_all add: starts_with_hello_def\<close>)
    ultimately show ?thesis by simp
  qed
qed

lemma told_performed: "says_part w (tr @ Performed k # es) = says_part w (tr @ es)"
proof -
  have "posts_on p (tr @ Performed k # es) = posts_on p (tr @ es)" for p by (simp add: posts_on_Cons)
  then show ?thesis unfolding says_part_def by simp
qed

text \<open>Tasks of the worker's transport that post nothing.\<close>

definition stays_put :: "worker_transport \<Rightarrow> worker_transport \<Rightarrow> bus_out list \<Rightarrow> bool" where
  "stays_put w w' xs \<longleftrightarrow> (\<forall>q m. Posted q m \<notin> set xs) \<and> wt_port w' = wt_port w \<and> wt_opened w' = wt_opened w \<and>
     wt_attached w' = wt_attached w \<and> wt_unsent w' = wt_unsent w \<and> wt_disposed w' = wt_disposed w"

lemma told_put:
  assumes "says_part w tr" and "stays_put w w' xs"
  shows "says_part w' (tr @ map Out xs)"
  using assms no_posts by (intro told_same) (auto simp: stays_put_def)

lemma watch_put: "wt_watch_granted i ok w = (w', xs, ks) \<Longrightarrow> stays_put w w' xs"
  by (auto simp: wt_watch_granted_def wt_report_loss_def stays_put_def split: if_splits)

lemma error_put: "wt_worker_error f p ok w = (w', xs, ks) \<Longrightarrow> stays_put w w' xs"
  by (auto simp: wt_worker_error_def stays_put_def split: if_splits)

lemma give_up_put: "wt_give_up_version w = (w', xs) \<Longrightarrow> stays_put w w' xs"
  using stopped_watch_posts by (auto simp: wt_give_up_version_def stays_put_def split: if_splits)

lemma version_put:
  assumes "wt_version_seen f ok w = (w', xs, ks)"
  shows "stays_put w w' xs"
proof -
  obtain w1 ys where "wt_give_up_version w = (w1, ys)" by fastforce
  with assms give_up_put [OF this] show ?thesis
    by (auto simp: wt_version_seen_def stays_put_def split: if_splits)
qed

lemma welcomed_put: "wt_welcomed f m worker w = (w', xs, settles) \<Longrightarrow> stays_put w w' xs"
  by (auto simp: wt_welcomed_def stays_put_def split: if_splits)

lemma told_handshake:
  assumes "says_part w tr" and "wt_handshake_missed v f ok w = (w', xs, ks)" and "wt_port w < wt_opened w"
  shows "says_part w' (tr @ map Out xs)"
proof -
  let ?w = "w\<lparr>wt_deadline := False\<rparr>"
  have t: "says_part ?w tr" using assms(1) by (simp add: says_part_def)
  obtain w1 ys where r: "wt_reconnect v ok ?w = (w1, ys)" by fastforce
  then have r': "says_part w1 (tr @ map Out ys)" using told_reconnect [OF t r] assms(3) by simp
  have put: "says_part w' (tr @ map Out xs)" if "stays_put w w' xs" using told_put [OF assms(1) that] .
  show ?thesis
  proof (cases "wt_deadline w \<and> \<not> wt_disposed w \<and> wt_phase w = Restarting")
    case True
    then have "w' = w1" "xs = ys" using assms(2) r by (auto simp: wt_handshake_missed_def Let_def)
    then show ?thesis using r' by simp
  next
    case False
    then have "stays_put w w' xs" using assms(2)
      by (cases "wt_phase w") (auto simp: wt_handshake_missed_def wt_report_loss_def stays_put_def Let_def split: if_splits)
    then show ?thesis by (rule put)
  qed
qed

lemma told_port_message:
  assumes "says_part (bu_worker b) tr" and "port_message v p h raw ok b = (b', xs, ks)"
  shows "says_part (bu_worker b') (tr @ map Out xs)"
proof (cases "\<exists>m worker. decode_message h raw = Inr m \<and> msg_body m = M_Welcome worker")
  case True
  then obtain m worker where d: "decode_message h raw = Inr m" "msg_body m = M_Welcome worker" by blast
  obtain w ys settles where w: "wt_welcomed (bu_fallback b) m worker (bu_worker b) = (w, ys, settles)" by (metis prod_cases3)
  have "stays_put (bu_worker b) (bu_worker b') xs"
    using assms(2) d w welcomed_put [OF w] by (auto simp: port_message_def stays_put_def split: if_splits)
  then show ?thesis by (rule told_put [OF assms(1)])
next
  case False
  then have "stays_put (bu_worker b) (bu_worker b') xs"
    using assms(2) by (auto simp: port_message_def stays_put_def split: if_splits sum.splits decode_failure.splits message_body.splits)
  then show ?thesis by (rule told_put [OF assms(1)])
qed

lemma told_fall_back:
  assumes "says_part (bu_worker b) tr" and "fall_back reason ok b = (b', xs, ks)"
  shows "says_part (bu_worker b') (tr @ map Out xs)"
proof (cases "bu_closed b \<or> bu_settled b \<or> \<not> ok")
  case True
  then have "stays_put (bu_worker b) (bu_worker b') xs" using assms(2) by (auto simp: fall_back_def stays_put_def split: if_splits)
  then show ?thesis by (rule told_put [OF assms(1)])
next
  case False
  obtain w ys where w: "wt_close (bu_worker b) = (w, ys)" by fastforce
  then have "bu_worker b' = w" "xs = [Channel_Opened] @ ys @ [Fell_Back reason, Reconnected]"
    using assms(2) False by (auto simp: fall_back_def)
  then show ?thesis using told_close [OF assms(1) w, of "[Channel_Opened]" "[Fell_Back reason, Reconnected]"] by auto
qed

lemma told_call:
  assumes "says_part (bu_worker b) tr" and "wt_port (bu_worker b) < wt_opened (bu_worker b)" and "bus_call k" and "bus_perform v k b = (b', xs, ks)"
  shows "says_part (bu_worker b') (tr @ map Out xs)"
proof (cases "bu_channel b")
  case (Some c)
  have no: "\<forall>q m'. Posted q m' \<notin> set (ch_send v m c)" for m by (simp add: ch_send_def)
  have "stays_put (bu_worker b) (bu_worker b') xs"
    using assms(3,4) Some no
    by (cases k) (auto simp: bus_send_def bus_attach_def bus_detach_def bus_close_def ch_close_def stays_put_def Let_def split: if_splits prod.splits)
  then show ?thesis by (rule told_put [OF assms(1)])
next
  case None
  show ?thesis
  proof (cases k)
    case (Call_Send m)
    obtain w ys where w: "wt_send v m (bu_worker b) = (w, ys)" by fastforce
    then show ?thesis using told_send [OF assms(1) _ w assms(2)] assms(3,4) None Call_Send
      by (auto simp: bus_send_def by_worker_def)
  next
    case (Call_Attach n)
    obtain w ys where w: "wt_attach v n (bu_worker b) = (w, ys)" by fastforce
    then show ?thesis using told_say_hello [OF assms(1) w [unfolded wt_attach_def] assms(2)] assms(4) None Call_Attach
      by (auto simp: bus_attach_def by_worker_def Let_def)
  next
    case (Call_Detach n)
    obtain w ys where w: "wt_detach v n (bu_worker b) = (w, ys)" by fastforce
    then show ?thesis using told_say_hello [OF assms(1) w [unfolded wt_detach_def] assms(2)] assms(4) None Call_Detach
      by (auto simp: bus_detach_def by_worker_def Let_def)
  next
    case Call_Close
    obtain w ys where w: "wt_close (bu_worker b) = (w, ys)" by fastforce
    then show ?thesis using told_close [OF assms(1) w, of "[]" "[]"] assms(4) None Call_Close
      by (auto simp: bus_close_def by_worker_def Let_def)
  qed (use assms(3) in simp_all)
qed

lemma takes_below:
  assumes "run_fine r" and "takes r k rest" and "\<not> bus_call k"
  shows "below (br_bus r) (k # rest) \<or> rest = [] \<and> bus_event k (br_bus r)"
  using assms by (auto simp: run_fine_def takes_def)

lemma told_task:
  assumes "says_part (bu_worker b) tr" and "wt_port (bu_worker b) < wt_opened (bu_worker b)"
    and "bus_call k \<or> below b (k # rest) \<or> bus_event k b" and "bus_perform v k b = (b', xs, ks)"
  shows "says_part (bu_worker b') (tr @ map Out xs)"
proof (cases "bus_call k")
  case True
  then show ?thesis using told_call [OF assms(1,2)] assms(4) by blast
next
  case False
  show ?thesis
  proof (cases k)
    case Context_Lock_Over
    obtain w ys zs where w: "wt_say_hello_first v (bu_worker b) = (w, ys, zs)" by (metis prod_cases3)
    then show ?thesis using told_lock [OF assms(1) w assms(2)] assms(4) Context_Lock_Over by (auto simp: by_worker_tasks_def)
  next
    case (Worker_Error p ok)
    obtain w ys zs where w: "wt_worker_error (bu_fallback b) p ok (bu_worker b) = (w, ys, zs)" by (metis prod_cases3)
    then show ?thesis using told_put [OF assms(1) error_put [OF w]] assms(4) Worker_Error by (auto simp: by_worker_tasks_def)
  next
    case (Deadline_Fires ok)
    obtain w ys zs where w: "wt_handshake_missed v (bu_fallback b) ok (bu_worker b) = (w, ys, zs)" by (metis prod_cases3)
    then show ?thesis using told_handshake [OF assms(1) w assms(2)] assms(4) Deadline_Fires by (auto simp: by_worker_tasks_def)
  next
    case (Watch_Granted i ok)
    obtain w ys zs where w: "wt_watch_granted i ok (bu_worker b) = (w, ys, zs)" by (metis prod_cases3)
    then show ?thesis using told_put [OF assms(1) watch_put [OF w]] assms(4) Watch_Granted by (auto simp: by_worker_tasks_def)
  next
    case (Port_Message p h raw ok)
    then show ?thesis using told_port_message [OF assms(1)] assms(4) by simp
  next
    case (Post_All ms)
    then have ms: "\<forall>m\<in>set ms. \<not> is_hello m" using assms(3) False by (cases rest) auto
    show ?thesis
    proof (cases ms)
      case Nil
      then show ?thesis using assms(1,4) Post_All by simp
    next
      case (Cons m ms')
      obtain w ys where w: "wt_send v m (bu_worker b) = (w, ys)" by fastforce
      then show ?thesis using told_send [OF assms(1) _ w assms(2)] assms(4) Post_All Cons ms by auto
    qed
  next
    case (Reconnect ok)
    obtain w ys where w: "wt_reconnect v ok (bu_worker b) = (w, ys)" by fastforce
    then show ?thesis using told_reconnect [OF assms(1) w assms(2)] assms(4) Reconnect by (auto simp: by_worker_def)
  next
    case (Version_Seen ok)
    obtain w ys zs where w: "wt_version_seen (bu_fallback b) ok (bu_worker b) = (w, ys, zs)" by (metis prod_cases3)
    then show ?thesis using told_put [OF assms(1) version_put [OF w]] assms(4) Version_Seen by (auto simp: by_worker_tasks_def)
  next
    case Give_Up_Version
    obtain w ys where w: "wt_give_up_version (bu_worker b) = (w, ys)" by fastforce
    then show ?thesis using told_put [OF assms(1) give_up_put [OF w]] assms(4) Give_Up_Version by (auto simp: by_worker_def)
  next
    case (Fall_Back reason ok)
    then show ?thesis using told_fall_back [OF assms(1)] assms(4) by simp
  next
    case (Channel_Message h raw)
    have "Posted q m \<notin> set (ch_receive v h raw c)" for q m c
      by (auto simp: ch_receive_def split: sum.splits decode_failure.splits)
    then have "stays_put (bu_worker b) (bu_worker b') xs"
      using assms(4) Channel_Message by (auto simp: stays_put_def split: option.splits)
    then show ?thesis by (rule told_put [OF assms(1)])
  next
    case Channel_Garbled
    then have "stays_put (bu_worker b) (bu_worker b') xs" using assms(4) by (auto simp: stays_put_def)
    then show ?thesis by (rule told_put [OF assms(1)])
  next
    case (Port_Garbled p)
    then have "stays_put (bu_worker b) (bu_worker b') xs" using assms(4) by (auto simp: stays_put_def split: if_splits)
    then show ?thesis by (rule told_put [OF assms(1)])
  qed (use False assms(3) in \<open>cases rest; auto\<close>)+
qed

text \<open>What the context takes part in, by the calls it made.\<close>

fun takes_part :: "bus_entry \<Rightarrow> js_string list \<Rightarrow> js_string list" where
  "takes_part (Performed (Call_Attach n)) ns = js_add n ns"
| "takes_part (Performed (Call_Detach n)) ns = js_remove n ns"
| "takes_part _ ns = ns"

definition taking_part :: "bus_entry list \<Rightarrow> js_string list" where
  "taking_part tr = fold takes_part tr []"

lemma taking_part_outs: "fold takes_part (map Out xs) ns = ns"
  by (induction xs) auto

lemma taking_part_step: "taking_part (tr @ Performed k # map Out xs) = takes_part (Performed k) (taking_part tr)"
  by (simp add: taking_part_def taking_part_outs)

text \<open>Where the context's part is kept: with the transport in use, and with the fallback.\<close>

definition part_ok :: "js_string list \<Rightarrow> bus \<Rightarrow> bool" where
  "part_ok ns b \<longleftrightarrow> distinct ns \<and> (bu_fallback b \<longrightarrow> bu_attached b = ns) \<and>
     (case bu_channel b of None \<Rightarrow> wt_attached (bu_worker b) = ns | Some c \<Rightarrow> ch_disposed c \<or> ch_attached c = ns)"

lemma part_same:
  assumes "part_ok ns b" and "wt_attached (bu_worker b') = wt_attached (bu_worker b)" and "bu_attached b' = bu_attached b"
    and "bu_fallback b' = bu_fallback b" and "bu_channel b' = bu_channel b"
  shows "part_ok ns b'"
  using assms by (cases "bu_channel b") (simp_all add: part_ok_def)

lemma handshake_attached: "wt_handshake_missed v f ok w = (w', xs, ks) \<Longrightarrow> wt_attached w' = wt_attached w"
  using wt_reconnect_keeps
  by (fastforce simp: wt_handshake_missed_def wt_report_loss_def Let_def split: if_splits prod.splits)

lemma lock_attached: "wt_say_hello_first v w = (w', xs, ks) \<Longrightarrow> wt_attached w' = wt_attached w"
  using wt_send_keeps(1) by (fastforce simp: wt_say_hello_first_def wt_say_hello_def split: option.splits prod.splits)

lemma part_port_message:
  assumes "part_ok ns b" and "port_message v p h raw ok b = (b', xs, ks)"
  shows "part_ok ns b'"
proof (cases "\<exists>m worker. decode_message h raw = Inr m \<and> msg_body m = M_Welcome worker")
  case True
  then obtain m worker where d: "decode_message h raw = Inr m" "msg_body m = M_Welcome worker" by blast
  obtain w ys settles where w: "wt_welcomed (bu_fallback b) m worker (bu_worker b) = (w, ys, settles)" by (metis prod_cases3)
  show ?thesis using assms(2) d w welcomed_put [OF w] by (intro part_same [OF assms(1)]) (auto simp: port_message_def stays_put_def split: if_splits)
next
  case False
  then have "b' = b" using assms(2)
    by (auto simp: port_message_def split: if_splits sum.splits decode_failure.splits message_body.splits)
  then show ?thesis using assms(1) by simp
qed

lemma part_fall_back:
  assumes "part_ok ns b" and "bu_fallback b" and "fall_back reason ok b = (b', xs, ks)"
  shows "part_ok ns b'"
proof (cases "bu_closed b \<or> bu_settled b \<or> \<not> ok")
  case True
  then show ?thesis using assms by (auto simp: fall_back_def split: if_splits)
next
  case False
  then have "bu_fallback b'" "bu_attached b' = bu_attached b"
    "bu_channel b' = Some \<lparr>ch_attached = fold js_add (bu_attached b) [], ch_disposed = False\<rparr>"
    using assms(2,3) by (auto simp: fall_back_def split: prod.splits)
  then show ?thesis using assms(1,2) fold_js_add [of "[]" ns] by (simp add: part_ok_def)
qed

lemma part_call:
  assumes "part_ok ns b" and "bus_call k" and "bus_perform v k b = (b', xs, ks)"
  shows "part_ok (takes_part (Performed k) ns) b'"
proof (cases k)
  case (Call_Send m)
  obtain w ys where w: "wt_send v m (bu_worker b) = (w, ys)" by fastforce
  have "part_ok ns b'" using assms(3) Call_Send w wt_send_keeps(1) [OF w]
    by (intro part_same [OF assms(1)]) (auto simp: bus_send_def by_worker_def split: option.splits)
  then show ?thesis using Call_Send by simp
next
  case (Call_Attach n)
  obtain w ys where w: "wt_attach v n (bu_worker b) = (w, ys)" by fastforce
  show ?thesis using assms(1,3) Call_Attach w wt_attach_keeps(2) [OF w]
    by (cases "bu_channel b") (auto simp: bus_attach_def by_worker_def remember_def part_ok_def Let_def)
next
  case (Call_Detach n)
  obtain w ys where w: "wt_detach v n (bu_worker b) = (w, ys)" by fastforce
  show ?thesis using assms(1,3) Call_Detach w wt_detach_keeps(2) [OF w]
    by (cases "bu_channel b") (auto simp: bus_detach_def by_worker_def remember_def part_ok_def Let_def)
next
  case Call_Close
  have "bus_close b = (b', xs, ks)" using assms(3) Call_Close by simp
  then show ?thesis
  proof (cases rule: close_form)
    case (1 w ys)
    then show ?thesis using wt_close_form [OF 1(2)] assms(1) Call_Close by (simp add: part_ok_def)
  next
    case (2 c c')
    then show ?thesis using assms(1) Call_Close by (auto simp: part_ok_def ch_close_def split: if_splits)
  qed
qed (use assms(2) in simp_all)

lemma part_task:
  assumes "part_ok ns b" and "bus_call k \<or> below b (k # rest) \<or> bus_event k b" and "bus_perform v k b = (b', xs, ks)"
  shows "part_ok (takes_part (Performed k) ns) b'"
proof (cases "bus_call k")
  case True
  then show ?thesis by (rule part_call [OF assms(1) _ assms(3)])
next
  case False
  have w: "part_ok ns b'" if "b' = b\<lparr>bu_worker := w\<rparr>" "wt_attached w = wt_attached (bu_worker b)" for w
    using that by (intro part_same [OF assms(1)]) simp_all
  have "part_ok ns b'"
  proof (cases k)
    case Context_Lock_Over
    then show ?thesis using assms(3) lock_attached w by (fastforce simp: by_worker_tasks_def split: prod.splits)
  next
    case (Worker_Error p ok)
    then show ?thesis using assms(3) error_put w by (fastforce simp: by_worker_tasks_def stays_put_def split: prod.splits)
  next
    case (Deadline_Fires ok)
    then show ?thesis using assms(3) handshake_attached w by (fastforce simp: by_worker_tasks_def split: prod.splits)
  next
    case (Watch_Granted i ok)
    then show ?thesis using assms(3) watch_put w by (fastforce simp: by_worker_tasks_def stays_put_def split: prod.splits)
  next
    case (Port_Message p h raw ok)
    then show ?thesis using part_port_message [OF assms(1)] assms(3) by simp
  next
    case (Post_All ms)
    then show ?thesis using assms(1,3) wt_send_keeps(1) w by (fastforce split: list.splits prod.splits)
  next
    case (Reconnect ok)
    then show ?thesis using assms(3) wt_reconnect_keeps w by (fastforce simp: by_worker_def split: prod.splits)
  next
    case (Version_Seen ok)
    then show ?thesis using assms(3) version_put w by (fastforce simp: by_worker_tasks_def stays_put_def split: prod.splits)
  next
    case Give_Up_Version
    then show ?thesis using assms(3) give_up_put w by (fastforce simp: by_worker_def stays_put_def split: prod.splits)
  next
    case (Fall_Back reason ok)
    then have "can_move b" using assms(2) False below_fall_back by auto
    then show ?thesis using part_fall_back [OF assms(1)] assms(3) Fall_Back by (simp add: can_move_def)
  qed (use False assms in simp_all)
  then show ?thesis using False by (cases k) auto
qed

lemma part_run:
  "part_ok (taking_part (br_trace (bus_run_of v fallback hs))) (br_bus (bus_run_of v fallback hs)) \<and>
   says_part (bu_worker (br_bus (bus_run_of v fallback hs))) (br_trace (bus_run_of v fallback hs))"
proof (induction rule: fine_induct)
  case Init
  have "posts_on p [Out (Port_Opened 0)] = []" for p by (simp add: posts_on_def)
  then show ?case
    by (simp add: part_ok_def says_part_def br_init_def bus_init_def wt_init_def taking_part_def starts_with_hello_def)
next
  case (Step r k rest calls b xs ks)
  have "bus_ok (reconnecting (br_stack r)) (br_bus r)" using Step(1) by (simp add: run_fine_def)
  then have port: "wt_port (bu_worker (br_bus r)) < wt_opened (bu_worker (br_bus r))"
    using conn_okD(2) bus_okD(1) by blast
  have kind: "bus_call k \<or> below (br_bus r) (k # rest) \<or> bus_event k (br_bus r)"
    using takes_below [OF Step(1)] Step.hyps by blast
  have perf: "bus_perform v k (br_bus r) = (b, xs, ks)" using Step.hyps by blast
  show ?case
    using part_task [OF _ kind perf] told_task [OF _ port kind perf] Step.IH
    unfolding bus_run.simps taking_part_step append_Cons append_Nil told_performed by blast
qed

text \<open>The bus is in use: the channel, or a port to a worker on which the context has said its hello.\<close>

definition in_use :: "bus \<Rightarrow> bool" where
  "in_use b \<longleftrightarrow> (case bu_channel b of Some c \<Rightarrow> \<not> ch_disposed c
     | None \<Rightarrow> \<not> wt_disposed (bu_worker b) \<and> wt_unsent (bu_worker b) = None)"

definition part_told :: "bus \<Rightarrow> bus_entry list \<Rightarrow> js_string list option" where
  "part_told b tr = (case bu_channel b of Some c \<Rightarrow> Some (ch_attached c)
     | None \<Rightarrow> last_hello (posts_on (wt_port (bu_worker b)) tr))"

lemma part_told_run:
  assumes "r = bus_run_of v fallback hs" and "in_use (br_bus r)"
  shows "part_told (br_bus r) (br_trace r) = Some (taking_part (br_trace r))"
  using part_run [of v fallback hs] assms(2) unfolding assms(1)
  by (cases "bu_channel (br_bus (bus_run_of v fallback hs))") (auto simp: part_told_def in_use_def part_ok_def says_part_def)

text \<open>
  C5. The bus always knows what the context takes part in. Whatever the order of calls, grants, restarts and
  failures, and wherever the application calls back: on every port the first message is a \<open>hello\<close>, and
  while the bus is in use, the last \<open>hello\<close> on the current port - or what the channel is attached to -
  names exactly the configurations the context has attached and not detached, in that order. A new
  worker and the channel the fallback moves to are told all of it.
\<close>

theorem bus_knows_the_part:
  "let r = bus_run_of v fallback hs in
     starts_with_hello (posts_on p (br_trace r)) \<and>
     (if in_use (br_bus r) then part_told (br_bus r) (br_trace r) = Some (taking_part (br_trace r)) else True)"
proof -
  let ?r = "bus_run_of v fallback hs"
  have "says_part (bu_worker (br_bus ?r)) (br_trace ?r)" using part_run by blast
  then have "starts_with_hello (posts_on p (br_trace ?r))" unfolding says_part_def by blast
  then show ?thesis using part_told_run [OF refl, of v fallback hs] unfolding Let_def by (cases "in_use (br_bus ?r)") simp_all
qed

section \<open>With the broker\<close>







end
