(* ===== verification/Transport_Course.thy ===== *)
theory Transport_Course
  imports Transport_Runs
begin

text \<open>
  What the bus of a context does over a whole run, seen from outside: the protocol its outputs follow -
  where it starts, when it is shaken, lost, heard again, and moved to the channel, once and completely -
  and its silence once it is closed.
\<close>

section \<open>The course\<close>

text \<open>The protocol: a small automaton over the outputs, in which \<open>Off_Course\<close> is never left.\<close>

datatype course = At_Start | Shaken | Lost | Heard | Moving | Move_Told | Moved | Off_Course

definition on_worker :: "course \<Rightarrow> bool" where
  "on_worker s \<longleftrightarrow> s = At_Start \<or> s = Shaken \<or> s = Lost"

fun course_step :: "bus_out \<Rightarrow> course \<Rightarrow> course" where
  "course_step (Watch_Started i worker) s = (if s = At_Start then Shaken else if s = Lost then Heard else Off_Course)"
| "course_step Ready_Told s = (if s = Shaken then Shaken else Off_Course)"
| "course_step (Bus_Failed True) s = (if s = At_Start \<or> s = Shaken then Lost else Off_Course)"
| "course_step Reconnected s = (if s = Heard then Shaken else if s = Move_Told then Moved else Off_Course)"
| "course_step Channel_Opened s = (if s = At_Start then Moving else Off_Course)"
| "course_step (Fell_Back reason) s = (if s = Moving then Move_Told else Off_Course)"
| "course_step (Bus_Failed False) s = (if on_worker s \<or> s = Moved then s else Off_Course)"
| "course_step Limit_Warned s = (if on_worker s \<or> s = Moved then s else Off_Course)"
| "course_step (Port_Closed p) s = (if on_worker s \<or> s = Moving then s else Off_Course)"
| "course_step (Watch_Stopped i) s = (if on_worker s \<or> s = Moving then s else Off_Course)"
| "course_step (Channel_Posted m) s = (if s = Moved then s else Off_Course)"
| "course_step Channel_Closed s = (if s = Moved then s else Off_Course)"
| "course_step (Delivered Via_Channel m) s = (if s = Moved then s else Off_Course)"
| "course_step (Undecodable Via_Channel f) s = (if s = Moved then s else Off_Course)"
| "course_step x s = (if on_worker s then s else Off_Course)"

fun entry_out :: "bus_entry \<Rightarrow> bus_out list" where
  "entry_out (Out x) = [x]"
| "entry_out (Performed k) = []"

definition outs :: "bus_entry list \<Rightarrow> bus_out list" where
  "outs tr = concat (map entry_out tr)"

lemma outs_simps [simp]:
  "outs [] = []" "outs (Performed k # tr) = outs tr" "outs (Out x # tr) = x # outs tr" "outs (tr @ tr') = outs tr @ outs tr'"
  "outs (map Out xs) = xs"
  by (simp_all add: outs_def o_def)

definition course_of :: "bus_out list \<Rightarrow> course" where
  "course_of xs = fold course_step xs At_Start"

text \<open>Where the bus stands: what the course must be in its state.\<close>

definition stands :: "bus \<Rightarrow> course \<Rightarrow> bool" where
  "stands b s \<longleftrightarrow> (case bu_channel b of Some c \<Rightarrow> s = Moved
     | None \<Rightarrow> (case wt_phase (bu_worker b) of Starting \<Rightarrow> s = At_Start | Ready \<Rightarrow> s = Shaken
         | Restarting \<Rightarrow> s = Lost | Other_Version \<Rightarrow> on_worker s))"

text \<open>Outputs that change nothing while the bus is with the worker.\<close>

fun passing :: "bus_out \<Rightarrow> bool" where
  "passing (Posted p m) = True"
| "passing (Port_Opened p) = True"
| "passing (Port_Closed p) = True"
| "passing (Watch_Stopped i) = True"
| "passing (Bus_Failed loss) = (\<not> loss)"
| "passing Limit_Warned = True"
| "passing (Record_Logged m) = True"
| "passing (Delivered (Via_Port p) m) = True"
| "passing (Undecodable (Via_Port p) f) = True"
| "passing _ = False"

lemma passing_step: "passing x \<Longrightarrow> on_worker s \<Longrightarrow> course_step x s = s"
  by (cases "(x, s)" rule: course_step.cases) auto

lemma passing_fold: "\<forall>x\<in>set xs. passing x \<Longrightarrow> on_worker s \<Longrightarrow> fold course_step xs s = s"
  by (induction xs) (auto simp: passing_step)

lemma stands_worker: "stands b s \<Longrightarrow> bu_channel b = None \<Longrightarrow> on_worker s"
  by (auto simp: stands_def on_worker_def split: phase.splits)

section \<open>What each operation says\<close>

lemma stopped_passing: "x \<in> set (stopped_watch w) \<Longrightarrow> passing x"
  by (auto simp: stopped_watch_def split: option.splits)

lemma send_passing: "wt_send v m w = (w', xs) \<Longrightarrow> x \<in> set xs \<Longrightarrow> passing x"
  by (auto simp: wt_send_def split: if_splits option.splits)

lemma close_passing: "wt_close w = (w', xs) \<Longrightarrow> x \<in> set xs \<Longrightarrow> passing x"
  using stopped_passing by (auto simp: wt_close_def split: if_splits)

lemma reconnect_passing: "wt_reconnect v ok w = (w', xs) \<Longrightarrow> x \<in> set xs \<Longrightarrow> passing x"
  using stopped_passing send_passing
  by (fastforce simp: wt_reconnect_def wt_say_hello_def Let_def split: if_splits prod.splits)

lemma give_up_passing: "wt_give_up_version w = (w', xs) \<Longrightarrow> x \<in> set xs \<Longrightarrow> passing x"
  using stopped_passing by (auto simp: wt_give_up_version_def split: if_splits)

text \<open>A step of the worker's transport keeps to the course.\<close>

definition kept_course :: "worker_transport \<Rightarrow> worker_transport \<Rightarrow> bus_out list \<Rightarrow> bool" where
  "kept_course w w' xs \<longleftrightarrow> (\<forall>x\<in>set xs. passing x) \<and>
     (wt_phase w' = wt_phase w \<or> wt_phase w' = Other_Version)"

definition lost_course :: "worker_transport \<Rightarrow> worker_transport \<Rightarrow> bus_out list \<Rightarrow> bool" where
  "lost_course w w' xs \<longleftrightarrow> xs = [Bus_Failed True] \<and> (wt_phase w = Starting \<or> wt_phase w = Ready) \<and> wt_phase w' = Restarting"

lemma stands_kept:
  assumes "stands b s" and "bu_channel b = None" and "bu_channel b' = None" and "kept_course (bu_worker b) (bu_worker b') xs"
  shows "stands b' (fold course_step xs s)"
proof -
  have o: "on_worker s" using stands_worker assms(1,2) by blast
  then have "fold course_step xs s = s" using passing_fold assms(4) by (simp add: kept_course_def)
  then show ?thesis using assms o by (auto simp: kept_course_def stands_def split: phase.splits)
qed

lemma stands_lost:
  assumes "stands b s" and "bu_channel b = None" and "bu_channel b' = None" and "lost_course (bu_worker b) (bu_worker b') xs"
  shows "stands b' (fold course_step xs s)"
  using assms by (auto simp: lost_course_def stands_def)

lemma send_course: "wt_send v m w = (w', xs) \<Longrightarrow> kept_course w w' xs"
  using send_passing wt_send_keeps(2) by (fastforce simp: kept_course_def)

lemma attach_course: "wt_attach v n w = (w', xs) \<Longrightarrow> kept_course w w' xs"
  using send_passing wt_attach_keeps(3) by (fastforce simp: kept_course_def wt_attach_def wt_say_hello_def)

lemma detach_course: "wt_detach v n w = (w', xs) \<Longrightarrow> kept_course w w' xs"
  using send_passing wt_detach_keeps(3) by (fastforce simp: kept_course_def wt_detach_def wt_say_hello_def)

lemma close_course: "wt_close w = (w', xs) \<Longrightarrow> kept_course w w' xs"
  using close_passing wt_close_form by (fastforce simp: kept_course_def)

lemma reconnect_course: "wt_reconnect v ok w = (w', xs) \<Longrightarrow> kept_course w w' xs"
  using reconnect_passing wt_reconnect_keeps by (fastforce simp: kept_course_def)

lemma give_up_course: "wt_give_up_version w = (w', xs) \<Longrightarrow> kept_course w w' xs"
  using give_up_passing by (auto simp: kept_course_def wt_give_up_version_def split: if_splits)

lemma lock_course: "wt_say_hello_first v w = (w', xs, ks) \<Longrightarrow> kept_course w w' xs"
  using send_passing wt_send_keeps(2)
  by (fastforce simp: kept_course_def wt_say_hello_first_def wt_say_hello_def split: option.splits prod.splits)

lemma error_course: "wt_worker_error f p ok w = (w', xs, ks) \<Longrightarrow> kept_course w w' xs"
  by (auto simp: kept_course_def wt_worker_error_def split: if_splits)

lemma version_course: "wt_version_seen f ok w = (w', xs, ks) \<Longrightarrow> kept_course w w' xs"
  using give_up_course by (fastforce simp: kept_course_def wt_version_seen_def split: if_splits prod.splits)

lemma watch_course:
  "wt_watch_granted i ok w = (w', xs, ks) \<Longrightarrow> conn_ok f rec w \<Longrightarrow> \<not> rec \<Longrightarrow> kept_course w w' xs \<or> lost_course w w' xs"
  by (cases "wt_phase w")
    (auto simp: kept_course_def lost_course_def wt_watch_granted_def wt_report_loss_def conn_ok_def split: if_splits)

lemma handshake_course:
  assumes "wt_handshake_missed v f ok w = (w', xs, ks)"
  shows "kept_course w w' xs \<or> lost_course w w' xs"
proof (cases "wt_deadline w \<and> \<not> wt_disposed w \<and> wt_phase w = Restarting")
  case True
  then have "wt_reconnect v ok (w\<lparr>wt_deadline := False\<rparr>) = (w', xs)" using assms
    by (auto simp: wt_handshake_missed_def Let_def split: if_splits prod.splits)
  from reconnect_course [OF this] show ?thesis by (simp add: kept_course_def)
next
  case False
  then show ?thesis using assms by (cases "wt_phase w")
    (auto simp: kept_course_def lost_course_def wt_handshake_missed_def wt_report_loss_def Let_def split: if_splits)
qed

section \<open>A disposed transport\<close>

fun by_itself :: "bus_task \<Rightarrow> bool" where
  "by_itself (Fall_Back reason ok) = False"
| "by_itself (Channel_Message h raw) = False"
| "by_itself Channel_Garbled = False"
| "by_itself (Call_Send m) = False"
| "by_itself (Call_Attach n) = False"
| "by_itself (Call_Detach n) = False"
| "by_itself Call_Close = False"
| "by_itself k = True"

lemma disposed_send: "wt_disposed w \<Longrightarrow> wt_send v m w = (w, [])"
  by (simp add: wt_send_def)

text \<open>What the worker's transport does by itself leaves the rest of the bus alone; disposed, it says nothing.\<close>

lemma by_itself_keeps:
  assumes "by_itself k" and "bus_perform v k b = (b', xs, ks)"
  shows "bu_channel b' = bu_channel b" "bu_closed b' = bu_closed b" "bu_fallback b' = bu_fallback b"
  using assms by (cases k; auto simp: by_worker_def by_worker_tasks_def port_message_def
      split: if_splits prod.splits sum.splits decode_failure.splits message_body.splits list.splits)+

lemma disposed_says_nothing:
  assumes "by_itself k" and "bus_perform v k b = (b', xs, ks)" and "wt_disposed (bu_worker b)" and "\<not> wt_deadline (bu_worker b)"
  shows "xs = [] \<and> wt_disposed (bu_worker b')"
  using assms by (cases k) (auto simp: by_worker_def by_worker_tasks_def port_message_def disposed_send wt_say_hello_first_def
      wt_say_hello_def wt_worker_error_def wt_handshake_missed_def wt_watch_granted_def wt_reconnect_def wt_version_seen_def
      wt_give_up_version_def split: if_splits prod.splits option.splits list.splits)

section \<open>The bus keeps to the course\<close>

lemma port_message_course:
  assumes "port_message v p h raw ok b = (b', xs, ks)" and "stands b s" and "bu_channel b = None"
  shows "stands b' (fold course_step xs s)"
proof (cases "\<exists>m worker. decode_message h raw = Inr m \<and> msg_body m = M_Welcome worker \<and>
    \<not> wt_disposed (bu_worker b) \<and> wt_port (bu_worker b) = p")
  case True
  then obtain m worker where d: "decode_message h raw = Inr m" "msg_body m = M_Welcome worker"
    "\<not> wt_disposed (bu_worker b)" "wt_port (bu_worker b) = p" by blast
  obtain w ys settles where w: "wt_welcomed (bu_fallback b) m worker (bu_worker b) = (w, ys, settles)" by (metis prod_cases3)
  have b': "b' = b\<lparr>bu_worker := w, bu_settled := (bu_settled b \<or> settles)\<rparr>" "xs = ys"
    using assms(1) d w by (auto simp: port_message_def split: if_splits)
  show ?thesis using w
  proof (cases rule: welcomed_form)
    case 1
    then show ?thesis using assms(2,3) b' by (simp add: stands_def)
  next
    case 2
    then show ?thesis using assms(2,3) b' by (auto simp: stands_def)
  qed
next
  case False
  then have "bu_worker b' = bu_worker b" "bu_channel b' = bu_channel b" "\<forall>x\<in>set xs. passing x"
    using assms(1) by (auto simp: port_message_def split: if_splits sum.splits decode_failure.splits message_body.splits)
  then show ?thesis using stands_kept [OF assms(2,3)] assms(3) by (simp add: kept_course_def)
qed

lemma fall_back_course:
  assumes "fall_back reason ok b = (b', xs, ks)" and "stands b s" and "can_move b"
  shows "stands b' (fold course_step xs s)"
proof -
  have s: "s = At_Start" using assms(2,3) by (simp add: stands_def can_move_def)
  have closing: "\<forall>x\<in>set ys. passing x \<and> (\<exists>p i. x = Port_Closed p \<or> x = Watch_Stopped i)"
    if "wt_close w = (w', ys)" for w w' ys
    using that by (auto simp: wt_close_def stopped_watch_def split: if_splits option.splits)
  then have fold: "fold course_step ys Moving = Moving" if "wt_close w = (w', ys)" for w w' ys
  proof -
    have "\<forall>x\<in>set ys. \<exists>p i. x = Port_Closed p \<or> x = Watch_Stopped i" using closing that by blast
    then show ?thesis by (induction ys) (auto simp: on_worker_def)
  qed
  show ?thesis
  proof (cases "bu_closed b \<or> bu_settled b \<or> \<not> ok")
    case True
    then have "b' = b" "\<forall>x\<in>set xs. passing x" using assms(1) by (auto simp: fall_back_def split: if_splits)
    then show ?thesis using assms(2) s passing_fold [of xs s] by (simp add: on_worker_def)
  next
    case False
    obtain w ys where w: "wt_close (bu_worker b) = (w, ys)" by fastforce
    then show ?thesis using assms(1) False s fold [OF w] by (auto simp: fall_back_def stands_def)
  qed
qed

lemma call_course:
  assumes "bus_call k" and "bus_perform v k b = (b', xs, ks)" and "stands b s"
  shows "stands b' (fold course_step xs s)"
proof (cases "bu_channel b")
  case None
  note st = stands_kept [OF assms(3) None]
  show ?thesis
  proof (cases k)
    case (Call_Send m)
    then show ?thesis using assms(2) None send_course st
      by (fastforce simp: bus_send_def by_worker_def split: prod.splits)
  next
    case (Call_Attach n)
    then show ?thesis using assms(2) None attach_course st
      by (fastforce simp: bus_attach_def by_worker_def Let_def split: prod.splits)
  next
    case (Call_Detach n)
    then show ?thesis using assms(2) None detach_course st
      by (fastforce simp: bus_detach_def by_worker_def Let_def split: prod.splits)
  next
    case Call_Close
    have "bus_close b = (b', xs, ks)" using assms(2) Call_Close by simp
    then show ?thesis
    proof (cases rule: close_form)
      case (1 w ys)
      then show ?thesis using st [of b' xs] close_course by simp
    qed (use None in simp)
  qed (use assms(1) in simp_all)
next
  case (Some c)
  then have s: "s = Moved" using assms(3) by (simp add: stands_def)
  show ?thesis using assms(1,2) s Some
    by (cases k) (auto simp: bus_send_def ch_send_def bus_attach_def bus_detach_def bus_close_def ch_close_def Let_def
        stands_def split: if_splits)
qed

lemma worker_course:
  assumes "by_itself k" and "bus_perform v k b = (b', xs, ks)" and "bus_ok rec b" and "bus_event k b \<Longrightarrow> \<not> rec"
    and "stands b s" and "bu_channel b = None"
  shows "stands b' (fold course_step xs s)"
proof -
  have c: "bu_channel b' = None" using by_itself_keeps(1) [OF assms(1,2)] assms(6) by simp
  note st = stands_kept [OF assms(5,6) c] stands_lost [OF assms(5,6) c]
  note ok = bus_okD(1) [OF assms(3)]
  show ?thesis
  proof (cases k)
    case Context_Lock_Over
    then show ?thesis using assms(2) lock_course st by (fastforce simp: by_worker_tasks_def split: prod.splits)
  next
    case (Port_Message p h raw ok)
    then show ?thesis using port_message_course assms(2,5,6) by simp
  next
    case (Port_Garbled p)
    then have "b' = b" "kept_course (bu_worker b) (bu_worker b') xs" using assms(2) by (auto simp: kept_course_def split: if_splits)
    then show ?thesis using st(1) by blast
  next
    case (Worker_Error p ok)
    then show ?thesis using assms(2) error_course st by (fastforce simp: by_worker_tasks_def split: prod.splits)
  next
    case (Deadline_Fires ok)
    then show ?thesis using assms(2) handshake_course st by (fastforce simp: by_worker_tasks_def split: prod.splits)
  next
    case (Watch_Granted i ok)
    then have "\<not> rec" using assms(4) by simp
    then show ?thesis using Watch_Granted assms(2) watch_course [OF _ \<open>conn_ok _ _ _\<close>] st
      by (fastforce simp: by_worker_tasks_def split: prod.splits)
  next
    case (Post_All ms)
    show ?thesis
    proof (cases ms)
      case Nil
      then show ?thesis using Post_All assms(2) st(1) [of "[]"] by (simp add: kept_course_def)
    next
      case (Cons m ms')
      then show ?thesis using Post_All assms(2) send_course st by (fastforce split: prod.splits)
    qed
  next
    case (Reconnect ok)
    then show ?thesis using assms(2) reconnect_course st by (fastforce simp: by_worker_def split: prod.splits)
  next
    case (Version_Seen ok)
    then show ?thesis using assms(2) version_course st by (fastforce simp: by_worker_tasks_def split: prod.splits)
  next
    case Give_Up_Version
    then show ?thesis using assms(2) give_up_course st by (fastforce simp: by_worker_def split: prod.splits)
  qed (use assms(1) in simp_all)
qed

lemma task_course:
  assumes "bus_call k \<or> below b (k # rest) \<or> bus_event k b" and "bus_ok rec b" and "by_itself k \<Longrightarrow> bus_event k b \<Longrightarrow> \<not> rec"
    and "bus_perform v k b = (b', xs, ks)" and "stands b s"
  shows "stands b' (fold course_step xs s)"
proof (cases "bus_call k")
  case True
  then show ?thesis using call_course assms(4,5) by blast
next
  case False
  show ?thesis
  proof (cases "by_itself k")
    case True
    show ?thesis
    proof (cases "bu_channel b")
      case None
      then show ?thesis using worker_course [OF True assms(4,2) assms(3) [OF True] assms(5)] by simp
    next
      case (Some c)
      then have d: "wt_disposed (bu_worker b)" using bus_okD(2) [OF assms(2)] by simp
      then have "xs = []" using disposed_says_nothing [OF True assms(4) d] conn_okD(3) [OF bus_okD(1) [OF assms(2)]] by simp
      then show ?thesis using by_itself_keeps(1) [OF True assms(4)] assms(5) Some by (simp add: stands_def)
    qed
  next
    case False
    with \<open>\<not> bus_call k\<close> consider reason ok where "k = Fall_Back reason ok" | h raw where "k = Channel_Message h raw" | "k = Channel_Garbled"
      | m where "k = Call_Send m" "is_hello m"
      by (cases k) auto
    then show ?thesis
    proof cases
      case 1
      then have "can_move b" using assms(1) below_fall_back by auto
      then show ?thesis using fall_back_course [OF _ assms(5)] assms(4) 1 by simp
    next
      case 2
      then obtain c where c: "bu_channel b = Some c" using assms(1) by (auto split: option.splits)
      then have "s = Moved" using assms(5) by (simp add: stands_def)
      moreover have "fold course_step (ch_receive v h raw c) Moved = Moved"
        by (auto simp: ch_receive_def split: sum.splits decode_failure.splits)
      ultimately show ?thesis using assms(4,5) 2 c by auto
    next
      case 3
      then obtain c where c: "bu_channel b = Some c" using assms(1) by (auto split: option.splits)
      then have "s = Moved" using assms(5) by (simp add: stands_def)
      then show ?thesis using assms(4,5) 3 by auto
    next
      case 4
      then show ?thesis using assms(1) by (auto split: message_body.splits)
    qed
  qed
qed

lemma stands_run:
  "stands (br_bus (bus_run_of v fallback hs)) (course_of (outs (br_trace (bus_run_of v fallback hs))))"
proof (induction rule: fine_induct)
  case Init
  show ?case by (simp add: stands_def br_init_def bus_init_def wt_init_def course_of_def on_worker_def)
next
  case (Step r k rest calls b xs ks)
  have ok: "bus_ok (reconnecting (br_stack r)) (br_bus r)" using Step(1) by (simp add: run_fine_def)
  have kind: "bus_call k \<or> below (br_bus r) (k # rest) \<or> bus_event k (br_bus r)"
    using takes_below [OF Step(1)] Step.hyps by blast
  have quiet: "\<not> reconnecting (br_stack r)" if "by_itself k" "bus_event k (br_bus r)"
  proof (cases "br_stack r")
    case (Cons k' rest')
    then have "br_stack r = k # rest" using Step.hyps by (auto simp: takes_def)
    then have "below (br_bus r) (k # rest)" using Step(1) that(1) by (cases k) (auto simp: run_fine_def)
    then show ?thesis using that by (cases k) auto
  qed simp
  have perf: "bus_perform v k (br_bus r) = (b, xs, ks)" using Step.hyps by blast
  from task_course [OF kind ok quiet perf] Step.IH show ?case by (simp add: course_of_def)
qed

text \<open>
  C6. The bus keeps to its protocol. Whatever is called and whatever arrives, what comes out of a bus follows the
  automaton \<open>course_step\<close>: a loss is reported only while the worker is taken to be there, once, and every
  reconnection answers the one before it; readiness is told only once the handshake is made; the channel is
  opened at most once, only before any handshake and any loss, and from then on the old port is closed, the move
  is told, and nothing is said or heard over a port again.
\<close>

theorem bus_keeps_its_course:
  "let r = bus_run_of v fallback hs; s = course_of (outs (br_trace r)) in s \<noteq> Off_Course \<and> stands (br_bus r) s"
  using stands_run [of v fallback hs]
  by (auto simp: Let_def stands_def on_worker_def split: option.splits phase.splits)

section \<open>A closed bus\<close>

definition gone :: "bus \<Rightarrow> bool" where
  "gone b \<longleftrightarrow> wt_disposed (bu_worker b) \<and> (bu_fallback b \<longrightarrow> bu_closed b) \<and>
     (case bu_channel b of None \<Rightarrow> True | Some c \<Rightarrow> ch_disposed c)"

lemma gone_task:
  assumes "gone b" and "bus_ok rec b" and "bus_call k \<or> below b (k # rest) \<or> bus_event k b" and "bus_perform v k b = (b', xs, ks)"
  shows "gone b' \<and> xs = []"
proof -
  have d: "wt_disposed (bu_worker b)" "\<not> wt_deadline (bu_worker b)"
    using assms(1) conn_okD(3) [OF bus_okD(1) [OF assms(2)]] by (simp_all add: gone_def)
  show ?thesis
  proof (cases "by_itself k")
    case True
    from disposed_says_nothing [OF this assms(4) d] by_itself_keeps [OF this assms(4)] assms(1)
    show ?thesis by (simp add: gone_def)
  next
    case False
    then show ?thesis using assms d
      by (cases k) (auto simp: gone_def bus_send_def ch_send_def by_worker_def disposed_send bus_attach_def wt_attach_def bus_detach_def
          wt_detach_def wt_say_hello_def bus_close_def wt_close_def ch_close_def fall_back_def Let_def
          can_move_def dest!: below_fall_back split: option.splits if_splits)
  qed
qed

text \<open>What closing itself says.\<close>

fun farewell :: "bus_out \<Rightarrow> bool" where
  "farewell (Watch_Stopped i) = True"
| "farewell (Port_Closed p) = True"
| "farewell Channel_Closed = True"
| "farewell _ = False"

lemma close_gone:
  assumes "bus_ok rec b" and "bus_perform v Call_Close b = (b', xs, ks)"
  shows "gone b' \<and> (\<forall>x\<in>set xs. farewell x)"
proof -
  have "bus_close b = (b', xs, ks)" using assms(2) by simp
  then show ?thesis
  proof (cases rule: close_form)
    case (1 w ys)
    have "\<forall>x\<in>set ys. farewell x" using 1(2) by (auto simp: wt_close_def stopped_watch_def split: if_splits option.splits)
    then show ?thesis using 1 wt_close_form [OF 1(2)] by (simp add: gone_def)
  next
    case (2 c c')
    then show ?thesis using bus_okD(2) [OF assms(1)] by (auto simp: gone_def ch_close_def split: if_splits)
  qed
qed

definition after_close :: "bus_entry list \<Rightarrow> bus_entry list" where
  "after_close tr = dropWhile (\<lambda>e. e \<noteq> Performed Call_Close) tr"

lemma after_close_append:
  "after_close (tr @ tr') = (if Performed Call_Close \<in> set tr then after_close tr @ tr' else after_close tr')"
  by (induction tr) (auto simp: after_close_def)

lemma after_close_outs [simp]: "after_close (map Out xs) = []"
  by (simp add: after_close_def)

lemma silent_run:
  "(Performed Call_Close \<in> set (br_trace (bus_run_of v fallback hs)) \<longrightarrow> gone (br_bus (bus_run_of v fallback hs))) \<and>
   (\<forall>x\<in>set (outs (after_close (br_trace (bus_run_of v fallback hs)))). farewell x)"
proof (induction rule: fine_induct)
  case Init
  show ?case by (simp add: br_init_def after_close_def)
next
  case (Step r k rest calls b xs ks)
  have ok: "bus_ok (reconnecting (br_stack r)) (br_bus r)" using Step(1) by (simp add: run_fine_def)
  have kind: "bus_call k \<or> below (br_bus r) (k # rest) \<or> bus_event k (br_bus r)"
    using takes_below [OF Step(1)] Step.hyps by blast
  have perf: "bus_perform v k (br_bus r) = (b, xs, ks)" using Step.hyps by blast
  show ?case
  proof (cases "Performed Call_Close \<in> set (br_trace r)")
    case True
    then have "gone (br_bus r)" using Step.IH by blast
    from gone_task [OF this ok kind perf] True Step.IH show ?thesis by (simp add: after_close_append)
  next
    case False
    show ?thesis
    proof (cases "k = Call_Close")
      case True
      then have "gone b \<and> (\<forall>x\<in>set xs. farewell x)" using close_gone [OF ok] perf by blast
      moreover have "after_close (Performed k # map Out xs) = Performed k # map Out xs" using True by (simp add: after_close_def)
      ultimately show ?thesis using False by (simp add: after_close_append)
    next
      case no: False
      have "after_close (Performed k # map Out xs) = []" using no by (simp add: after_close_def)
      then show ?thesis using False no by (auto simp: after_close_append)
    qed
  qed
qed

text \<open>
  C8. A closed bus is silent. From the call that closes it on - wherever that call comes, in the middle of a
  handshake, a restart or the move to the channel too - a bus sends nothing, opens no port and no
  channel, delivers no message and calls nobody: the only things it still does are to stop its watch
  and to close its port or its channel.
\<close>

theorem closed_bus_is_silent:
  "list_all farewell (outs (after_close (br_trace (bus_run_of v fallback hs))))"
  using silent_run by (simp add: list_all_iff)

section \<open>A bus at rest\<close>








text \<open>With a channel that cannot be built, a worker that neither loads nor answers is reported each time.\<close>

lemma failed_move_is_reported_again:
  "filter (\<lambda>x. x = Bus_Failed False) (outs (br_trace (bus_run_of v True
     [Comes (Worker_Error 0 False) [], Continues [], Comes (Deadline_Fires False) [], Continues []]))) =
   [Bus_Failed False, Bus_Failed False]"
  by (simp add: bus_run_of_def br_init_def bus_init_def wt_init_def bus_task_done_def by_worker_tasks_def wt_worker_error_def
      wt_handshake_missed_def fall_back_def Let_def)

end
