(* ===== verification/Client.thy ===== *)
theory Client
  imports Configuration_Store Validation
begin

text \<open>
  One context's view of all its configurations (\<open>client/serial-broker-client.ts\<close>): which sessions there are,
  and how \<open>setup()\<close>, \<open>restore()\<close>, \<open>release()\<close>, \<open>releaseAll()\<close> and \<open>dispose()\<close> meet.

  These are asynchronous functions. A promise is a number; what a function does after an \<open>await\<close> is a
  \<open>job\<close> that waits for one, in the order the awaits were made, and goes to the queue of microtasks when it
  settles. The promises of others - a session's release, a hold that is let go, an entry forgotten, a
  permission revoked - settle by themselves, at any time. What can call the application's listeners in the
  middle of a function, which may then call back, splits the function into tasks on a stack, as in theory
  \<open>Transports\<close>; there is one such place, the saving of the entry, whose failure is reported.

  What the store finds, whether the platform is supported and whether a bus can be built, is an
  argument of what needs it. Log records are left out.
\<close>

section \<open>The state\<close>

datatype ending = Came_Back | Threw error_code

text \<open>The promises: a call's own, a release's (\<open>#finishRelease\<close>), and those of others.\<close>

datatype promise = Of_Call nat | Of_Release nat | Of_Other nat

record release_options =
  ro_forget :: bool
  ro_forget_device :: bool

datatype job =
    Setup_Waited nat configuration
  | Release_Mine nat js_string nat
  | Release_Again nat js_string release_options
  | Forget_As_Asked nat js_string release_options
  | Forget_Device_Asked nat js_string release_options
  | Finish_Let_Go nat js_string nat release_options
  | Finish_Session nat js_string nat release_options
  | Finish_Device nat js_string nat
  | Fulfil nat
  | Restore_Next nat "configuration list" nat
  | Release_Next nat "js_string list" release_options
  | Await_All nat "nat list"
  | Dispose_Next nat "nat list"
  | Dispose_Holds nat
  | Dispose_Closing nat "nat list"

datatype client_call =
    Call_Setup "configuration checked"
  | Call_Restore "configuration list"
  | Call_Release "(js_string \<times> release_options) checked"
  | Call_Release_All "release_options checked"
  | Call_Dispose

datatype client_task =
    Call client_call
  | After_Save nat js_string nat nat
  | After_Load nat "configuration list"
  | Settles nat
  | Runs
  | Hold_Granted js_string nat nat
  | Resolves nat resolved_device
  | Bus_Reconnects

datatype client_out =
    Setup_Begins js_string
  | Setup_Waits js_string
  | Setup_Goes_On js_string
  | Built nat js_string
  | Started nat
  | Retried nat
  | Told_Reconnected nat
  | Session_Release nat nat
  | Hold_Started nat js_string nat
  | Hold_Stopped nat
  | Saved configuration
  | Forget_Entry js_string
  | Forget_Device js_string
  | Bus_Opened
  | Bus_Closed
  | Returned nat ending

record client =
  cl_disposed :: bool
  cl_bus :: bool
  cl_next :: nat
  cl_sessions :: "(js_string, nat) omap"
  cl_definition :: "nat \<Rightarrow> configuration option"
  cl_releasing :: "(js_string, nat) omap"
  cl_set_up :: "js_string list"
  cl_holds :: "(js_string, nat) omap"
  cl_outcome :: "promise \<Rightarrow> ending option"
  cl_foreign :: "nat list"
  cl_waiting :: "(promise \<times> job) list"
  cl_queue :: "job list"
  cl_stack :: "client_task list"
  cl_trace :: "client_out list"

text \<open>What the surroundings answer while one function runs.\<close>

record client_env =
  ce_support :: "error_code option"
  ce_bus :: "error_code option"
  ce_found :: "js_string \<Rightarrow> configuration option"

definition cl_init :: client where
  "cl_init = \<lparr>cl_disposed = False, cl_bus = False, cl_next = 0, cl_sessions = [], cl_definition = (\<lambda>s. None),
     cl_releasing = [], cl_set_up = [], cl_holds = [], cl_outcome = (\<lambda>p. None), cl_foreign = [], cl_waiting = [], cl_queue = [],
     cl_stack = [], cl_trace = []\<rparr>"

section \<open>Promises\<close>

definition say :: "client_out \<Rightarrow> client \<Rightarrow> client" where
  "say x s = s\<lparr>cl_trace := cl_trace s @ [x]\<rparr>"

definition fresh :: "client \<Rightarrow> nat \<times> client" where
  "fresh s = (cl_next s, s\<lparr>cl_next := Suc (cl_next s)\<rparr>)"

text \<open>A promise that settles by itself.\<close>

definition foreign :: "client \<Rightarrow> nat \<times> client" where
  "foreign s = (cl_next s, s\<lparr>cl_next := Suc (cl_next s), cl_foreign := cl_foreign s @ [cl_next s]\<rparr>)"

definition await :: "promise \<Rightarrow> job \<Rightarrow> client \<Rightarrow> client" where
  "await p j s = (if cl_outcome s p = None then s\<lparr>cl_waiting := cl_waiting s @ [(p, j)]\<rparr>
     else s\<lparr>cl_queue := cl_queue s @ [j]\<rparr>)"

text \<open>Awaiting \<open>undefined\<close>, or what has settled: the job is the next microtask but those queued before.\<close>

definition soon :: "job \<Rightarrow> client \<Rightarrow> client" where
  "soon j s = s\<lparr>cl_queue := cl_queue s @ [j]\<rparr>"

definition await_maybe :: "promise option \<Rightarrow> job \<Rightarrow> client \<Rightarrow> client" where
  "await_maybe q j s = (case q of None \<Rightarrow> soon j s | Some p \<Rightarrow> await p j s)"

text \<open>Only the first outcome of a promise counts.\<close>

definition settle :: "promise \<Rightarrow> ending \<Rightarrow> client \<Rightarrow> client" where
  "settle p r s = (if cl_outcome s p \<noteq> None then s
     else s\<lparr>cl_outcome := (cl_outcome s)(p \<mapsto> r), cl_queue := cl_queue s @ map snd (filter (\<lambda>w. fst w = p) (cl_waiting s)),
            cl_waiting := filter (\<lambda>w. fst w \<noteq> p) (cl_waiting s)\<rparr>)"

definition return :: "nat \<Rightarrow> ending \<Rightarrow> client \<Rightarrow> client" where
  "return c r s = settle (Of_Call c) r (say (Returned c r) s)"

section \<open>Setting up\<close>

text \<open>\<open>#letGoOfHold\<close>, up to its \<open>await\<close>.\<close>

definition let_go_of_hold :: "js_string \<Rightarrow> client \<Rightarrow> client" where
  "let_go_of_hold n s = (case om_get (cl_holds s) n of
     None \<Rightarrow> s
   | Some h \<Rightarrow> say (Hold_Stopped h) (s\<lparr>cl_holds := om_del n (cl_holds s)\<rparr>))"

definition remembered_resolution :: "(js_string \<Rightarrow> configuration option) \<Rightarrow> configuration \<Rightarrow> configuration" where
  "remembered_resolution found cfg =
     (if \<not> nc_remember cfg then cfg
      else case nc_device cfg of Auto None \<Rightarrow> (case found (nc_name cfg) of
          None \<Rightarrow> cfg
        | Some cfg' \<Rightarrow> (case nc_device cfg' of Auto (Some d) \<Rightarrow> cfg\<lparr>nc_device := Auto (Some d)\<rparr> | _ \<Rightarrow> cfg))
      | _ \<Rightarrow> cfg)"

text \<open>The end of \<open>setup()\<close>: \<open>start()\<close> unless a listener released the session while it was being remembered.\<close>

definition begin_session :: "nat \<Rightarrow> js_string \<Rightarrow> nat \<Rightarrow> client \<Rightarrow> client" where
  "begin_session c n x s =
     (if om_get (cl_sessions s) n \<noteq> Some x then return c Came_Back s else soon (Fulfil c) (say (Started x) s))"

definition build_session :: "client_env \<Rightarrow> nat \<Rightarrow> configuration \<Rightarrow> client \<Rightarrow> client" where
  "build_session v c cfg s =
     (let s1 = (if cl_bus s then s else say Bus_Opened (s\<lparr>cl_bus := True\<rparr>));
          cfg' = remembered_resolution (ce_found v) cfg;
          n = nc_name cfg;
          (x, s2) = fresh s1;
          s3 = say (Built x n) (s2\<lparr>cl_sessions := om_set n x (cl_sessions s2), cl_definition := (cl_definition s2)(x \<mapsto> cfg')\<rparr>)
      in if \<not> nc_remember cfg' then begin_session c n x (say (Forget_Entry n) (let_go_of_hold n s3))
         else (let (h, s4) = fresh s3
               in (say (Saved cfg') (s4\<lparr>cl_holds := om_set n h (cl_holds s4)\<rparr>))\<lparr>cl_stack := After_Save c n x h # cl_stack s4\<rparr>))"

definition after_save :: "nat \<Rightarrow> js_string \<Rightarrow> nat \<Rightarrow> nat \<Rightarrow> client \<Rightarrow> client" where
  "after_save c n x h s = begin_session c n x (if om_get (cl_holds s) n = Some h then say (Hold_Started h n x) s else s)"

definition setup_now :: "client_env \<Rightarrow> nat \<Rightarrow> configuration \<Rightarrow> client \<Rightarrow> client" where
  "setup_now v c cfg s = (case om_get (cl_sessions s) (nc_name cfg) of
     Some x \<Rightarrow>
       (if case cl_definition s x of Some d \<Rightarrow> is_device_compatible d cfg | None \<Rightarrow> False
        then return c Came_Back (say (Retried x) s) else return c (Threw CONFIGURATION_CONFLICT) s)
   | None \<Rightarrow> (case ce_support v of
         Some e \<Rightarrow> return c (Threw e) s
       | None \<Rightarrow> (case (if cl_bus s then None else ce_bus v) of
             Some e \<Rightarrow> return c (Threw e) s
           | None \<Rightarrow> build_session v c cfg s)))"

definition set_up :: "client_env \<Rightarrow> nat \<Rightarrow> configuration checked \<Rightarrow> client \<Rightarrow> client" where
  "set_up v c r s =
     (if cl_disposed s then return c (Threw CONFIGURATION_RELEASED) s
      else case r of
        Inl e \<Rightarrow> return c (Threw (err_code e)) s
      | Inr cfg \<Rightarrow> (let n = nc_name cfg; s' = say (Setup_Begins n) s in
          case om_get (cl_releasing s') n of
            Some p \<Rightarrow> await (Of_Release p) (Setup_Waited c cfg) (say (Setup_Waits n) (s'\<lparr>cl_set_up := js_add n (cl_set_up s')\<rparr>))
          | None \<Rightarrow> setup_now v c cfg s'))"

definition setup_waited :: "client_env \<Rightarrow> nat \<Rightarrow> configuration \<Rightarrow> client \<Rightarrow> client" where
  "setup_waited v c cfg s =
     (let n = nc_name cfg; s' = say (Setup_Goes_On n) (s\<lparr>cl_set_up := js_remove n (cl_set_up s)\<rparr>)
      in if cl_disposed s' then return c (Threw CONFIGURATION_RELEASED) s' else setup_now v c cfg s')"

text \<open>\<open>restore()\<close>: the entries are loaded, which may report, and then set up one after another.\<close>

fun restore_from :: "client_env \<Rightarrow> nat \<Rightarrow> configuration list \<Rightarrow> client \<Rightarrow> client" where
  "restore_from v c [] s = return c Came_Back s"
| "restore_from v c (cfg # cfgs) s =
     (if om_has (cl_sessions s) (nc_name cfg) then restore_from v c cfgs s
      else case fresh s of (c', s') \<Rightarrow> set_up v c' (Inr cfg) (await (Of_Call c') (Restore_Next c cfgs c') s'))"

definition restore :: "nat \<Rightarrow> configuration list \<Rightarrow> client \<Rightarrow> client" where
  "restore c cfgs s =
     (if cl_disposed s then return c (Threw CONFIGURATION_RELEASED) s
      else s\<lparr>cl_stack := After_Load c cfgs # cl_stack s\<rparr>)"

section \<open>Releasing\<close>

definition forget_unless_run_elsewhere :: "js_string \<Rightarrow> client \<Rightarrow> client" where
  "forget_unless_run_elsewhere n s = say (Forget_Entry n) (let_go_of_hold n s)"

text \<open>\<open>#finishRelease\<close>, whose promise is \<open>p\<close>: up to its first \<open>await\<close>, which ends by itself.\<close>

definition end_session :: "nat \<Rightarrow> js_string \<Rightarrow> nat \<Rightarrow> release_options \<Rightarrow> client \<Rightarrow> client" where
  "end_session p n x opts s =
     (let s1 = (if ro_forget opts then forget_unless_run_elsewhere n s else let_go_of_hold n s);
          (e, s2) = foreign s1
      in await (Of_Other e) (Finish_Let_Go p n x opts) s2)"

definition finish_let_go :: "nat \<Rightarrow> js_string \<Rightarrow> nat \<Rightarrow> release_options \<Rightarrow> client \<Rightarrow> client" where
  "finish_let_go p n x opts s = (let (e, s') = foreign s in await (Of_Other e) (Finish_Session p n x opts) (say (Session_Release x e) s'))"

definition finish_session :: "nat \<Rightarrow> js_string \<Rightarrow> nat \<Rightarrow> release_options \<Rightarrow> client \<Rightarrow> client" where
  "finish_session p n x opts s =
     (if ro_forget_device opts \<and> \<not> om_has (cl_sessions s) n \<and> n \<notin> set (cl_set_up s)
      then (let (e, s') = foreign s in await (Of_Other e) (Finish_Device p n x) (say (Forget_Device n) s'))
      else settle (Of_Release p) Came_Back s)"

definition release_name :: "nat \<Rightarrow> (js_string \<times> release_options) checked \<Rightarrow> client \<Rightarrow> client" where
  "release_name c r s = (case r of
     Inl e \<Rightarrow> return c (Threw (err_code e)) s
   | Inr (n, opts) \<Rightarrow> (case om_get (cl_sessions s) n of
       None \<Rightarrow> await_maybe (map_option Of_Release (om_get (cl_releasing s) n))
         (if n \<in> set (cl_set_up s) then Release_Again c n opts else Forget_As_Asked c n opts) s
     | Some x \<Rightarrow>
         (let (p, s1) = fresh (s\<lparr>cl_sessions := om_del n (cl_sessions s)\<rparr>);
              s2 = end_session p n x opts s1
          in await (Of_Release p) (Release_Mine c n p) (s2\<lparr>cl_releasing := om_set n p (cl_releasing s2)\<rparr>))))"

definition release_mine :: "nat \<Rightarrow> js_string \<Rightarrow> nat \<Rightarrow> client \<Rightarrow> client" where
  "release_mine c n p s = return c Came_Back
     (if om_get (cl_releasing s) n = Some p then s\<lparr>cl_releasing := om_del n (cl_releasing s)\<rparr> else s)"

definition release_again :: "nat \<Rightarrow> js_string \<Rightarrow> release_options \<Rightarrow> client \<Rightarrow> client" where
  "release_again c n opts s = (let (c', s') = fresh s in release_name c' (Inr (n, opts)) (await (Of_Call c') (Fulfil c) s'))"

definition forget_device_asked :: "client_env \<Rightarrow> nat \<Rightarrow> js_string \<Rightarrow> release_options \<Rightarrow> client \<Rightarrow> client" where
  "forget_device_asked v c n opts s =
     (if ro_forget_device opts \<and> \<not> om_has (cl_sessions s) n \<and> ce_found v n \<noteq> None
      then (let (e, s') = foreign s in await (Of_Other e) (Fulfil c) (say (Forget_Device n) s'))
      else return c Came_Back s)"

definition forget_as_asked :: "client_env \<Rightarrow> nat \<Rightarrow> js_string \<Rightarrow> release_options \<Rightarrow> client \<Rightarrow> client" where
  "forget_as_asked v c n opts s =
     (if ro_forget opts
      then (let (e, s') = foreign (forget_unless_run_elsewhere n s) in await (Of_Other e) (Forget_Device_Asked c n opts) s')
      else forget_device_asked v c n opts s)"

text \<open>\<open>releaseAll()\<close>, and waiting for every release there is by then.\<close>

fun await_all :: "nat \<Rightarrow> nat list \<Rightarrow> client \<Rightarrow> client" where
  "await_all c [] s = return c Came_Back s"
| "await_all c (p # ps) s = await (Of_Release p) (Await_All c ps) s"

fun release_next :: "nat \<Rightarrow> js_string list \<Rightarrow> release_options \<Rightarrow> client \<Rightarrow> client" where
  "release_next c [] opts s = await_all c (map snd (cl_releasing s)) s"
| "release_next c (n # ns) opts s =
     (case fresh s of (c', s') \<Rightarrow> release_name c' (Inr (n, opts)) (await (Of_Call c') (Release_Next c ns opts) s'))"

definition release_all :: "nat \<Rightarrow> release_options checked \<Rightarrow> client \<Rightarrow> client" where
  "release_all c r s = (case r of
     Inl e \<Rightarrow> return c (Threw (err_code e)) s
   | Inr opts \<Rightarrow> release_next c (om_keys (cl_sessions s)) opts s)"

section \<open>Disposing\<close>

fun dispose_closing :: "nat \<Rightarrow> nat list \<Rightarrow> client \<Rightarrow> client" where
  "dispose_closing c (p # ps) s = await (Of_Release p) (Dispose_Closing c ps) s"
| "dispose_closing c [] s = return c Came_Back (if cl_bus s then say Bus_Closed (s\<lparr>cl_bus := False\<rparr>) else s)"

definition dispose_holds :: "nat \<Rightarrow> client \<Rightarrow> client" where
  "dispose_holds c s =
     (let (e, s') = foreign (s\<lparr>cl_trace := cl_trace s @ map Hold_Stopped (map snd (cl_holds s))\<rparr>) in await (Of_Other e) (Dispose_Holds c) s')"

text \<open>The sessions the loop over the map has not come to: nothing is added to it any more.\<close>

definition dispose_next :: "nat \<Rightarrow> nat list \<Rightarrow> client \<Rightarrow> client" where
  "dispose_next c seen s = (case filter (\<lambda>q. snd q \<notin> set seen) (cl_sessions s) of
     [] \<Rightarrow> dispose_holds c (s\<lparr>cl_sessions := []\<rparr>)
   | (n, x) # rest \<Rightarrow> (let (e, s') = foreign s in await (Of_Other e) (Dispose_Next c (x # seen)) (say (Session_Release x e) s')))"

definition dispose_held :: "nat \<Rightarrow> client \<Rightarrow> client" where
  "dispose_held c s = dispose_closing c (map snd (cl_releasing s)) (s\<lparr>cl_holds := []\<rparr>)"

definition dispose :: "nat \<Rightarrow> client \<Rightarrow> client" where
  "dispose c s = (if cl_disposed s then return c Came_Back s else dispose_next c [] (s\<lparr>cl_disposed := True\<rparr>))"

section \<open>What comes from elsewhere\<close>

text \<open>The hold on a remembered configuration is granted: its entry is saved again.\<close>

definition hold_granted :: "js_string \<Rightarrow> nat \<Rightarrow> nat \<Rightarrow> client \<Rightarrow> client" where
  "hold_granted n x h s = (if om_get (cl_sessions s) n = Some x
     then (case cl_definition s x of Some d \<Rightarrow> say (Saved d) s | None \<Rightarrow> s) else s)"

text \<open>An auto-mode session resolved its device (\<open>resolveDevice\<close>), and the resolution is remembered.\<close>

definition resolves :: "nat \<Rightarrow> resolved_device \<Rightarrow> client \<Rightarrow> client" where
  "resolves x d s = (case cl_definition s x of None \<Rightarrow> s
   | Some cfg \<Rightarrow> (case nc_device cfg of
       Auto r \<Rightarrow> (if r = Some d then s
         else (let cfg' = cfg\<lparr>nc_device := Auto (Some d)\<rparr>; s' = s\<lparr>cl_definition := (cl_definition s)(x \<mapsto> cfg')\<rparr>
               in if nc_remember cfg' \<and> om_get (cl_sessions s') (nc_name cfg') = Some x \<and> om_has (cl_holds s') (nc_name cfg')
                  then say (Saved cfg') s' else s'))
     | _ \<Rightarrow> s))"

definition bus_reconnects :: "client \<Rightarrow> client" where
  "bus_reconnects s = (if cl_bus s then s\<lparr>cl_trace := cl_trace s @ map Told_Reconnected (map snd (cl_sessions s))\<rparr> else s)"

section \<open>Steps\<close>

fun run_job :: "client_env \<Rightarrow> job \<Rightarrow> client \<Rightarrow> client" where
  "run_job v (Setup_Waited c cfg) s = setup_waited v c cfg s"
| "run_job v (Release_Mine c n p) s = release_mine c n p s"
| "run_job v (Release_Again c n opts) s = release_again c n opts s"
| "run_job v (Forget_As_Asked c n opts) s = forget_as_asked v c n opts s"
| "run_job v (Forget_Device_Asked c n opts) s = forget_device_asked v c n opts s"
| "run_job v (Finish_Let_Go p n x opts) s = finish_let_go p n x opts s"
| "run_job v (Finish_Session p n x opts) s = finish_session p n x opts s"
| "run_job v (Finish_Device p n x) s = settle (Of_Release p) Came_Back s"
| "run_job v (Fulfil c) s = return c Came_Back s"
| "run_job v (Restore_Next c cfgs c') s = (case cl_outcome s (Of_Call c') of
     Some (Threw e) \<Rightarrow> return c (Threw e) s
   | _ \<Rightarrow> restore_from v c cfgs s)"
| "run_job v (Release_Next c ns opts) s = release_next c ns opts s"
| "run_job v (Await_All c ps) s = await_all c ps s"
| "run_job v (Dispose_Next c seen) s = dispose_next c seen s"
| "run_job v (Dispose_Holds c) s = dispose_held c s"
| "run_job v (Dispose_Closing c ps) s = dispose_closing c ps s"

fun run_call :: "client_env \<Rightarrow> client_call \<Rightarrow> client \<Rightarrow> client" where
  "run_call v (Call_Setup r) s = (case fresh s of (c, s') \<Rightarrow> set_up v c r s')"
| "run_call v (Call_Restore cfgs) s = (case fresh s of (c, s') \<Rightarrow> restore c cfgs s')"
| "run_call v (Call_Release r) s = (case fresh s of (c, s') \<Rightarrow> release_name c r s')"
| "run_call v (Call_Release_All r) s = (case fresh s of (c, s') \<Rightarrow> release_all c r s')"
| "run_call v Call_Dispose s = (case fresh s of (c, s') \<Rightarrow> dispose c s')"

fun run_task :: "client_env \<Rightarrow> client_task \<Rightarrow> client \<Rightarrow> client" where
  "run_task v (Call k) s = run_call v k s"
| "run_task v (After_Save c n x h) s = after_save c n x h s"
| "run_task v (After_Load c cfgs) s = restore_from v c cfgs s"
| "run_task v (Settles e) s = settle (Of_Other e) Came_Back s"
| "run_task v Runs s = (case cl_queue s of [] \<Rightarrow> s | j # rest \<Rightarrow> run_job v j (s\<lparr>cl_queue := rest\<rparr>))"
| "run_task v (Hold_Granted n x h) s = hold_granted n x h s"
| "run_task v (Resolves x d) s = resolves x d s"
| "run_task v Bus_Reconnects s = bus_reconnects s"

text \<open>What may come when nothing is running: a call, a promise of others settling, the next microtask, a hold
  granted that was asked for and not let go, a device a session resolved, and word from the bus.\<close>

fun may_come :: "client_task \<Rightarrow> client \<Rightarrow> bool" where
  "may_come (After_Save c n x h) s = False"
| "may_come (After_Load c cfgs) s = False"
| "may_come (Settles p) s = (p \<in> set (cl_foreign s))"
| "may_come (Hold_Granted n x h) s = (Hold_Started h n x \<in> set (cl_trace s) \<and> Hold_Stopped h \<notin> set (cl_trace s))"
| "may_come k s = True"

datatype client_happening = Occurs client_task client_env "client_call list" | Proceeds client_env "client_call list"

definition client_task_done :: "client_env \<Rightarrow> client_task \<Rightarrow> client_call list \<Rightarrow> client \<Rightarrow> client" where
  "client_task_done v k calls s = (let s' = run_task v k s in s'\<lparr>cl_stack := map Call calls @ cl_stack s'\<rparr>)"

fun client_step :: "client_happening \<Rightarrow> client \<Rightarrow> client" where
  "client_step (Occurs k v calls) s = (if cl_stack s = [] \<and> may_come k s then client_task_done v k calls s else s)"
| "client_step (Proceeds v calls) s = (case cl_stack s of [] \<Rightarrow> s | k # rest \<Rightarrow> client_task_done v k calls (s\<lparr>cl_stack := rest\<rparr>))"

definition client_after :: "client_happening list \<Rightarrow> client" where
  "client_after hs = fold client_step hs cl_init"

end
