(* ===== verification/Client_Runs.thy ===== *)
theory Client_Runs
  imports Client "HOL-Library.Multiset"
begin

text \<open>
  What holds of a client however its functions meet (theory \<open>Client\<close>), as long as the application does
  not set a name up again while it is waiting for the name's release: a name never has two sessions.
\<close>

section \<open>Jobs\<close>

definition jobs :: "client \<Rightarrow> job multiset" where
  "jobs s = mset (map snd (cl_waiting s)) + mset (cl_queue s)"

fun sets_up :: "js_string \<Rightarrow> job \<Rightarrow> bool" where
  "sets_up n (Setup_Waited c cfg) = (nc_name cfg = n)"
| "sets_up n _ = False"

fun finishes :: "js_string \<Rightarrow> job \<Rightarrow> bool" where
  "finishes n (Finish_Let_Go p m x opts) = (m = n)"
| "finishes n (Finish_Session p m x opts) = (m = n)"
| "finishes n (Finish_Device p m x) = (m = n)"
| "finishes n _ = False"

fun release_of :: "job \<Rightarrow> nat option" where
  "release_of (Finish_Let_Go p m x opts) = Some p"
| "release_of (Finish_Session p m x opts) = Some p"
| "release_of (Finish_Device p m x) = Some p"
| "release_of _ = None"

fun is_mine :: "job \<Rightarrow> bool" where
  "is_mine (Release_Mine c n p) = True"
| "is_mine _ = False"

definition plain_job :: "job \<Rightarrow> bool" where
  "plain_job j \<longleftrightarrow> (\<forall>n. \<not> sets_up n j \<and> \<not> finishes n j) \<and> \<not> is_mine j"

definition setups :: "js_string \<Rightarrow> client \<Rightarrow> job multiset" where
  "setups n s = filter_mset (sets_up n) (jobs s)"

definition finishing :: "js_string \<Rightarrow> client \<Rightarrow> job multiset" where
  "finishing n s = filter_mset (finishes n) (jobs s)"

definition has_finish :: "nat \<Rightarrow> js_string \<Rightarrow> client \<Rightarrow> bool" where
  "has_finish p n s \<longleftrightarrow> (\<exists>j. j \<in># jobs s \<and> finishes n j \<and> release_of j = Some p)"

definition waits_on :: "promise \<Rightarrow> client \<Rightarrow> job list" where
  "waits_on q s = filter (\<lambda>j. \<not> plain_job j) (map snd (filter (\<lambda>w. fst w = q) (cl_waiting s)))"

text \<open>The release's own continuation comes before any setup that waited for it.\<close>

definition mine :: "js_string \<Rightarrow> nat \<Rightarrow> job \<Rightarrow> bool" where
  "mine n p j \<longleftrightarrow> (\<exists>c. j = Release_Mine c n p)"

fun mine_first :: "js_string \<Rightarrow> nat \<Rightarrow> job list \<Rightarrow> bool" where
  "mine_first n p [] = False"
| "mine_first n p (j # ks) = (mine n p j \<or> \<not> sets_up n j \<and> mine_first n p ks)"

definition releasing_ok :: "js_string \<Rightarrow> nat \<Rightarrow> client \<Rightarrow> bool" where
  "releasing_ok n p s \<longleftrightarrow> p < cl_next s \<and>
     (if cl_outcome s (Of_Release p) = None
      then has_finish p n s \<and> (\<exists>c rest. waits_on (Of_Release p) s = Release_Mine c n p # rest)
      else \<not> om_has (cl_sessions s) n \<and> finishing n s = {#} \<and> mine_first n p (cl_queue s))"

definition name_ok :: "js_string \<Rightarrow> client \<Rightarrow> bool" where
  "name_ok n s \<longleftrightarrow>
     size (finishing n s) + (if om_has (cl_sessions s) n then 1 else 0) \<le> 1 \<and>
     size (setups n s) = (if n \<in> set (cl_set_up s) then 1 else 0) \<and>
     (\<forall>p. has_finish p n s \<longrightarrow> om_get (cl_releasing s) n = Some p \<and> cl_outcome s (Of_Release p) = None) \<and>
     (\<forall>q j. (q, j) \<in> set (cl_waiting s) \<longrightarrow> sets_up n j \<longrightarrow> (\<exists>p. q = Of_Release p \<and> has_finish p n s)) \<and>
     (\<forall>j. j \<in> set (cl_queue s) \<longrightarrow> sets_up n j \<longrightarrow> \<not> om_has (cl_sessions s) n \<and> finishing n s = {#}) \<and>
     (\<forall>p. om_get (cl_releasing s) n = Some p \<longrightarrow> releasing_ok n p s)"

definition promises_ok :: "client \<Rightarrow> bool" where
  "promises_ok s \<longleftrightarrow>
     (\<forall>p. cl_next s \<le> p \<longrightarrow> cl_outcome s (Of_Release p) = None \<and> waits_on (Of_Release p) s = []) \<and>
     (\<forall>c n p. Release_Mine c n p \<in> set (cl_queue s) \<longrightarrow> cl_outcome s (Of_Release p) \<noteq> None) \<and>
     (\<forall>q c n p. (q, Release_Mine c n p) \<in> set (cl_waiting s) \<longrightarrow> q = Of_Release p)"

definition names_ok :: "client \<Rightarrow> bool" where
  "names_ok s \<longleftrightarrow> (\<forall>n. name_ok n s) \<and> promises_ok s"

lemma name_okD:
  assumes "name_ok n s"
  shows "om_has (cl_sessions s) n \<Longrightarrow> finishing n s = {#}"
    and "size (finishing n s) \<le> 1"
    and "n \<in> set (cl_set_up s) \<Longrightarrow> size (setups n s) = 1" "n \<notin> set (cl_set_up s) \<Longrightarrow> setups n s = {#}"
    and "has_finish p n s \<Longrightarrow> om_get (cl_releasing s) n = Some p" "has_finish p n s \<Longrightarrow> cl_outcome s (Of_Release p) = None"
    and "(q, j) \<in> set (cl_waiting s) \<Longrightarrow> sets_up n j \<Longrightarrow> \<exists>p. q = Of_Release p \<and> has_finish p n s"
    and "j \<in> set (cl_queue s) \<Longrightarrow> sets_up n j \<Longrightarrow> \<not> om_has (cl_sessions s) n"
    and "j \<in> set (cl_queue s) \<Longrightarrow> sets_up n j \<Longrightarrow> finishing n s = {#}"
    and "om_get (cl_releasing s) n = Some p \<Longrightarrow> releasing_ok n p s"
  using assms unfolding name_ok_def by (auto split: if_splits)

lemma name_okI:
  assumes "om_has (cl_sessions s) n \<Longrightarrow> finishing n s = {#}" and "size (finishing n s) \<le> 1"
    and "size (setups n s) = (if n \<in> set (cl_set_up s) then 1 else 0)"
    and "\<And>p. has_finish p n s \<Longrightarrow> om_get (cl_releasing s) n = Some p \<and> cl_outcome s (Of_Release p) = None"
    and "\<And>q j. (q, j) \<in> set (cl_waiting s) \<Longrightarrow> sets_up n j \<Longrightarrow> \<exists>p. q = Of_Release p \<and> has_finish p n s"
    and "\<And>j. j \<in> set (cl_queue s) \<Longrightarrow> sets_up n j \<Longrightarrow> \<not> om_has (cl_sessions s) n \<and> finishing n s = {#}"
    and "\<And>p. om_get (cl_releasing s) n = Some p \<Longrightarrow> releasing_ok n p s"
  shows "name_ok n s"
  using assms unfolding name_ok_def by simp

lemma name_ok_transfer:
  assumes "name_ok n s"
    and "om_has (cl_sessions s') n \<Longrightarrow> om_has (cl_sessions s) n"
    and "finishing n s' = finishing n s" and "\<And>p. has_finish p n s' = has_finish p n s"
    and "size (setups n s') = (if n \<in> set (cl_set_up s') then 1 else 0)"
    and "\<And>p. has_finish p n s \<Longrightarrow> om_get (cl_releasing s) n = Some p \<Longrightarrow> cl_outcome s (Of_Release p) = None \<Longrightarrow>
      om_get (cl_releasing s') n = Some p \<and> cl_outcome s' (Of_Release p) = None"
    and "\<And>q j. (q, j) \<in> set (cl_waiting s') \<Longrightarrow> sets_up n j \<Longrightarrow>
      (q, j) \<in> set (cl_waiting s) \<or> (\<exists>p. q = Of_Release p \<and> has_finish p n s)"
    and "\<And>j. j \<in> set (cl_queue s') \<Longrightarrow> sets_up n j \<Longrightarrow>
      j \<in> set (cl_queue s) \<or> (\<not> om_has (cl_sessions s) n \<and> finishing n s = {#})"
    and "\<And>p. om_get (cl_releasing s') n = Some p \<Longrightarrow> releasing_ok n p s'"
  shows "name_ok n s'"
proof (rule name_okI, goal_cases)
  case 1
  then show ?case using name_okD(1) [OF assms(1) assms(2)] assms(3) by simp
next
  case 2
  then show ?case using name_okD(2) [OF assms(1)] assms(3) by simp
next
  case 3
  then show ?case by (rule assms(5))
next
  case (4 p)
  then have "has_finish p n s" using assms(4) by simp
  then show ?case using assms(6) name_okD(5,6) [OF assms(1)] by blast
next
  case (5 q j)
  then show ?case using assms(7) [OF 5] name_okD(7) [OF assms(1) _ 5(2)] assms(4) by blast
next
  case (6 j)
  then show ?case using assms(8) [OF 6] name_okD(8,9) [OF assms(1) _ 6(2)] assms(2,3) by auto
next
  case (7 p)
  then show ?case by (rule assms(9))
qed

lemma name_okD_size: "name_ok n s \<Longrightarrow> size (setups n s) = (if n \<in> set (cl_set_up s) then 1 else 0)"
  by (simp add: name_ok_def)

lemma promises_okD:
  assumes "promises_ok s"
  shows "cl_next s \<le> p \<Longrightarrow> cl_outcome s (Of_Release p) = None" "cl_next s \<le> p \<Longrightarrow> waits_on (Of_Release p) s = []"
    "Release_Mine c n p \<in> set (cl_queue s) \<Longrightarrow> cl_outcome s (Of_Release p) \<noteq> None"
    "(q, Release_Mine c n p) \<in> set (cl_waiting s) \<Longrightarrow> q = Of_Release p"
  using assms unfolding promises_ok_def by blast+

lemma promises_ok_transfer:
  assumes "promises_ok s"
    and "\<And>p. cl_next s' \<le> p \<Longrightarrow> cl_next s \<le> p \<and> cl_outcome s' (Of_Release p) = cl_outcome s (Of_Release p) \<and>
      waits_on (Of_Release p) s' = waits_on (Of_Release p) s"
    and "\<And>c n p. Release_Mine c n p \<in> set (cl_queue s') \<Longrightarrow>
      Release_Mine c n p \<in> set (cl_queue s) \<and> cl_outcome s' (Of_Release p) = cl_outcome s (Of_Release p) \<or>
      cl_outcome s' (Of_Release p) \<noteq> None"
    and "\<And>q c n p. (q, Release_Mine c n p) \<in> set (cl_waiting s') \<Longrightarrow>
      (q, Release_Mine c n p) \<in> set (cl_waiting s) \<or> q = Of_Release p"
  shows "promises_ok s'"
  unfolding promises_ok_def
proof (intro conjI allI impI)
  fix p assume "cl_next s' \<le> p"
  then show "cl_outcome s' (Of_Release p) = None" "waits_on (Of_Release p) s' = []"
    using assms(2) promises_okD(1,2) [OF assms(1)] by metis+
next
  fix c n p assume "Release_Mine c n p \<in> set (cl_queue s')"
  then show "cl_outcome s' (Of_Release p) \<noteq> None" using assms(3) promises_okD(3) [OF assms(1)] by metis
next
  fix q c n p assume "(q, Release_Mine c n p) \<in> set (cl_waiting s')"
  then show "q = Of_Release p" using assms(4) promises_okD(4) [OF assms(1)] by metis
qed

lemma names_okD: "names_ok s \<Longrightarrow> name_ok n s" "names_ok s \<Longrightarrow> promises_ok s"
  by (simp_all add: names_ok_def)

lemma mine_first_append: "mine_first n p ks \<Longrightarrow> mine_first n p (ks @ ks')"
  by (induction ks) auto

lemma releasing_okD:
  assumes "releasing_ok n p s"
  shows "p < cl_next s" "cl_outcome s (Of_Release p) = None \<Longrightarrow> has_finish p n s"
    "cl_outcome s (Of_Release p) = None \<Longrightarrow> \<exists>c rest. waits_on (Of_Release p) s = Release_Mine c n p # rest"
    "cl_outcome s (Of_Release p) \<noteq> None \<Longrightarrow> \<not> om_has (cl_sessions s) n"
    "cl_outcome s (Of_Release p) \<noteq> None \<Longrightarrow> finishing n s = {#}"
    "cl_outcome s (Of_Release p) \<noteq> None \<Longrightarrow> mine_first n p (cl_queue s)"
  using assms unfolding releasing_ok_def by (simp_all split: if_splits)

lemma jobs_simps [simp]:
  "jobs (s\<lparr>cl_trace := t\<rparr>) = jobs s" "jobs (s\<lparr>cl_stack := k\<rparr>) = jobs s" "jobs (s\<lparr>cl_holds := h\<rparr>) = jobs s"
  "jobs (s\<lparr>cl_definition := d\<rparr>) = jobs s" "jobs (s\<lparr>cl_disposed := b\<rparr>) = jobs s" "jobs (s\<lparr>cl_bus := b\<rparr>) = jobs s"
  "jobs (s\<lparr>cl_foreign := es\<rparr>) = jobs s" "jobs (s\<lparr>cl_next := i\<rparr>) = jobs s" "jobs (s\<lparr>cl_sessions := m\<rparr>) = jobs s"
  "jobs (s\<lparr>cl_releasing := r\<rparr>) = jobs s" "jobs (s\<lparr>cl_set_up := w\<rparr>) = jobs s" "jobs (s\<lparr>cl_outcome := f\<rparr>) = jobs s"
  by (simp_all add: jobs_def)

lemmas name_defs = name_ok_def setups_def finishing_def has_finish_def releasing_ok_def waits_on_def

lemma name_ok_frame [simp]:
  "name_ok n (s\<lparr>cl_trace := t\<rparr>) = name_ok n s" "name_ok n (s\<lparr>cl_stack := k\<rparr>) = name_ok n s"
  "name_ok n (s\<lparr>cl_holds := h\<rparr>) = name_ok n s" "name_ok n (s\<lparr>cl_definition := d\<rparr>) = name_ok n s"
  "name_ok n (s\<lparr>cl_disposed := b\<rparr>) = name_ok n s" "name_ok n (s\<lparr>cl_bus := b\<rparr>) = name_ok n s"
  "name_ok n (s\<lparr>cl_foreign := es\<rparr>) = name_ok n s"
  by (simp_all add: name_defs)

lemma promises_ok_frame [simp]:
  "promises_ok (s\<lparr>cl_trace := t\<rparr>) = promises_ok s" "promises_ok (s\<lparr>cl_stack := k\<rparr>) = promises_ok s"
  "promises_ok (s\<lparr>cl_holds := h\<rparr>) = promises_ok s" "promises_ok (s\<lparr>cl_definition := d\<rparr>) = promises_ok s"
  "promises_ok (s\<lparr>cl_disposed := b\<rparr>) = promises_ok s" "promises_ok (s\<lparr>cl_bus := b\<rparr>) = promises_ok s"
  "promises_ok (s\<lparr>cl_foreign := es\<rparr>) = promises_ok s" "promises_ok (s\<lparr>cl_sessions := m\<rparr>) = promises_ok s"
  "promises_ok (s\<lparr>cl_releasing := r\<rparr>) = promises_ok s" "promises_ok (s\<lparr>cl_set_up := w\<rparr>) = promises_ok s"
  by (simp_all add: promises_ok_def waits_on_def)

lemma names_ok_frame [simp]:
  "names_ok (s\<lparr>cl_trace := t\<rparr>) = names_ok s" "names_ok (s\<lparr>cl_stack := k\<rparr>) = names_ok s"
  "names_ok (s\<lparr>cl_holds := h\<rparr>) = names_ok s" "names_ok (s\<lparr>cl_definition := d\<rparr>) = names_ok s"
  "names_ok (s\<lparr>cl_disposed := b\<rparr>) = names_ok s" "names_ok (s\<lparr>cl_bus := b\<rparr>) = names_ok s"
  "names_ok (s\<lparr>cl_foreign := es\<rparr>) = names_ok s"
  by (simp_all add: names_ok_def)

lemma names_ok_next: "names_ok s \<Longrightarrow> cl_next s \<le> i \<Longrightarrow> names_ok (s\<lparr>cl_next := i\<rparr>)"
proof -
  assume ok: "names_ok s" and le: "cl_next s \<le> i"
  let ?s = "s\<lparr>cl_next := i\<rparr>"
  have same: "setups n ?s = setups n s" "finishing n ?s = finishing n s" "has_finish p n ?s = has_finish p n s"
    "waits_on q ?s = waits_on q s" for n p q
    by (simp_all add: setups_def finishing_def has_finish_def waits_on_def)
  have "releasing_ok n p s \<Longrightarrow> releasing_ok n p ?s" for n p using le by (auto simp: releasing_ok_def same split: if_splits)
  then have "name_ok n ?s" for n using ok unfolding names_ok_def name_ok_def same by simp
  moreover have "promises_ok ?s" using ok le unfolding names_ok_def promises_ok_def same by simp
  ultimately show ?thesis by (simp add: names_ok_def)
qed

section \<open>Waiting and settling\<close>

text \<open>A job that is neither a setup nor of a release may be added anywhere.\<close>

lemma plain_jobD: "plain_job j \<Longrightarrow> \<not> sets_up n j" "plain_job j \<Longrightarrow> \<not> finishes n j" "plain_job j \<Longrightarrow> \<not> is_mine j"
  by (simp_all add: plain_job_def)

lemma plain_job_mine: "plain_job j \<Longrightarrow> j \<noteq> Release_Mine c n p"
  by (auto simp: plain_job_def)

lemma names_soon:
  assumes "names_ok s" and "plain_job j"
  shows "names_ok (s\<lparr>cl_queue := cl_queue s @ [j]\<rparr>)"
proof -
  let ?s = "s\<lparr>cl_queue := cl_queue s @ [j]\<rparr>"
  have same: "setups n ?s = setups n s" "finishing n ?s = finishing n s" "has_finish p n ?s = has_finish p n s"
    "waits_on q ?s = waits_on q s" for n p q
    using plain_jobD [OF assms(2)] by (auto simp: setups_def finishing_def has_finish_def waits_on_def jobs_def)
  have "releasing_ok n p s \<Longrightarrow> releasing_ok n p ?s" for n p
    using mine_first_append by (auto simp: releasing_ok_def same split: if_splits)
  then have "name_ok n ?s" for n
    using assms(1) plain_jobD [OF assms(2)] unfolding names_ok_def name_ok_def same by auto
  moreover have "promises_ok ?s"
    using assms(1) plain_job_mine [OF assms(2)] unfolding names_ok_def promises_ok_def same by auto
  ultimately show ?thesis by (simp add: names_ok_def)
qed

lemma names_wait:
  assumes "names_ok s" and "plain_job j"
  shows "names_ok (s\<lparr>cl_waiting := cl_waiting s @ [(q, j)]\<rparr>)"
proof -
  let ?s = "s\<lparr>cl_waiting := cl_waiting s @ [(q, j)]\<rparr>"
  have same: "setups n ?s = setups n s" "finishing n ?s = finishing n s" "has_finish p n ?s = has_finish p n s"
    "waits_on q' ?s = waits_on q' s" for n p q'
    using plain_jobD [OF assms(2)] assms(2) by (auto simp: setups_def finishing_def has_finish_def waits_on_def jobs_def)
  have "releasing_ok n p s \<Longrightarrow> releasing_ok n p ?s" for n p
    by (auto simp: releasing_ok_def same split: if_splits)
  then have "name_ok n ?s" for n
    using assms(1) plain_jobD [OF assms(2)] unfolding names_ok_def name_ok_def same by auto
  moreover have "promises_ok ?s"
    using assms(1) plain_job_mine [OF assms(2)] unfolding names_ok_def promises_ok_def same by auto
  ultimately show ?thesis by (simp add: names_ok_def)
qed

lemma names_await: "names_ok s \<Longrightarrow> plain_job j \<Longrightarrow> names_ok (await q j s)"
  by (simp add: await_def names_soon names_wait)

lemma jobs_settle [simp]: "jobs (settle q r s) = jobs s"
proof -
  have "mset (map snd (filter (\<lambda>w. fst w = q) ws)) + mset (map snd (filter (\<lambda>w. fst w \<noteq> q) ws)) = mset (map snd ws)" for ws :: "(promise \<times> job) list"
    by (induction ws) auto
  from this [of "cl_waiting s"] show ?thesis by (simp add: settle_def jobs_def ac_simps)
qed

lemma settle_simps [simp]:
  "cl_sessions (settle q r s) = cl_sessions s" "cl_releasing (settle q r s) = cl_releasing s" "cl_set_up (settle q r s) = cl_set_up s"
  "cl_next (settle q r s) = cl_next s" "cl_trace (settle q r s) = cl_trace s" "cl_disposed (settle q r s) = cl_disposed s"
  "cl_stack (settle q r s) = cl_stack s"
  by (simp_all add: settle_def)

text \<open>Settling a promise other than a release's moves no setup.\<close>

lemma names_settle:
  assumes "names_ok s" and "\<And>p. q \<noteq> Of_Release p"
  shows "names_ok (settle q r s)"
proof (cases "cl_outcome s q = None")
  case True
  let ?s = "settle q r s"
  have same: "setups n ?s = setups n s" "finishing n ?s = finishing n s" "has_finish p n ?s = has_finish p n s" for n p
    by (simp_all add: setups_def finishing_def has_finish_def)
  have out: "cl_outcome ?s (Of_Release p) = cl_outcome s (Of_Release p)" for p
    using assms(2) [of p] by (auto simp: settle_def)
  have wait: "waits_on (Of_Release p) ?s = waits_on (Of_Release p) s" for p
    using True assms(2) by (auto simp: waits_on_def settle_def intro!: arg_cong [of _ _ "filter _"] arg_cong [of _ _ "map _"] filter_cong)
  have queue: "cl_queue ?s = cl_queue s @ map snd (filter (\<lambda>w. fst w = q) (cl_waiting s))"
    "set (cl_waiting ?s) \<subseteq> set (cl_waiting s)" using True by (auto simp: settle_def)
  have moved: "\<not> sets_up n j \<and> \<not> is_mine j" if "(q, j) \<in> set (cl_waiting s)" for n j
  proof
    show "\<not> sets_up n j" using name_okD(7) [OF names_okD(1) [OF assms(1)] that] assms(2) by blast
    show "\<not> is_mine j"
    proof
      assume "is_mine j"
      then obtain c m p where "j = Release_Mine c m p" by (cases j) auto
      then show False using promises_okD(4) [OF names_okD(2) [OF assms(1)]] that assms(2) by blast
    qed
  qed
  have rel: "releasing_ok n p s \<Longrightarrow> releasing_ok n p ?s" for n p
    using mine_first_append by (auto simp: releasing_ok_def same out wait queue split: if_splits)
  have "name_ok n ?s" for n
  proof -
    note ok = names_okD(1) [OF assms(1), of n]
    show ?thesis
    proof (rule name_ok_transfer [OF ok], goal_cases)
      case (7 j)
      then show ?case using moved queue(1) by auto
    qed (use name_okD_size [OF ok] rel name_okD(10) [OF ok] queue(2) in \<open>auto simp: same out\<close>)
  qed
  moreover have "promises_ok ?s"
  proof -
    note pr = promises_okD [OF names_okD(2) [OF assms(1)]]
    have "Release_Mine c n p \<in> set (cl_queue s)" if "Release_Mine c n p \<in> set (cl_queue ?s)" for c n p
      using that moved queue(1) by force
    then have "cl_outcome s (Of_Release p) \<noteq> None" if "Release_Mine c n p \<in> set (cl_queue ?s)" for c n p
      using pr(3) that by blast
    then show ?thesis using pr(1,2,4) queue(2) unfolding promises_ok_def out wait settle_simps by blast
  qed
  ultimately show ?thesis by (simp add: names_ok_def)
qed (use assms(1) in \<open>simp add: settle_def\<close>)

section \<open>The steps of a release and of a setup\<close>

lemma finishing_has: "finishing n s \<noteq> {#} \<Longrightarrow> \<exists>p. has_finish p n s"
proof -
  assume "finishing n s \<noteq> {#}"
  then obtain j where j: "j \<in># jobs s" "finishes n j" by (auto simp: finishing_def filter_mset_eq_mempty_iff elim!: multiset_nonemptyE)
  then obtain p where "release_of j = Some p" by (cases j) auto
  then show ?thesis using j unfolding has_finish_def by blast
qed

lemma has_finishing: "has_finish p n s \<Longrightarrow> finishing n s \<noteq> {#}"
  by (auto simp: has_finish_def finishing_def filter_mset_eq_mempty_iff)

lemma finishes_unique: "finishes n j \<Longrightarrow> finishes m j \<Longrightarrow> m = n"
  by (cases j) auto

text \<open>A name neither of whose releases is under way.\<close>

lemma not_releasing:
  assumes "name_ok n s" and "om_get (cl_releasing s) n = None"
  shows "finishing n s = {#}"
  using finishing_has name_okD(5) [OF assms(1)] assms(2) by fastforce

lemma names_pop_plain:
  assumes "names_ok s" and "cl_queue s = j # rest" and "plain_job j"
  shows "names_ok (s\<lparr>cl_queue := rest\<rparr>)"
proof -
  let ?s = "s\<lparr>cl_queue := rest\<rparr>"
  have same: "setups n ?s = setups n s" "finishing n ?s = finishing n s" "has_finish p n ?s = has_finish p n s"
    "waits_on q ?s = waits_on q s" for n p q
    using plain_jobD [OF assms(3)] assms(2) by (auto simp: setups_def finishing_def has_finish_def waits_on_def jobs_def)
  have rel: "releasing_ok n p ?s" if "releasing_ok n p s" for n p
  proof -
    have "mine_first n p (cl_queue s) \<Longrightarrow> mine_first n p rest"
      using plain_job_mine [OF assms(3)] assms(2) by (simp add: mine_def)
    then show ?thesis using that by (auto simp: releasing_ok_def same split: if_splits)
  qed
  have "name_ok n ?s" for n
  proof -
    note ok = names_okD(1) [OF assms(1), of n]
    show ?thesis by (rule name_ok_transfer [OF ok])
      (use name_okD_size [OF ok] rel name_okD(10) [OF ok] assms(2) in \<open>auto simp: same\<close>)
  qed
  moreover have "promises_ok ?s"
    by (rule promises_ok_transfer [OF names_okD(2) [OF assms(1)]]) (use assms(2) in \<open>auto simp: same\<close>)
  ultimately show ?thesis by (simp add: names_ok_def)
qed

lemma names_pop_mine:
  assumes "names_ok s" and "cl_queue s = Release_Mine c n p # rest"
  shows "names_ok (if om_get (cl_releasing s) n = Some p then s\<lparr>cl_queue := rest, cl_releasing := om_del n (cl_releasing s)\<rparr>
    else s\<lparr>cl_queue := rest\<rparr>)" (is "names_ok ?s")
proof -
  have s: "cl_queue ?s = rest" "cl_waiting ?s = cl_waiting s" "cl_sessions ?s = cl_sessions s" "cl_set_up ?s = cl_set_up s"
    "cl_outcome ?s = cl_outcome s" "cl_next ?s = cl_next s"
    and r: "om_get (cl_releasing ?s) = (if om_get (cl_releasing s) n = Some p then (om_get (cl_releasing s))(n := None)
      else om_get (cl_releasing s))" by simp_all
  have same: "setups m ?s = setups m s" "finishing m ?s = finishing m s" "has_finish q m ?s = has_finish q m s"
    "waits_on w ?s = waits_on w s" for m q w
    using assms(2) by (auto simp: setups_def finishing_def has_finish_def waits_on_def jobs_def s)
  have settled: "cl_outcome s (Of_Release p) \<noteq> None"
    using promises_okD(3) [OF names_okD(2) [OF assms(1)]] assms(2) by auto
  have "name_ok m ?s" for m
  proof -
    note ok = name_okD [OF names_okD(1) [OF assms(1), of m]]
    have rel: "releasing_ok m q ?s" if "om_get (cl_releasing ?s) m = Some q" for q
    proof -
      have q: "om_get (cl_releasing s) m = Some q" "\<not> (m = n \<and> q = p)" using that r by (auto split: if_splits)
      then have "mine_first m q (cl_queue s) \<Longrightarrow> mine_first m q rest" using assms(2) by (auto simp: mine_def)
      then show ?thesis using ok(10) [OF q(1)] by (auto simp: releasing_ok_def same s split: if_splits)
    qed
    have fin: "has_finish q m s \<Longrightarrow> om_get (cl_releasing ?s) m = Some q" for q
      using ok(5,6) settled r by (cases "m = n") auto
    note okm = names_okD(1) [OF assms(1), of m]
    show ?thesis by (rule name_ok_transfer [OF okm]) (use name_okD_size [OF okm] rel fin assms(2) in \<open>auto simp: same s\<close>)
  qed
  moreover have "promises_ok ?s"
    by (rule promises_ok_transfer [OF names_okD(2) [OF assms(1)]]) (use assms(2) in \<open>auto simp: same s\<close>)
  ultimately show ?thesis by (simp add: names_ok_def)
qed

lemma names_pop_setup:
  assumes "names_ok s" and "cl_queue s = Setup_Waited c cfg # rest" and "n = nc_name cfg"
  shows "names_ok (s\<lparr>cl_queue := rest, cl_set_up := js_remove n (cl_set_up s)\<rparr>)" (is "names_ok ?s")
    and "\<not> om_has (cl_sessions s) n" and "om_get (cl_releasing s) n = None"
proof -
  note okn = name_okD [OF names_okD(1) [OF assms(1), of n]]
  have head: "Setup_Waited c cfg \<in> set (cl_queue s)" "sets_up n (Setup_Waited c cfg)" using assms(2,3) by auto
  show none: "\<not> om_has (cl_sessions s) n" using okn(8) [OF head] .
  have fin: "finishing n s = {#}" using okn(9) [OF head] .
  show "om_get (cl_releasing s) n = None"
  proof (rule ccontr)
    assume "om_get (cl_releasing s) n \<noteq> None"
    then obtain p where "releasing_ok n p s" using okn(10) by blast
    from releasing_okD [OF this] show False using has_finishing fin assms(2,3) by (fastforce simp: mine_def)
  qed
  have same: "finishing m ?s = finishing m s" "has_finish q m ?s = has_finish q m s" "waits_on w ?s = waits_on w s" for m q w
    using assms(2) by (auto simp: finishing_def has_finish_def waits_on_def jobs_def)
  have j: "jobs s = add_mset (Setup_Waited c cfg) (jobs ?s)" using assms(2) by (simp add: jobs_def)
  then have sets: "setups m s = (if m = n then add_mset (Setup_Waited c cfg) (setups m ?s) else setups m ?s)" for m
    using assms(3) by (simp add: setups_def)
  have "name_ok m ?s" for m
  proof -
    note ok = name_okD [OF names_okD(1) [OF assms(1), of m]]
    have rel: "releasing_ok m q ?s" if "om_get (cl_releasing s) m = Some q" for q
    proof -
      have "mine_first m q (cl_queue s) \<Longrightarrow> mine_first m q rest" using assms(2) by (auto simp: mine_def)
      then show ?thesis using ok(10) [OF that] by (auto simp: releasing_ok_def same split: if_splits)
    qed
    have "size (setups m ?s) = (if m \<in> set (cl_set_up ?s) then 1 else 0)"
      using ok(3,4) sets [of m] by (cases "m = n"; cases "m \<in> set (cl_set_up s)") auto
    then show ?thesis
      by (intro name_ok_transfer [OF names_okD(1) [OF assms(1), of m]]) (use rel assms(2) in \<open>auto simp: same\<close>)
  qed
  moreover have "promises_ok ?s"
    by (rule promises_ok_transfer [OF names_okD(2) [OF assms(1)]]) (use assms(2) in \<open>auto simp: same\<close>)
  ultimately show "names_ok ?s" by (simp add: names_ok_def)
qed

lemma names_build:
  assumes "names_ok s" and "om_get (cl_releasing s) n = None" and "n \<notin> set (cl_set_up s)"
  shows "names_ok (s\<lparr>cl_sessions := om_set n x (cl_sessions s)\<rparr>)" (is "names_ok ?s")
proof -
  have same: "setups m ?s = setups m s" "finishing m ?s = finishing m s" "has_finish q m ?s = has_finish q m s"
    "waits_on w ?s = waits_on w s" for m q w
    by (simp_all add: setups_def finishing_def has_finish_def waits_on_def)
  have "name_ok m ?s" for m
  proof -
    note ok = name_okD [OF names_okD(1) [OF assms(1), of m]]
    have set: "setups n s = {#}" using name_okD(4) [OF names_okD(1) [OF assms(1)] assms(3)] .
    have no_setup: "\<not> sets_up n j" if "j \<in> set (cl_queue s)" for j
      using set that by (auto simp: setups_def jobs_def filter_mset_eq_mempty_iff)
    have fin: "finishing n s = {#}" using not_releasing [OF names_okD(1) [OF assms(1)] assms(2)] .
    have rel: "releasing_ok m q ?s" if "om_get (cl_releasing s) m = Some q" for q
      using ok(10) [OF that] that assms(2) by (cases "m = n") (auto simp: releasing_ok_def same om_keys_set split: if_splits)
    show ?thesis
    proof (cases "m = n")
      case True
      show ?thesis by (rule name_okI) (use ok rel fin no_setup True in \<open>auto simp: same\<close>)
    next
      case False
      have "om_has (om_set n x (cl_sessions s)) m = om_has (cl_sessions s) m" using False by (simp add: om_keys_set)
      then show ?thesis by (intro name_okI) (use ok rel in \<open>auto simp: same\<close>)
    qed
  qed
  moreover have "promises_ok ?s" using names_okD(2) [OF assms(1)] by simp
  ultimately show ?thesis by (simp add: names_ok_def)
qed

text \<open>A setup that waits for a release.\<close>

lemma names_wait_setup:
  assumes "names_ok s" and "om_get (cl_releasing s) (nc_name cfg) = Some p" and "nc_name cfg \<notin> set (cl_set_up s)"
  shows "names_ok (await (Of_Release p) (Setup_Waited c cfg) (s\<lparr>cl_set_up := js_add (nc_name cfg) (cl_set_up s)\<rparr>))"
    (is "names_ok ?s")
proof -
  let ?n = "nc_name cfg" let ?j = "Setup_Waited c cfg"
  have rel: "releasing_ok ?n p s" using name_okD(10) [OF names_okD(1) [OF assms(1)] assms(2)] .
  have s: "cl_sessions ?s = cl_sessions s" "cl_releasing ?s = cl_releasing s" "cl_outcome ?s = cl_outcome s"
    "cl_next ?s = cl_next s" "set (cl_set_up ?s) = insert ?n (set (cl_set_up s))"
    "cl_queue ?s = (if cl_outcome s (Of_Release p) = None then cl_queue s else cl_queue s @ [?j])"
    "cl_waiting ?s = (if cl_outcome s (Of_Release p) = None then cl_waiting s @ [(Of_Release p, ?j)] else cl_waiting s)"
    by (simp_all add: await_def)
  have j: "jobs ?s = add_mset ?j (jobs s)" by (simp add: jobs_def s)
  have same: "finishing m ?s = finishing m s" "has_finish q m ?s = has_finish q m s" for m q
    by (auto simp: finishing_def has_finish_def j)
  have wait: "waits_on (Of_Release q) ?s = waits_on (Of_Release q) s @
      (if q = p \<and> cl_outcome s (Of_Release p) = None then [?j] else [])" for q
    by (simp add: waits_on_def s plain_job_def)
  have "name_ok m ?s" for m
  proof (rule name_ok_transfer [OF names_okD(1) [OF assms(1), of m]], goal_cases)
    case 4
    show ?case using name_okD_size [OF names_okD(1) [OF assms(1), of m]] assms(3) by (auto simp: setups_def j s)
  next
    case (6 q j)
    then show ?case using releasing_okD(2) [OF rel] by (auto simp: s split: if_splits)
  next
    case (7 j)
    then show ?case using releasing_okD(4,5) [OF rel] by (auto simp: s split: if_splits)
  next
    case (8 q)
    then have "releasing_ok m q s" using name_okD(10) [OF names_okD(1) [OF assms(1)]] by (simp add: s)
    then show ?case using mine_first_append by (auto simp: releasing_ok_def same wait s split: if_splits)
  qed (simp_all add: s same)
  moreover have "promises_ok ?s"
    by (rule promises_ok_transfer [OF names_okD(2) [OF assms(1)]])
      (use releasing_okD(1) [OF rel] in \<open>auto simp: wait s split: if_splits\<close>)
  ultimately show ?thesis by (simp add: names_ok_def)
qed

text \<open>A release begins.\<close>

lemma names_release:
  assumes "names_ok s" and "om_has (cl_sessions s) n" and "p = cl_next s" and "p < cl_next s'"
    and "cl_sessions s' = om_del n (cl_sessions s)" and "cl_releasing s' = om_set n p (cl_releasing s)"
    and "cl_set_up s' = cl_set_up s" and "\<And>q. cl_outcome s' (Of_Release q) = cl_outcome s (Of_Release q)"
    and "jobs s' = add_mset (Finish_Let_Go p n x opts) (add_mset (Release_Mine c n p) (jobs s))"
    and "set (cl_queue s') \<subseteq> insert (Finish_Let_Go p n x opts) (set (cl_queue s))"
    and "\<And>m q. mine_first m q (cl_queue s) \<Longrightarrow> mine_first m q (cl_queue s')"
    and "\<And>w j. (w, j) \<in> set (cl_waiting s') \<Longrightarrow>
      (w, j) \<in> set (cl_waiting s) \<or> j = Finish_Let_Go p n x opts \<or> (w, j) = (Of_Release p, Release_Mine c n p)"
    and "\<And>q. waits_on (Of_Release q) s' = waits_on (Of_Release q) s @ (if q = p then [Release_Mine c n p] else [])"
  shows "names_ok s'"
proof -
  note okn = names_okD(1) [OF assms(1), of n]
  have p: "cl_outcome s (Of_Release p) = None" "waits_on (Of_Release p) s = []"
    using promises_okD(1,2) [OF names_okD(2) [OF assms(1)]] assms(3) by simp_all
  have fin: "finishing n s = {#}" using name_okD(1) [OF okn] assms(2) by simp
  then have none: "\<not> has_finish q n s" for q using has_finishing by blast
  have fins: "finishing m s' = (if m = n then {#Finish_Let_Go p n x opts#} else finishing m s)" for m
    using fin by (auto simp: finishing_def assms(9))
  have has: "has_finish q m s' \<longleftrightarrow> (if m = n then q = p else has_finish q m s)" for q m
    using none by (auto simp: has_finish_def assms(9))
  have size: "size (setups m s') = (if m \<in> set (cl_set_up s') then 1 else 0)" for m
    using name_okD_size [OF names_okD(1) [OF assms(1), of m]] by (simp add: setups_def assms(7,9))
  have no_setup: "\<not> sets_up n j" if "j \<in> set (cl_queue s)" for j
    using name_okD(8) [OF okn that] assms(2) by blast
  have no_wait: "\<not> sets_up n j" if "(q, j) \<in> set (cl_waiting s)" for q j
    using name_okD(7) [OF okn that] none by blast
  have "name_ok m s'" for m
  proof (cases "m = n")
    case True
    show ?thesis unfolding True
    proof (rule name_okI, goal_cases)
      case (5 q j)
      then show ?case using assms(12) no_wait by fastforce
    next
      case (6 j)
      then show ?case using assms(10) no_setup by fastforce
    next
      case (7 q)
      then show ?case using assms(4,6,8) p by (auto simp: releasing_ok_def has assms(13))
    qed (use assms(5,6,8) p in \<open>auto simp: fins has size om_keys_del\<close>)
  next
    case False
    show ?thesis
    proof (rule name_ok_transfer [OF names_okD(1) [OF assms(1), of m]], goal_cases)
      case (6 q j)
      then show ?case using assms(12) False by fastforce
    next
      case (7 j)
      then show ?case using assms(10) False by fastforce
    next
      case (8 q)
      then have "om_get (cl_releasing s) m = Some q" using assms(6) False by simp
      then have r: "releasing_ok m q s" using name_okD(10) [OF names_okD(1) [OF assms(1)]] by blast
      then have "q \<noteq> p" using releasing_okD(1) assms(3) by fastforce
      then show ?case using r assms(3-5,8,11) False
        by (auto simp: releasing_ok_def has fins assms(13) om_keys_del split: if_splits)
    qed (use assms(5,6,8) False size in \<open>auto simp: fins has om_keys_del\<close>)
  qed
  moreover have "promises_ok s'"
  proof (rule promises_ok_transfer [OF names_okD(2) [OF assms(1)]], goal_cases)
    case (2 c' m q)
    then show ?case using assms(8,10) by auto
  next
    case (3 q c' m r)
    then show ?case using assms(12) by auto
  qed (use assms(3,4,8,13) in auto)
  ultimately show ?thesis by (simp add: names_ok_def)
qed

text \<open>A release goes on: one of its jobs has run, and the next one waits for somebody else's promise.\<close>

lemma names_goes_on:
  assumes "names_ok s" and "cl_queue s = j # rest" and "finishes n j" and "finishes n j'" and "release_of j' = release_of j"
  shows "names_ok (await (Of_Other e) j' (s\<lparr>cl_queue := rest\<rparr>))" (is "names_ok ?s")
proof -
  let ?b = "cl_outcome s (Of_Other e) = None"
  have s: "cl_sessions ?s = cl_sessions s" "cl_releasing ?s = cl_releasing s" "cl_outcome ?s = cl_outcome s"
    "cl_next ?s = cl_next s" "cl_set_up ?s = cl_set_up s" "cl_queue ?s = (if ?b then rest else rest @ [j'])"
    "cl_waiting ?s = (if ?b then cl_waiting s @ [(Of_Other e, j')] else cl_waiting s)"
    by (simp_all add: await_def)
  have j: "add_mset j (jobs ?s) = add_mset j' (jobs s)" using assms(2) by (simp add: jobs_def s)
  have not: "\<not> sets_up m j" "\<not> sets_up m j'" "\<not> is_mine j" "\<not> is_mine j'" for m
    using assms(3,4) by (cases j; cases j'; simp)+
  have "filter_mset (finishes m) (add_mset j (jobs ?s)) = filter_mset (finishes m) (add_mset j' (jobs s))" for m by (simp add: j)
  moreover have "finishes m j = finishes m j'" for m using assms(3,4) finishes_unique by metis
  ultimately
  have "finishes m j' \<Longrightarrow> add_mset j (finishing m ?s) = add_mset j' (finishing m s)"
    "\<not> finishes m j' \<Longrightarrow> finishing m ?s = finishing m s" for m
    unfolding finishing_def by (metis filter_mset_add_mset)+
  note both = this
  have size: "size (finishing m ?s) = size (finishing m s)" for m
  proof (cases "finishes m j'")
    case True
    from arg_cong [OF both(1) [OF True], of size] show ?thesis by simp
  qed (simp add: both(2))
  have "filter_mset (sets_up m) (add_mset j (jobs ?s)) = filter_mset (sets_up m) (add_mset j' (jobs s))" for m by (simp add: j)
  then have sets: "setups m ?s = setups m s" for m using not by (simp add: setups_def)
  have has: "has_finish q m ?s = has_finish q m s" for q m
  proof -
    have "(\<exists>i. i \<in># add_mset j (jobs ?s) \<and> finishes m i \<and> release_of i = Some q) =
        (\<exists>i. i \<in># add_mset j' (jobs s) \<and> finishes m i \<and> release_of i = Some q)" by (simp only: j)
    moreover have "j \<in># jobs s" "j' \<in># jobs ?s" using assms(2) by (auto simp: jobs_def s)
    moreover have "finishes m j = finishes m j'" using assms(3,4) finishes_unique by metis
    ultimately show ?thesis using assms(5) unfolding has_finish_def by (metis insert_noteq_member set_mset_add_mset_insert insert_iff)
  qed
  have wait: "waits_on (Of_Release q) ?s = waits_on (Of_Release q) s" for q by (simp add: waits_on_def s)
  have empty: "finishing m ?s = {#} \<longleftrightarrow> finishing m s = {#}" for m using size [of m] by (metis size_eq_0_iff_empty)
  have mf: "mine_first m q (cl_queue s) \<Longrightarrow> mine_first m q (cl_queue ?s)" for m q
    using mine_first_append not(3) assms(2) by (auto simp: s mine_def)
  have rel: "releasing_ok m q s \<Longrightarrow> releasing_ok m q ?s" for m q
    using mf by (auto simp: releasing_ok_def has wait empty s(1,3,4) split: if_splits)
  have "name_ok m ?s" for m
  proof -
    note ok = names_okD(1) [OF assms(1), of m]
    show ?thesis
    proof (rule name_okI, goal_cases)
      case (5 q i)
      then show ?case using name_okD(7) [OF ok] not by (auto simp: s has split: if_splits)
    next
      case (6 i)
      then have "i \<in> set (cl_queue s)" using not assms(2) by (auto simp: s split: if_splits)
      then show ?case using name_okD(8,9) [OF ok _ 6(2)] by (simp add: empty s(1))
    qed (use name_okD(1,2,5,6,10) [OF ok] name_okD_size [OF ok] rel in \<open>auto simp: empty size sets has s(1-5)\<close>)
  qed
  moreover have "promises_ok ?s"
    by (rule promises_ok_transfer [OF names_okD(2) [OF assms(1)]]) (use assms(2) not in \<open>auto simp: wait s split: if_splits\<close>)
  ultimately show ?thesis by (simp add: names_ok_def)
qed

lemma relevant_mine_first: "filter (\<lambda>j. \<not> plain_job j) ks = Release_Mine c n p # ks' \<Longrightarrow> mine_first n p ks"
  by (induction ks) (auto simp: mine_def plain_job_def split: if_splits)

text \<open>A release ends: its promise settles.\<close>

lemma names_release_ends:
  assumes "names_ok s" and "cl_queue s = j # rest" and "finishes n j" and "release_of j = Some p"
  shows "names_ok (settle (Of_Release p) Came_Back (s\<lparr>cl_queue := rest\<rparr>))" (is "names_ok ?s")
proof -
  note okn = names_okD(1) [OF assms(1), of n]
  have jin: "j \<in># jobs s" using assms(2) by (simp add: jobs_def)
  then have hasn: "has_finish p n s" using assms(3,4) unfolding has_finish_def by blast
  note p = name_okD(5,6) [OF okn hasn]
  note reln = name_okD(10) [OF okn p(1)]
  obtain c ws where mine: "waits_on (Of_Release p) s = Release_Mine c n p # ws" using releasing_okD(3) [OF reln p(2)] by blast
  let ?moved = "map snd (filter (\<lambda>w. fst w = Of_Release p) (cl_waiting s))"
  have s: "cl_sessions ?s = cl_sessions s" "cl_releasing ?s = cl_releasing s"
    "cl_outcome ?s = (cl_outcome s)(Of_Release p \<mapsto> Came_Back)"
    "cl_next ?s = cl_next s" "cl_set_up ?s = cl_set_up s" "cl_queue ?s = rest @ ?moved"
    "cl_waiting ?s = filter (\<lambda>w. fst w \<noteq> Of_Release p) (cl_waiting s)"
    using p(2) by (simp_all add: settle_def)
  define A where "A = jobs ?s"
  have jobs: "jobs s = add_mset j A" "jobs ?s = A" unfolding A_def jobs_settle using assms(2) by (simp_all add: jobs_def)
  have one: "finishing n s = {#j#}"
  proof -
    have "finishing n s = add_mset j (finishing n ?s)" using assms(3) unfolding finishing_def jobs by simp
    then show ?thesis using name_okD(2) [OF okn] by auto
  qed
  have fin: "finishing m ?s = (if m = n then {#} else finishing m s)" for m
  proof (cases "m = n")
    case True
    then show ?thesis using one assms(3) unfolding finishing_def jobs by simp
  next
    case False
    then have "\<not> finishes m j" using assms(3) finishes_unique by blast
    then show ?thesis using False unfolding finishing_def jobs by simp
  qed
  have not: "\<not> sets_up m j" "\<not> is_mine j" for m using assms(3) by (cases j; simp)+
  have sets: "setups m ?s = setups m s" for m using not unfolding setups_def jobs by simp
  have has: "has_finish q m ?s \<longleftrightarrow> m \<noteq> n \<and> has_finish q m s" for q m
  proof (cases "m = n")
    case True
    have "finishing n ?s = {#}" using fin by simp
    then show ?thesis using has_finishing True by blast
  next
    case False
    then have "\<not> finishes m j" using assms(3) finishes_unique by blast
    then show ?thesis using False unfolding has_finish_def jobs by auto
  qed
  have unique: "m = n" if "has_finish p m s" for m
  proof -
    have "om_get (cl_releasing s) m = Some p" using name_okD(5) [OF names_okD(1) [OF assms(1)] that] .
    then have "releasing_ok m p s" using name_okD(10) [OF names_okD(1) [OF assms(1)]] by blast
    from releasing_okD(3) [OF this p(2)] mine show ?thesis by auto
  qed
  have moved_setup: "m = n" if "i \<in> set ?moved" "sets_up m i" for i m
    using that name_okD(7) [OF names_okD(1) [OF assms(1), of m]] unique by fastforce
  have no_setup: "\<not> sets_up n i" if "i \<in> set (cl_queue s)" for i
    using name_okD(9) [OF okn that] one by auto
  have none: "\<not> om_has (cl_sessions s) n" using name_okD(1) [OF okn] one by auto
  have mf: "mine_first n p (rest @ ?moved)"
  proof -
    have "mine_first n p ?moved" using mine unfolding waits_on_def by (rule relevant_mine_first)
    moreover have "\<not> sets_up n i" if "i \<in> set rest" for i using no_setup that assms(2) by simp
    ultimately show ?thesis by (induction rest) auto
  qed
  have wait: "waits_on (Of_Release q) ?s = (if q = p then [] else waits_on (Of_Release q) s)" for q
    by (auto simp: waits_on_def s intro!: arg_cong [of _ _ "filter _"] arg_cong [of _ _ "map _"] filter_cong)
  have rel: "releasing_ok m q ?s" if g: "om_get (cl_releasing s) m = Some q" for m q
  proof (cases "m = n")
    case True
    then have "q = p" using g p(1) by simp
    then show ?thesis using releasing_okD(1) [OF reln] none mf fin True by (simp add: releasing_ok_def s)
  next
    case False
    have r: "releasing_ok m q s" using name_okD(10) [OF names_okD(1) [OF assms(1)] g] .
    have "q \<noteq> p"
    proof
      assume "q = p"
      then have "has_finish p m s" using releasing_okD(2) [OF r] p(2) by simp
      then show False using unique False by blast
    qed
    moreover have "mine_first m q (cl_queue s) \<Longrightarrow> mine_first m q (rest @ ?moved)"
      using mine_first_append not(2) assms(2) by (auto simp: mine_def)
    ultimately show ?thesis using r False by (auto simp: releasing_ok_def has wait fin s split: if_splits)
  qed
  have "name_ok m ?s" for m
  proof -
    note ok = names_okD(1) [OF assms(1), of m]
    show ?thesis
    proof (rule name_okI, goal_cases)
      case 1
      then show ?case using name_okD(1) [OF ok] by (auto simp: fin s)
    next
      case 2
      then show ?case using name_okD(2) [OF ok] by (auto simp: fin)
    next
      case 3
      then show ?case using name_okD_size [OF ok] by (simp add: sets s)
    next
      case (4 q)
      then have "m \<noteq> n" "has_finish q m s" using has by blast+
      then show ?case using name_okD(5,6) [OF ok] unique by (auto simp: s)
    next
      case (5 q i)
      then obtain r where r: "q = Of_Release r" "has_finish r m s" using name_okD(7) [OF ok _ 5(2)] by (auto simp: s)
      have "m \<noteq> n"
      proof
        assume "m = n"
        then have "r = p" using r(2) name_okD(5) [OF okn] p(1) by fastforce
        then show False using 5(1) r(1) by (simp add: s)
      qed
      then show ?case using r has by blast
    next
      case (6 i)
      show ?case
      proof (cases "m = n")
        case True
        then show ?thesis using none fin by (simp add: s)
      next
        case False
        then have "i \<in> set (cl_queue s)" using 6 moved_setup [of i m] assms(2) by (auto simp: s)
        then show ?thesis using name_okD(8,9) [OF ok _ 6(2)] False by (simp add: fin s)
      qed
    next
      case (7 q)
      then show ?case using rel by (simp add: s)
    qed
  qed
  moreover have "promises_ok ?s"
  proof (rule promises_ok_transfer [OF names_okD(2) [OF assms(1)]], goal_cases)
    case (1 q)
    then show ?case using releasing_okD(1) [OF reln] by (auto simp: s wait)
  next
    case (2 c' m q)
    then consider "Release_Mine c' m q \<in> set rest" | "(Of_Release p, Release_Mine c' m q) \<in> set (cl_waiting s)" by (auto simp: s)
    then show ?case
    proof cases
      case 2
      then show ?thesis using promises_okD(4) [OF names_okD(2) [OF assms(1)]] by (auto simp: s)
    qed (use assms(2) in \<open>auto simp: s\<close>)
  qed (auto simp: s)
  ultimately show ?thesis by (simp add: names_ok_def)
qed

lemma names_no_sessions:
  assumes "names_ok s"
  shows "names_ok (s\<lparr>cl_sessions := []\<rparr>)" (is "names_ok ?s")
proof -
  have same: "setups m ?s = setups m s" "finishing m ?s = finishing m s" "has_finish q m ?s = has_finish q m s"
    "waits_on w ?s = waits_on w s" for m q w
    by (simp_all add: setups_def finishing_def has_finish_def waits_on_def)
  have "releasing_ok m q s \<Longrightarrow> releasing_ok m q ?s" for m q by (auto simp: releasing_ok_def same split: if_splits)
  then have "name_ok m ?s" for m
    by (intro name_ok_transfer [OF names_okD(1) [OF assms, of m]])
      (use name_okD_size [OF names_okD(1) [OF assms, of m]] name_okD(10) [OF names_okD(1) [OF assms, of m]] in \<open>auto simp: same\<close>)
  then show ?thesis using names_okD(2) [OF assms] by (simp add: names_ok_def)
qed

section \<open>One setup of a name at a time\<close>

text \<open>
  Read off what the client says: the names set up while they are being released, and whether no setup of a
  name began while another one was waiting for its release.
\<close>

fun setup_note :: "client_out \<Rightarrow> js_string list \<times> bool \<Rightarrow> js_string list \<times> bool" where
  "setup_note (Setup_Begins n) (ns, apart) = (ns, apart \<and> n \<notin> set ns)"
| "setup_note (Setup_Waits n) (ns, apart) = (js_add n ns, apart)"
| "setup_note (Setup_Goes_On n) (ns, apart) = (js_remove n ns, apart)"
| "setup_note _ p = p"

definition setup_notes :: "client_out list \<Rightarrow> js_string list \<times> bool" where
  "setup_notes tr = fold setup_note tr ([], True)"

definition setups_apart :: "client_out list \<Rightarrow> bool" where
  "setups_apart tr = snd (setup_notes tr)"

fun neutral :: "client_out \<Rightarrow> bool" where
  "neutral (Setup_Begins n) = False"
| "neutral (Setup_Waits n) = False"
| "neutral (Setup_Goes_On n) = False"
| "neutral _ = True"

lemma setup_notes_append [simp]: "setup_notes (tr @ xs) = fold setup_note xs (setup_notes tr)"
  by (simp add: setup_notes_def)

lemma neutral_note [simp]: "neutral x \<Longrightarrow> setup_note x p = p"
  by (cases "(x, p)" rule: setup_note.cases) auto

lemma neutral_notes: "\<forall>x\<in>set xs. neutral x \<Longrightarrow> fold setup_note xs p = p"
  by (induction xs) auto

definition good :: "client \<Rightarrow> bool" where
  "good s \<longleftrightarrow> fst (setup_notes (cl_trace s)) = cl_set_up s \<and> (setups_apart (cl_trace s) \<longrightarrow> names_ok s)"

lemma good_frame [simp]:
  "good (s\<lparr>cl_stack := k\<rparr>) = good s" "good (s\<lparr>cl_holds := h\<rparr>) = good s" "good (s\<lparr>cl_definition := d\<rparr>) = good s"
  "good (s\<lparr>cl_disposed := b\<rparr>) = good s" "good (s\<lparr>cl_bus := b\<rparr>) = good s" "good (s\<lparr>cl_foreign := es\<rparr>) = good s"
  by (simp_all add: good_def)

lemma good_says: "\<forall>x\<in>set xs. neutral x \<Longrightarrow> good (s\<lparr>cl_trace := cl_trace s @ xs\<rparr>) = good s"
  by (simp add: good_def setups_apart_def neutral_notes)

lemma good_say [simp]: "neutral x \<Longrightarrow> good (say x s) = good s"
  unfolding say_def by (rule good_says) simp

lemma good_next: "good s \<Longrightarrow> cl_next s \<le> i \<Longrightarrow> good (s\<lparr>cl_next := i\<rparr>)"
  using names_ok_next by (simp add: good_def)

lemma good_fresh [simp]: "good s \<Longrightarrow> good (s\<lparr>cl_next := Suc (cl_next s)\<rparr>)"
  by (simp add: good_next)

lemma good_foreign [simp]:
  "good s \<Longrightarrow> good (s\<lparr>cl_next := Suc (cl_next s), cl_foreign := es\<rparr>)"
  by (simp add: good_next)

lemma good_fields:
  assumes "good s" and "cl_trace s' = cl_trace s" and "cl_set_up s' = cl_set_up s" and "names_ok s \<Longrightarrow> names_ok s'"
  shows "good s'"
  using assms by (simp add: good_def)

lemma await_fields [simp]:
  "cl_trace (await q j s) = cl_trace s" "cl_set_up (await q j s) = cl_set_up s" "cl_sessions (await q j s) = cl_sessions s"
  "cl_releasing (await q j s) = cl_releasing s" "cl_outcome (await q j s) = cl_outcome s" "cl_next (await q j s) = cl_next s"
  "cl_holds (await q j s) = cl_holds s" "cl_stack (await q j s) = cl_stack s" "cl_disposed (await q j s) = cl_disposed s"
  by (simp_all add: await_def)

lemma good_await: "good s \<Longrightarrow> plain_job j \<Longrightarrow> good (await q j s)"
  by (erule good_fields) (simp_all add: names_await)

lemma good_soon: "good s \<Longrightarrow> plain_job j \<Longrightarrow> good (soon j s)"
  unfolding soon_def by (erule good_fields) (simp_all add: names_soon)

lemma good_await_maybe: "good s \<Longrightarrow> plain_job j \<Longrightarrow> good (await_maybe q j s)"
  by (simp add: await_maybe_def good_await good_soon split: option.split)

lemma good_settle: "good s \<Longrightarrow> (\<And>p. q \<noteq> Of_Release p) \<Longrightarrow> good (settle q r s)"
  by (erule good_fields) (simp_all add: names_settle)

lemma good_return [simp]: "good s \<Longrightarrow> good (return c r s)"
  by (simp add: return_def good_settle)

lemma plain_job_simps [simp]:
  "plain_job (Release_Again c n opts)" "plain_job (Forget_As_Asked c n opts)" "plain_job (Forget_Device_Asked c n opts)" "plain_job (Fulfil c)"
  "plain_job (Restore_Next c cfgs c')" "plain_job (Release_Next c ns opts)" "plain_job (Await_All c ps)" "plain_job (Dispose_Next c seen)"
  "plain_job (Dispose_Holds c)" "plain_job (Dispose_Closing c ps)"
  by (simp_all add: plain_job_def)

lemma let_go_fields [simp]:
  "cl_sessions (let_go_of_hold n s) = cl_sessions s" "cl_releasing (let_go_of_hold n s) = cl_releasing s"
  "cl_set_up (let_go_of_hold n s) = cl_set_up s" "cl_outcome (let_go_of_hold n s) = cl_outcome s"
  "cl_next (let_go_of_hold n s) = cl_next s" "cl_waiting (let_go_of_hold n s) = cl_waiting s"
  "cl_queue (let_go_of_hold n s) = cl_queue s" "cl_disposed (let_go_of_hold n s) = cl_disposed s"
  "cl_stack (let_go_of_hold n s) = cl_stack s" "cl_bus (let_go_of_hold n s) = cl_bus s"
  by (simp_all add: let_go_of_hold_def say_def split: option.split)

lemma say_fields [simp]:
  "cl_sessions (say x s) = cl_sessions s" "cl_releasing (say x s) = cl_releasing s" "cl_set_up (say x s) = cl_set_up s"
  "cl_outcome (say x s) = cl_outcome s" "cl_next (say x s) = cl_next s" "cl_waiting (say x s) = cl_waiting s"
  "cl_queue (say x s) = cl_queue s" "cl_disposed (say x s) = cl_disposed s" "cl_stack (say x s) = cl_stack s"
  "cl_trace (say x s) = cl_trace s @ [x]" "cl_holds (say x s) = cl_holds s" "cl_bus (say x s) = cl_bus s"
  by (simp_all add: say_def)

lemma let_go_says: "\<exists>xs. cl_trace (let_go_of_hold n s) = cl_trace s @ xs \<and> (\<forall>x\<in>set xs. \<exists>h. x = Hold_Stopped h)"
  by (auto simp: let_go_of_hold_def say_def split: option.split)

lemma good_let_go [simp]: "good s \<Longrightarrow> good (let_go_of_hold n s)"
  by (simp add: let_go_of_hold_def split: option.split)

lemma good_forget [simp]: "good s \<Longrightarrow> good (forget_unless_run_elsewhere n s)"
  by (simp add: forget_unless_run_elsewhere_def)

lemma good_start [simp]: "good s \<Longrightarrow> good (begin_session c n x s)"
  by (simp add: begin_session_def good_soon)

lemma good_build:
  assumes "good s" and "setups_apart (cl_trace s) \<Longrightarrow> om_get (cl_releasing s) (nc_name cfg) = None \<and> nc_name cfg \<notin> set (cl_set_up s)"
  shows "good (build_session v c cfg s)"
proof -
  have "nc_name (remembered_resolution f cfg) = nc_name cfg" for f
    by (auto simp: remembered_resolution_def split: device_filter.split option.split)
  then have name: "nc_name (remembered_resolution f cfg) = nc_name cfg" for f .
  define s1 where "s1 = (if cl_bus s then s else say Bus_Opened (s\<lparr>cl_bus := True\<rparr>))"
  have s1: "good s1" "setups_apart (cl_trace s1) = setups_apart (cl_trace s)" "cl_releasing s1 = cl_releasing s" "cl_set_up s1 = cl_set_up s"
    using assms(1) by (simp_all add: s1_def setups_apart_def)
  define s2 where "s2 = s1\<lparr>cl_next := Suc (cl_next s1)\<rparr>"
  have s2: "good s2" "cl_trace s2 = cl_trace s1" "cl_releasing s2 = cl_releasing s" "cl_set_up s2 = cl_set_up s" "cl_next s2 = Suc (cl_next s1)"
    using s1 by (simp_all add: s2_def)
  define s3 where "s3 = s2\<lparr>cl_sessions := om_set (nc_name cfg) (cl_next s1) (cl_sessions s2)\<rparr>"
  have s3: "good s3"
  proof -
    have "names_ok s3" if "setups_apart (cl_trace s3)"
    proof -
      have "names_ok s2" using s2(1) that by (simp add: good_def s3_def)
      then show ?thesis unfolding s3_def using assms(2) that s1(2) s2
        by (intro names_build) (simp_all add: s3_def)
    qed
    then show ?thesis using s2(1) by (simp add: good_def s3_def)
  qed
  then show ?thesis
    by (simp add: build_session_def fresh_def Let_def name flip: s1_def)
      (auto simp: s3_def s2_def intro!: good_next)
qed

lemma setups_apart_say: "neutral x \<Longrightarrow> setups_apart (cl_trace s @ [x]) = setups_apart (cl_trace s)"
  by (simp add: setups_apart_def neutral_note)

lemma good_setup_now:
  assumes "good s" and "setups_apart (cl_trace s) \<Longrightarrow> om_get (cl_releasing s) (nc_name cfg) = None \<and> nc_name cfg \<notin> set (cl_set_up s)"
  shows "good (setup_now v c cfg s)"
  using good_build [OF assms] assms(1) by (simp add: setup_now_def split: option.split)

lemma good_set_up:
  assumes "good s"
  shows "good (set_up v c r s)"
proof -
  have "good (set_up v c (Inr cfg) s)" if dis: "\<not> cl_disposed s" for cfg
  proof -
    let ?n = "nc_name cfg" let ?s = "say (Setup_Begins ?n) s"
    have ns: "fst (setup_notes (cl_trace s)) = cl_set_up s" using assms by (simp add: good_def)
    have apart: "setups_apart (cl_trace ?s) \<longleftrightarrow> setups_apart (cl_trace s) \<and> ?n \<notin> set (cl_set_up s)"
      using ns by (cases "setup_notes (cl_trace s)") (simp add: setups_apart_def)
    have g: "good ?s"
      using assms ns apart by (cases "setup_notes (cl_trace s)") (simp add: good_def say_def)
    show ?thesis
    proof (cases "om_get (cl_releasing s) ?n")
      case None
      then show ?thesis using dis good_setup_now [OF g] apart by (simp add: set_up_def)
    next
      case (Some p)
      let ?t = "say (Setup_Waits ?n) (?s\<lparr>cl_set_up := js_add ?n (cl_set_up ?s)\<rparr>)"
      let ?u = "await (Of_Release p) (Setup_Waited c cfg) ?t"
      have "names_ok ?u" if "setups_apart (cl_trace ?u)"
      proof -
        have "setups_apart (cl_trace ?s)" using that by (cases "setup_notes (cl_trace s)") (auto simp: setups_apart_def)
        then have "names_ok s" "?n \<notin> set (cl_set_up s)" using apart assms by (auto simp: good_def)
        from names_wait_setup [OF this(1) Some this(2), of c]
        have "names_ok (await (Of_Release p) (Setup_Waited c cfg) (s\<lparr>cl_set_up := js_add ?n (cl_set_up s)\<rparr>)\<lparr>cl_trace := cl_trace ?t\<rparr>)"
          by (simp only: names_ok_frame)
        also have "await (Of_Release p) (Setup_Waited c cfg) (s\<lparr>cl_set_up := js_add ?n (cl_set_up s)\<rparr>)\<lparr>cl_trace := cl_trace ?t\<rparr> = ?u"
          by (cases s) (simp add: await_def say_def)
        finally show ?thesis .
      qed
      moreover have "fst (setup_notes (cl_trace ?u)) = cl_set_up ?u"
        using ns by (cases "setup_notes (cl_trace s)") simp
      ultimately have "good ?u" by (simp add: good_def)
      then show ?thesis using dis Some by (simp add: set_up_def Let_def)
    qed
  qed
  then show ?thesis using assms by (cases r) (auto simp: set_up_def)
qed

lemma good_restore_from: "good s \<Longrightarrow> good (restore_from v c cfgs s)"
  by (induction v c cfgs s rule: restore_from.induct) (auto simp: fresh_def intro!: good_set_up good_await)

lemma good_release:
  assumes "good s"
  shows "good (release_name c r s)"
proof -
  have "good (release_name c (Inr (n, opts)) s)" if x: "om_get (cl_sessions s) n = Some x" for n opts x
  proof -
    let ?p = "cl_next s" let ?fin = "Finish_Let_Go ?p n x opts" let ?mine = "Release_Mine c n ?p"
    define s1 where "s1 = s\<lparr>cl_sessions := om_del n (cl_sessions s), cl_next := Suc ?p\<rparr>"
    define s2 where "s2 = (if ro_forget opts then forget_unless_run_elsewhere n s1 else let_go_of_hold n s1)"
    let ?e = "cl_next s2"
    define s3 where "s3 = s2\<lparr>cl_next := Suc ?e, cl_foreign := cl_foreign s2 @ [?e]\<rparr>"
    define s4 where "s4 = await (Of_Other ?e) ?fin s3"
    let ?t = "await (Of_Release ?p) ?mine (s4\<lparr>cl_releasing := om_set n ?p (cl_releasing s4)\<rparr>)"
    have t: "release_name c (Inr (n, opts)) s = ?t"
      using x by (simp add: release_name_def end_session_def fresh_def foreign_def Let_def s1_def s2_def s3_def s4_def)
    have f2: "cl_sessions s2 = om_del n (cl_sessions s)" "cl_releasing s2 = cl_releasing s" "cl_set_up s2 = cl_set_up s"
      "cl_outcome s2 = cl_outcome s" "cl_next s2 = Suc ?p" "cl_waiting s2 = cl_waiting s" "cl_queue s2 = cl_queue s"
      by (simp_all add: s2_def s1_def forget_unless_run_elsewhere_def)
    obtain ys where ys: "cl_trace (let_go_of_hold n s1) = cl_trace s @ ys" "\<forall>x\<in>set ys. neutral x"
    proof -
      from let_go_says [of n s1] obtain ys
        where "cl_trace (let_go_of_hold n s1) = cl_trace s1 @ ys" "\<forall>x\<in>set ys. \<exists>h. x = Hold_Stopped h" by blast
      moreover from this(2) have "\<forall>x\<in>set ys. neutral x" by fastforce
      ultimately show ?thesis using that [of ys] by (simp add: s1_def)
    qed
    have xs: "\<exists>xs. cl_trace s2 = cl_trace s @ xs \<and> (\<forall>x\<in>set xs. neutral x)"
      using ys by (auto simp: s2_def forget_unless_run_elsewhere_def intro: exI [of _ ys] exI [of _ "ys @ [Forget_Entry n]"])
    then obtain xs where xs: "cl_trace s2 = cl_trace s @ xs" "\<forall>x\<in>set xs. neutral x" by blast
    have "names_ok ?t" if "setups_apart (cl_trace s)"
    proof -
      have ok: "names_ok s" using assms that by (simp add: good_def)
      have p: "cl_outcome s (Of_Release ?p) = None" using promises_okD(1) [OF names_okD(2) [OF ok]] by simp
      let ?b = "cl_outcome s (Of_Other ?e) = None"
      have w: "cl_waiting ?t = cl_waiting s @ (if ?b then [(Of_Other ?e, ?fin)] else []) @ [(Of_Release ?p, ?mine)]"
        "cl_queue ?t = cl_queue s @ (if ?b then [] else [?fin])"
        using p by (auto simp: await_def s4_def s3_def f2)
      have f: "cl_sessions ?t = om_del n (cl_sessions s)" "cl_releasing ?t = om_set n ?p (cl_releasing s)"
        "cl_set_up ?t = cl_set_up s" "cl_outcome ?t = cl_outcome s" "cl_next ?t = Suc (Suc ?p)"
        by (simp_all add: s4_def s3_def f2)
      have j: "jobs ?t = add_mset ?fin (add_mset ?mine (jobs s))" by (simp add: jobs_def w)
      have wo: "waits_on (Of_Release q) ?t = waits_on (Of_Release q) s @ (if q = ?p then [?mine] else [])" for q
        by (simp add: waits_on_def w plain_job_def)
      have has: "om_has (cl_sessions s) n" using x om_get_Some_key by fastforce
      show ?thesis
        by (rule names_release [OF ok has refl _ f(1-3) _ j _ _ _ wo])
          (insert mine_first_append, unfold w f, auto split: if_splits)
    qed
    then have "good ?t" using assms xs by (simp add: good_def s4_def s3_def f2 neutral_notes setups_apart_def)
    then show ?thesis using t by simp
  qed
  then show ?thesis using assms by (auto simp: release_name_def intro!: good_await_maybe split: sum.split option.split)
qed

lemma good_release_again: "good s \<Longrightarrow> good (release_again c n opts s)"
  by (auto simp: release_again_def fresh_def intro!: good_release good_await)

lemma good_forget_device_asked: "good s \<Longrightarrow> good (forget_device_asked v c n opts s)"
  by (auto simp: forget_device_asked_def foreign_def intro!: good_await)

lemma good_forget_as_asked:
  assumes "good s"
  shows "good (forget_as_asked v c n opts s)"
proof -
  have "good (forget_unless_run_elsewhere n s)" using assms by simp
  then show ?thesis using good_forget_device_asked [OF assms]
    by (auto simp: forget_as_asked_def foreign_def intro!: good_await good_foreign)
qed

lemma good_await_all: "good s \<Longrightarrow> good (await_all c ps s)"
  by (cases ps) (auto intro: good_await)

lemma good_release_next: "good s \<Longrightarrow> good (release_next c ns opts s)"
  by (cases ns) (auto simp: fresh_def intro!: good_await_all good_release good_await)

lemma good_release_all: "good s \<Longrightarrow> good (release_all c r s)"
  by (auto simp: release_all_def intro: good_release_next split: sum.split)

lemma good_dispose_closing: "good s \<Longrightarrow> good (dispose_closing c ps s)"
  by (cases ps) (auto intro: good_await)

lemma good_no_sessions: "good s \<Longrightarrow> good (s\<lparr>cl_sessions := []\<rparr>)"
  by (erule good_fields) (simp_all add: names_no_sessions)

lemma good_dispose_holds:
  assumes "good s"
  shows "good (dispose_holds c s)"
proof -
  have "good (s\<lparr>cl_trace := cl_trace s @ map Hold_Stopped (map snd (cl_holds s))\<rparr>)" using assms by (subst good_says) auto
  from good_foreign [OF this] show ?thesis by (auto simp: dispose_holds_def foreign_def intro!: good_await)
qed

lemma good_dispose_next: "good s \<Longrightarrow> good (dispose_next c seen s)"
  by (auto simp: dispose_next_def foreign_def intro!: good_await good_dispose_holds good_no_sessions split: list.split)

lemma good_dispose: "good s \<Longrightarrow> good (dispose c s)"
  by (simp add: dispose_def good_dispose_next)

section \<open>Runs\<close>

lemma good_setup_waited:
  assumes "good s" and "cl_queue s = Setup_Waited c cfg # rest"
  shows "good (setup_waited v c cfg (s\<lparr>cl_queue := rest\<rparr>))"
proof -
  let ?n = "nc_name cfg"
  define t where "t = say (Setup_Goes_On ?n) (s\<lparr>cl_queue := rest, cl_set_up := js_remove ?n (cl_set_up s)\<rparr>)"
  have tr: "setups_apart (cl_trace t) = setups_apart (cl_trace s)" "fst (setup_notes (cl_trace t)) = cl_set_up t"
    using assms(1) by (cases "setup_notes (cl_trace s)"; simp add: t_def setups_apart_def good_def)+
  have ok: "names_ok t \<and> om_get (cl_releasing t) ?n = None" if "setups_apart (cl_trace t)"
  proof -
    have "names_ok s" using that tr assms(1) by (simp add: good_def)
    from names_pop_setup [OF this assms(2) refl] show ?thesis by (simp add: t_def say_def)
  qed
  have g: "good t" using tr ok by (simp add: good_def)
  have "?n \<notin> set (cl_set_up t)" by (simp add: t_def)
  then have "good (setup_now v c cfg t)" using good_setup_now [OF g] ok by simp
  then show ?thesis using g by (simp add: setup_waited_def Let_def flip: t_def)
qed

lemma good_release_mine:
  assumes "good s" and "cl_queue s = Release_Mine c n p # rest"
  shows "good (release_mine c n p (s\<lparr>cl_queue := rest\<rparr>))"
proof -
  let ?t = "if om_get (cl_releasing s) n = Some p then s\<lparr>cl_queue := rest, cl_releasing := om_del n (cl_releasing s)\<rparr>
    else s\<lparr>cl_queue := rest\<rparr>"
  have "good ?t" by (rule good_fields [OF assms(1)]) (use names_pop_mine [OF _ assms(2)] in auto)
  then show ?thesis by (simp add: release_mine_def if_distrib [of "return c Came_Back"] split: if_splits)
qed

lemma good_goes_on:
  assumes "good s" and "cl_queue s = j # rest" and "finishes n j" and "finishes n j'" and "release_of j' = release_of j" and "neutral x"
  shows "good (await (Of_Other e) j' (say x (s\<lparr>cl_queue := rest, cl_next := Suc (cl_next s), cl_foreign := es\<rparr>)))" (is "good ?t")
proof -
  have "names_ok ?t" if "names_ok s"
  proof -
    have "names_ok (await (Of_Other e) j' (s\<lparr>cl_queue := rest\<rparr>)\<lparr>cl_next := Suc (cl_next s)\<rparr>)"
      using names_ok_next [OF names_goes_on [OF that assms(2-5)]] by simp
    then have "names_ok (await (Of_Other e) j' (s\<lparr>cl_queue := rest\<rparr>)\<lparr>cl_next := Suc (cl_next s)\<rparr>\<lparr>cl_foreign := es\<rparr>\<lparr>cl_trace := cl_trace s @ [x]\<rparr>)"
      by (simp only: names_ok_frame)
    also have "await (Of_Other e) j' (s\<lparr>cl_queue := rest\<rparr>)\<lparr>cl_next := Suc (cl_next s)\<rparr>\<lparr>cl_foreign := es\<rparr>\<lparr>cl_trace := cl_trace s @ [x]\<rparr> = ?t"
      by (cases s) (simp add: await_def say_def)
    finally show ?thesis .
  qed
  then show ?thesis using assms(1,6) by (simp add: good_def setups_apart_def)
qed

lemma good_ends:
  assumes "good s" and "cl_queue s = j # rest" and "finishes n j" and "release_of j = Some p"
  shows "good (settle (Of_Release p) Came_Back (s\<lparr>cl_queue := rest\<rparr>))"
  by (rule good_fields [OF assms(1)]) (use names_release_ends [OF _ assms(2-4)] in simp_all)

lemma good_pop: "good s \<Longrightarrow> cl_queue s = j # rest \<Longrightarrow> plain_job j \<Longrightarrow> good (s\<lparr>cl_queue := rest\<rparr>)"
  by (erule good_fields) (simp_all add: names_pop_plain)

lemma good_job:
  assumes "good s" and "cl_queue s = j # rest"
  shows "good (run_job v j (s\<lparr>cl_queue := rest\<rparr>))"
proof (cases "plain_job j")
  case True
  note g = good_pop [OF assms True]
  show ?thesis using True g
    by (cases j)
      (simp_all add: plain_job_def good_release_again good_forget_as_asked good_forget_device_asked good_restore_from good_release_next
        good_await_all good_dispose_next dispose_held_def good_dispose_closing split: option.split ending.split)
next
  case False
  then show ?thesis
  proof (cases j)
    case (Setup_Waited c cfg)
    then show ?thesis using good_setup_waited assms by simp
  next
    case (Release_Mine c n p)
    then show ?thesis using good_release_mine assms by simp
  next
    case (Finish_Let_Go p n x opts)
    then show ?thesis using good_goes_on [OF assms, of n "Finish_Session p n x opts"]
      by (simp add: finish_let_go_def foreign_def)
  next
    case (Finish_Session p n x opts)
    then show ?thesis using good_goes_on [OF assms, of n "Finish_Device p n x"] good_ends [OF assms, of n p]
      by (simp add: finish_session_def foreign_def)
  next
    case (Finish_Device p n x)
    then show ?thesis using good_ends [OF assms, of n p] by simp
  qed (use False in simp_all)
qed

lemma good_task: "good s \<Longrightarrow> good (run_task v k s)"
proof (cases k)
  case (Call q)
  assume g: "good s"
  then show ?thesis using Call
    by (cases q) (simp_all add: fresh_def good_set_up restore_def good_release good_release_all good_dispose)
next
  case Runs
  assume "good s"
  then show ?thesis using Runs good_job by (simp split: list.split)
next
  case (Resolves x d)
  assume "good s"
  then show ?thesis using Resolves by (simp add: resolves_def Let_def split: option.split device_filter.split)
next
  case Bus_Reconnects
  assume "good s"
  then show ?thesis using Bus_Reconnects good_says [of "map Told_Reconnected (map snd (cl_sessions s))" s] by (auto simp: bus_reconnects_def)
qed (simp_all add: after_save_def good_restore_from good_settle hold_granted_def split: option.split)

lemma good_run: "good (client_after hs)"
proof (induction hs rule: rev_induct)
  case Nil
  show ?case
    by (simp add: client_after_def cl_init_def good_def setup_notes_def names_ok_def name_defs promises_ok_def jobs_def)
next
  case (snoc h hs)
  then show ?case
    by (cases h) (simp_all add: client_after_def client_task_done_def Let_def good_task split: list.split)
qed

section \<open>What holds\<close>

fun session_of :: "job \<Rightarrow> nat option" where
  "session_of (Finish_Let_Go p n x opts) = Some x"
| "session_of (Finish_Session p n x opts) = Some x"
| "session_of (Finish_Device p n x) = Some x"
| "session_of _ = None"

text \<open>The sessions a name has: the one that is set up, and those whose release has not finished.\<close>

definition sessions_of :: "js_string \<Rightarrow> client \<Rightarrow> nat list" where
  "sessions_of n s = (case om_get (cl_sessions s) n of None \<Rightarrow> [] | Some x \<Rightarrow> [x]) @
     List.map_filter session_of (filter (finishes n) (map snd (cl_waiting s) @ cl_queue s))"

lemma sessions_of_length:
  "length (sessions_of n s) = size (finishing n s) + (if om_has (cl_sessions s) n then 1 else 0)"
proof -
  have "length (List.map_filter session_of (filter (finishes n) ks)) = size (filter_mset (finishes n) (mset ks))" for ks
    by (induction ks) (auto simp: map_filter_simps elim: finishes.elims)
  from this [of "map snd (cl_waiting s) @ cl_queue s"] show ?thesis
    by (auto simp: sessions_of_def finishing_def jobs_def om_get_None_iff om_get_Some_key split: option.split)
qed

text \<open>
  C10. A name never has two sessions. Whatever is set up, restored, released and disposed of, in whatever order and
  wherever listeners call back: as long as no setup of a name begins while another one waits for the
  name's release, a new session of a name is built only once the release of the one before has finished -
  so that the old one cannot cut the new one off by leaving the bus under its name.
\<close>

theorem one_session_per_name:
  "if setups_apart (cl_trace (client_after hs)) then length (sessions_of n (client_after hs)) \<le> 1 else True"
proof (cases "setups_apart (cl_trace (client_after hs))")
  case True
  then have "name_ok n (client_after hs)" using good_run names_okD(1) by (simp add: good_def)
  then show ?thesis unfolding sessions_of_length by (simp add: name_ok_def)
qed simp

section \<open>Two at once\<close>

text \<open>
  An application that releases a configuration and sets it up again, twice, without waiting: the first of
  the two setups builds a session, the second release begins to release it, and the second setup -
  which waited for the first release alone - builds another beside it.
\<close>

definition all_well :: client_env where
  "all_well = \<lparr>ce_support = None, ce_bus = None, ce_found = (\<lambda>n. None)\<rparr>"

definition keeps_all :: release_options where
  "keeps_all = \<lparr>ro_forget = False, ro_forget_device = False\<rparr>"

definition release_set_up_twice :: "configuration \<Rightarrow> client_happening list" where
  "release_set_up_twice cfg = map (\<lambda>k. Occurs k all_well [])
     ([Call (Call_Setup (Inr cfg)), Runs] @
      concat (replicate 2 [Call (Call_Release (Inr (nc_name cfg, keeps_all))), Call (Call_Setup (Inr cfg))]) @
      [Settles 4, Runs, Settles 8, Runs, Runs, Runs, Runs, Runs])"

lemma two_sessions_of_a_name:
  "sessions_of (js ''scale'') (client_after (release_set_up_twice (sample_configuration ''scale''\<lparr>nc_remember := False\<rparr>))) = [13, 9]"
  by code_simp

end
