(* ===== verification/Spec2Isabelle.thy ===== *)
theory Spec2Isabelle
  imports Delivery Owner_Terms Validation Rate_Limit Receive_Buffer Supervisor Decode Lock_Names Broker Configuration_Store Tab_Slot Persistence_Hold Session_Course
    Transport_Course Client_Runs
begin

text \<open>
  A verification library of serial-broker, the sharing of one serial port between browser tabs.
\<close>

end
